theory Spec2Isabelle
  imports Main "HOL-Library.Word" "HOL-Library.Signed_Division"
begin

section \<open>Data model of the row-construction engine (array.h as used by array.cpp)\<close>

text \<open>
  Counters that the source declares \<^verbatim>\<open>uint64_t\<close> or \<^verbatim>\<open>int64_t\<close> and that it
  increments and decrements are 64-bit words: \<open>+\<close> and \<open>-\<close> wrap as in C++, and an
  \<^verbatim>\<open>int64_t\<close> is read with the signed comparisons \<open><s\<close> and \<open>\<le>s\<close>. Sizes and indices
  (\<^verbatim>\<open>num_factors\<close>, \<^verbatim>\<open>t\<close>, \<^verbatim>\<open>d\<close>, levels, factor and value of a Single) are only ever
  compared and used as loop bounds; they are natural numbers.

  A pointer \<^verbatim>\<open>Single*\<close>, \<^verbatim>\<open>Interaction*\<close> or \<^verbatim>\<open>T*\<close> is the index of the object in the
  Array's vector \<^verbatim>\<open>singles\<close>, \<^verbatim>\<open>interactions\<close> or \<^verbatim>\<open>sets\<close>, which is the order of allocation.
  A \<^verbatim>\<open>std::set\<close> of pointers is a set of indices, iterated in increasing index order.
  A \<^verbatim>\<open>std::set<int>\<close> of row numbers is an \<open>int set\<close>.
  The fingerprint string \<^verbatim>\<open>"f<factor>,<value>"\<close> of a Single is the pair it spells, and the
  concatenation of such strings is the list of the pairs.
  The fields \<^verbatim>\<open>debug\<close>, \<^verbatim>\<open>v\<close>, \<^verbatim>\<open>o\<close> and \<^verbatim>\<open>id\<close> only steer console output and are left out.
\<close>

type_synonym u64 = "64 word"
type_synonym skey = "nat \<times> int"
type_synonym key = "skey list"

datatype prop_mode = none | c_only | c_and_l | all | l_only | l_and_d | d_only | c_and_d

datatype error =
    out_of_range       \<comment> \<open>\<^verbatim>\<open>std::out_of_range\<close> thrown by \<^verbatim>\<open>at()\<close>, never caught\<close>
  | exit_unexpected    \<comment> \<open>\<^verbatim>\<open>exit(-1)\<close> after "ERROR: Unexpected behavior here"\<close>
  | null_pointer       \<comment> \<open>a read or write through \<^verbatim>\<open>nullptr\<close>\<close>
  | bad_index          \<comment> \<open>a read past the end of a raw array\<close>
  | division_by_zero   \<comment> \<open>\<^verbatim>\<open>%\<close> with a zero divisor\<close>

record Single =
  factor :: nat
  svalue :: nat
  rows :: "int set"
  c_issues :: u64
  l_issues :: u64
  d_issues :: u64

record Factor =
  f_id :: nat
  level :: nat
  singles :: "nat list"

record Interaction =
  singles :: "nat list"
  rows :: "int set"
  is_covered :: bool
  is_detectable :: bool
  sets :: "nat set"
  deltas :: "(nat \<times> u64) list"

record T =
  interactions :: "nat list"
  singles :: "nat list"
  rows :: "int set"
  location_conflicts :: "nat set"
  is_locatable :: bool

record Array =
  total_problems :: u64
  coverage_problems :: u64
  location_problems :: u64
  detection_problems :: u64
  score :: u64
  d :: nat
  t :: nat
  delta :: u64
  num_tests :: u64
  num_factors :: nat
  factors :: "Factor list"
  singles :: "Single list"
  interactions :: "Interaction list"
  sets :: "T list"
  rows :: "int list list"
  single_map :: "skey \<rightharpoonup> nat"
  interaction_map :: "key \<rightharpoonup> nat"
  t_set_map :: "key \<rightharpoonup> nat"
  p :: prop_mode
  is_covering :: bool
  is_locating :: bool
  is_detecting :: bool
  dont_cares :: "prop_mode list option"
  permutation :: "int list option"
  heuristic_in_use :: prop_mode

text \<open>The fields of the Parser that the constructor reads.\<close>

record Parser =
  in_d :: nat
  in_t :: nat
  in_delta :: u64
  in_num_rows :: u64
  in_num_cols :: nat
  in_levels :: "nat list"
  in_p :: prop_mode

subsection \<open>Writes through a pointer, loops that may fail\<close>

definition upd_single :: "nat \<Rightarrow> (Single \<Rightarrow> Single) \<Rightarrow> Array \<Rightarrow> Array" where
  "upd_single s f a = a\<lparr>Array.singles := (Array.singles a)[s := f (Array.singles a ! s)]\<rparr>"

definition upd_interaction :: "nat \<Rightarrow> (Interaction \<Rightarrow> Interaction) \<Rightarrow> Array \<Rightarrow> Array" where
  "upd_interaction i f a =
     a\<lparr>Array.interactions := (Array.interactions a)[i := f (Array.interactions a ! i)]\<rparr>"

definition upd_T :: "nat \<Rightarrow> (T \<Rightarrow> T) \<Rightarrow> Array \<Rightarrow> Array" where
  "upd_T k f a = a\<lparr>Array.sets := (Array.sets a)[k := f (Array.sets a ! k)]\<rparr>"

fun fold_err :: "('a \<Rightarrow> 's \<Rightarrow> error + 's) \<Rightarrow> 'a list \<Rightarrow> 's \<Rightarrow> error + 's" where
  "fold_err f [] s = Inr s"
| "fold_err f (x # xs) s = (case f x s of Inl e \<Rightarrow> Inl e | Inr s' \<Rightarrow> fold_err f xs s')"

text \<open>\<^verbatim>\<open>std::map::insert\<close> keeps the old entry when the key is present.\<close>

definition map_insert :: "('k \<rightharpoonup> 'v) \<Rightarrow> 'k \<Rightarrow> 'v \<Rightarrow> ('k \<rightharpoonup> 'v)" where
  "map_insert m k v = (case m k of None \<Rightarrow> m(k \<mapsto> v) | Some _ \<Rightarrow> m)"

text \<open>An entry of a \<^verbatim>\<open>std::map<T*, int64_t>\<close> changed in place.\<close>

definition al_modify :: "nat \<Rightarrow> (u64 \<Rightarrow> u64) \<Rightarrow> (nat \<times> u64) list \<Rightarrow> (nat \<times> u64) list" where
  "al_modify k f xs = map (\<lambda>(k', v). if k' = k then (k', f v) else (k', v)) xs"

text \<open>\<^verbatim>\<open>std::map::insert\<close> on a \<^verbatim>\<open>std::map<T*, int64_t>\<close>, whose entries are kept in key order.\<close>

fun al_insert :: "nat \<Rightarrow> u64 \<Rightarrow> (nat \<times> u64) list \<Rightarrow> (nat \<times> u64) list" where
  "al_insert k v [] = [(k, v)]"
| "al_insert k v ((k', v') # m) =
     (if k = k' then (k', v') # m
      else if k < k' then (k, v) # (k', v') # m
      else (k', v') # al_insert k v m)"

text \<open>The conversion of \<^verbatim>\<open>uint64_t num_tests\<close> to the \<^verbatim>\<open>int\<close> stored in a \<^verbatim>\<open>std::set<int>\<close>.\<close>

definition row_id :: "u64 \<Rightarrow> int" where
  "row_id n = sint (ucast n :: 32 word)"

subsection \<open>Fingerprints\<close>

text \<open>Modelled from the spec: \<^verbatim>\<open>Single::to_string\<close> is declared in array.h, which is not
  among the sources; the spec gives the fingerprint \<^verbatim>\<open>"f<factor>,<value>"\<close>.\<close>

definition Single_to_string :: "Single \<Rightarrow> skey" where
  "Single_to_string s = (factor s, int (svalue s))"

definition Interaction_to_string :: "Array \<Rightarrow> Interaction \<Rightarrow> key" where
  "Interaction_to_string a i = map (\<lambda>s. Single_to_string (Array.singles a ! s)) (Interaction.singles i)"

definition T_to_string :: "Array \<Rightarrow> T \<Rightarrow> key" where
  "T_to_string a x =
     concat (map (\<lambda>i. Interaction_to_string a (Array.interactions a ! i)) (T.interactions x))"

section \<open>Construction (array.cpp)\<close>

text \<open>Modelled from the spec: the constructor \<^verbatim>\<open>Single(i, j)\<close> is in array.h; the spec says it
  creates the Single with all three counters 0 and empty rows.\<close>

definition new_Single :: "nat \<Rightarrow> nat \<Rightarrow> Single" where
  "new_Single i j =
     \<lparr>factor = i, svalue = j, Single.rows = {}, c_issues = 0, l_issues = 0, d_issues = 0\<rparr>"

text \<open>\<^verbatim>\<open>Interaction::Interaction(std::vector<Single*> *temp)\<close>: the caller never passes an empty
  vector (\<^verbatim>\<open>temp->at(0)\<close> would throw; the constructor of the Array checks \<open>t\<close> first).\<close>

definition new_Interaction :: "Array \<Rightarrow> nat list \<Rightarrow> Interaction" where
  "new_Interaction a temp =
     \<lparr>Interaction.singles = temp,
      Interaction.rows = fold (\<lambda>s r. r \<inter> Single.rows (Array.singles a ! s)) (tl temp)
               (Single.rows (Array.singles a ! hd temp)),
      is_covered = False, is_detectable = False, Interaction.sets = {}, deltas = []\<rparr>"

text \<open>\<^verbatim>\<open>T::T(std::vector<Interaction*> *temp)\<close>; its last loop, which writes into the member
  Interactions, is in \<open>add_set\<close> below.\<close>

definition new_T :: "Array \<Rightarrow> nat list \<Rightarrow> T" where
  "new_T a temp =
     \<lparr>T.interactions = temp,
      T.singles = concat (map (\<lambda>i. Interaction.singles (Array.interactions a ! i)) temp),
      T.rows = fold (\<lambda>i r. r \<union> Interaction.rows (Array.interactions a ! i)) (tl temp)
               (Interaction.rows (Array.interactions a ! hd temp)),
      location_conflicts = {}, is_locatable = False\<rparr>"

text \<open>\<^verbatim>\<open>Array::Array()\<close>.\<close>

definition Array_default :: Array where
  "Array_default =
     \<lparr>total_problems = 0, coverage_problems = 0, location_problems = 0, detection_problems = 0,
      score = 0, d = 0, t = 0, delta = 0, num_tests = 0, num_factors = 0,
      factors = [], singles = [], interactions = [], sets = [], rows = [],
      single_map = Map.empty, interaction_map = Map.empty, t_set_map = Map.empty,
      p = all, is_covering = False, is_locating = False, is_detecting = False,
      dont_cares = None, permutation = None, heuristic_in_use = none\<rparr>"

text \<open>The two loops that build the Factors and their Singles, shared by both constructors.\<close>

definition add_single :: "nat \<Rightarrow> nat \<Rightarrow> Array \<Rightarrow> Array" where
  "add_single i j a =
     (let ptr = length (Array.singles a) in
      a\<lparr>Array.singles := Array.singles a @ [new_Single i j],
        factors := (factors a)[i := (factors a ! i)\<lparr>Factor.singles := Factor.singles (factors a ! i) @ [ptr]\<rparr>],
        single_map := map_insert (single_map a) (Single_to_string (new_Single i j)) ptr\<rparr>)"

definition add_factor :: "nat \<Rightarrow> nat \<Rightarrow> Array \<Rightarrow> Array" where
  "add_factor i lvl a =
     fold (add_single i) [0..<lvl]
       (a\<lparr>factors := factors a @ [\<lparr>f_id = i, level = lvl, Factor.singles = []\<rparr>]\<rparr>)"

definition build_factors :: "nat list \<Rightarrow> Array \<Rightarrow> Array" where
  "build_factors lvls a = fold (\<lambda>i. add_factor i (lvls ! i)) [0..<num_factors a] a"

text \<open>The base case of \<^verbatim>\<open>build_t_way_interactions\<close>: store the Interaction, then one
  \<^verbatim>\<open>c_issues++; total_problems++; score++\<close> per Single of it.\<close>

definition add_interaction :: "nat list \<Rightarrow> Array \<Rightarrow> Array" where
  "add_interaction singles_so_far a =
     (let new_interaction = new_Interaction a singles_so_far;
          ptr = length (Array.interactions a);
          a1 = a\<lparr>Array.interactions := Array.interactions a @ [new_interaction],
                 interaction_map :=
                   map_insert (interaction_map a) (Interaction_to_string a new_interaction) ptr\<rparr>
      in fold (\<lambda>s b. (upd_single s (c_issues_update (\<lambda>c. c + 1)) b)
                        \<lparr>total_problems := total_problems b + 1, score := score b + 1\<rparr>)
           (Interaction.singles new_interaction) a1)"

text \<open>\<^verbatim>\<open>build_t_way_interactions\<close>. The bound \<^verbatim>\<open>num_factors - t_cur + 1\<close> is computed in
  \<^verbatim>\<open>uint64_t\<close>; it equals \<open>num_factors + 1 - t_cur\<close> whenever \<open>t_cur \<le> num_factors + 1\<close>,
  which the constructor checks before the first call and every recursive call keeps.\<close>

fun build_t_way_interactions :: "nat \<Rightarrow> nat \<Rightarrow> nat list \<Rightarrow> Array \<Rightarrow> Array" where
  "build_t_way_interactions start 0 singles_so_far a = add_interaction singles_so_far a"
| "build_t_way_interactions start (Suc t_cur) singles_so_far a =
     fold (\<lambda>col. fold (\<lambda>lvl b.
               build_t_way_interactions (col + 1) t_cur
                 (singles_so_far @ [Factor.singles (factors a ! col) ! lvl]) b)
             [0..<level (factors a ! col)])
       [start..<num_factors a + 1 - Suc t_cur] a"

text \<open>The base case of \<^verbatim>\<open>build_size_d_sets\<close>, with the loop of the constructor of T that gives
  every member Interaction a reference to the new set.\<close>

definition add_set :: "nat list \<Rightarrow> Array \<Rightarrow> Array" where
  "add_set interactions_so_far a =
     (let new_set = new_T a interactions_so_far;
          ptr = length (Array.sets a);
          a1 = fold (\<lambda>i. upd_interaction i (Interaction.sets_update (insert ptr))) interactions_so_far a
      in a1\<lparr>Array.sets := Array.sets a @ [new_set],
            t_set_map := map_insert (t_set_map a) (T_to_string a new_set) ptr\<rparr>)"

fun build_size_d_sets :: "nat \<Rightarrow> nat \<Rightarrow> nat list \<Rightarrow> Array \<Rightarrow> Array" where
  "build_size_d_sets start 0 interactions_so_far a = add_set interactions_so_far a"
| "build_size_d_sets start (Suc d_cur) interactions_so_far a =
     fold (\<lambda>i. build_size_d_sets (i + 1) d_cur (interactions_so_far @ [i]))
       [start..<length (Array.interactions a) + 1 - Suc d_cur] a"

text \<open>The three counting passes of \<^verbatim>\<open>Array::Array(Parser *in)\<close> after the enumerations.\<close>

definition init_location :: "Array \<Rightarrow> Array" where
  "init_location a =
     (let n = (of_nat (length (Array.sets a)) :: u64);
          a1 = fold (\<lambda>k. fold (\<lambda>s b. (upd_single s (l_issues_update (\<lambda>c. c + n)) b)
                                        \<lparr>total_problems := total_problems b + n\<rparr>)
                            (T.singles (Array.sets a ! k)))
                 [0..<length (Array.sets a)] a;
          a2 = a1\<lparr>total_problems := total_problems a1 + n\<rparr>;
          a3 = a2\<lparr>location_problems := location_problems a2 + n\<rparr>
      in a3\<lparr>score := total_problems a3\<rparr>)"

definition init_detection :: "Array \<Rightarrow> Array" where
  "init_detection a =
     (let a1 = fold (\<lambda>i. fold (\<lambda>k b.
                   if k \<notin> Interaction.sets (Array.interactions b ! i)
                   then fold (\<lambda>s c. (upd_single s (d_issues_update (\<lambda>x. x + delta c)) c)
                                      \<lparr>total_problems := total_problems c + delta c,
                                       score := score c + delta c\<rparr>)
                          (Interaction.singles (Array.interactions b ! i))
                          (upd_interaction i (deltas_update (al_insert k 0)) b)
                   else b)
                 [0..<length (Array.sets a)])
               [0..<length (Array.interactions a)] a;
          n = (of_nat (length (Array.interactions a1)) :: u64);
          a2 = a1\<lparr>total_problems := total_problems a1 + n\<rparr>;
          a3 = a2\<lparr>detection_problems := detection_problems a2 + n\<rparr>
      in a3\<lparr>score := score a3 + n\<rparr>)"

text \<open>\<^verbatim>\<open>Array::Array(Parser *in)\<close>. The checks in front stand for what the C++ does on
  parameters outside the precondition: \<^verbatim>\<open>levels.at(i)\<close> and \<^verbatim>\<open>temp->at(0)\<close> throw, and a loop
  bound that wraps around reads past the end of an array.\<close>

definition Array_ctor :: "Parser \<Rightarrow> error + Array" where
  "Array_ctor inp =
     (let a0 = Array_default\<lparr>d := in_d inp, t := in_t inp, delta := in_delta inp,
                 num_tests := in_num_rows inp, num_factors := in_num_cols inp,
                 dont_cares := Some (replicate (in_num_cols inp) none),
                 permutation := Some (map int [0..<in_num_cols inp]),
                 p := in_p inp\<rparr>
      in if length (in_levels inp) < in_num_cols inp \<or> in_t inp = 0 then Inl out_of_range
         else if num_factors a0 + 1 < t a0 then Inl bad_index
         else
           let a1 = build_factors (in_levels inp) a0;
               a2 = build_t_way_interactions 0 (t a1) [] a1;
               n = (of_nat (length (Array.interactions a2)) :: u64);
               a3 = a2\<lparr>total_problems := total_problems a2 + n\<rparr>;
               a4 = a3\<lparr>coverage_problems := coverage_problems a3 + n\<rparr>;
               a5 = a4\<lparr>score := score a4 + total_problems a4\<rparr>
           in if p a5 = c_only then Inr a5
              else if d a5 = 0 then Inl out_of_range
              else if length (Array.interactions a5) + 1 < d a5 then Inl bad_index
              else
                let a6 = init_location (build_size_d_sets 0 (d a5) [] a5)
                in if p a6 \<noteq> all then Inr a6 else Inr (init_detection a6))"

section \<open>Committing a row (array.cpp)\<close>

text \<open>\<^verbatim>\<open>build_row_interactions\<close>: the key grows by one \<^verbatim>\<open>"f<col>,<row[col]>"\<close> per level of
  the recursion, and \<^verbatim>\<open>interaction_map.at(key)\<close> throws when no Interaction has that key.
  A row buffer holds \<^verbatim>\<open>num_factors\<close> entries.\<close>

lemma fold_err_cong [fundef_cong]:
  "xs = ys \<Longrightarrow> s = s' \<Longrightarrow> (\<And>x u. x \<in> set ys \<Longrightarrow> f x u = g x u) \<Longrightarrow> fold_err f xs s = fold_err g ys s'"
proof (induction ys arbitrary: xs s s')
  case Nil
  then show ?case by simp
next
  case (Cons y ys)
  then show ?case by (auto split: sum.splits)
qed

fun build_row_interactions :: "Array \<Rightarrow> int list \<Rightarrow> nat \<Rightarrow> nat \<Rightarrow> key \<Rightarrow> nat set \<Rightarrow> error + nat set" where
  "build_row_interactions a row start 0 ky row_interactions =
     (case interaction_map a ky of
        None \<Rightarrow> Inl out_of_range
      | Some i \<Rightarrow> Inr (insert i row_interactions))"
| "build_row_interactions a row start (Suc t_cur) ky row_interactions =
     fold_err (\<lambda>col. build_row_interactions a row (col + 1) t_cur (ky @ [(col, row ! col)]))
       [start..<num_factors a + 1 - Suc t_cur] row_interactions"

text \<open>The loop \<^verbatim>\<open>for (Single *s : ss) { s->field = g(s->field); score = g(score); }\<close>, which
  \<^verbatim>\<open>update_array\<close> runs with \<^verbatim>\<open>++\<close>, \<^verbatim>\<open>--\<close>, \<^verbatim>\<open>-= sets.size()\<close> and \<^verbatim>\<open>-= solved\<close>.\<close>

definition bump_singles ::
  "nat list \<Rightarrow> ((u64 \<Rightarrow> u64) \<Rightarrow> Single \<Rightarrow> Single) \<Rightarrow> (u64 \<Rightarrow> u64) \<Rightarrow> Array \<Rightarrow> Array" where
  "bump_singles ss field g a = fold (\<lambda>s b. (upd_single s (field g) b)\<lparr>score := g (score b)\<rparr>) ss a"

text \<open>First loop of \<^verbatim>\<open>update_array\<close>: the row number goes into the rows of every Single of the
  Interaction, of the Interaction, and of every T set the Interaction is part of.\<close>

definition insert_row :: "int \<Rightarrow> nat \<Rightarrow> Array \<times> nat set \<Rightarrow> Array \<times> nat set" where
  "insert_row k i = (\<lambda>(a, row_sets).
     let a1 = fold (\<lambda>s. upd_single s (Single.rows_update (insert k)))
                (Interaction.singles (Array.interactions a ! i)) a;
         a2 = upd_interaction i (Interaction.rows_update (insert k)) a1;
         a3 = fold (\<lambda>x. upd_T x (T.rows_update (insert k)))
                (sorted_list_of_set (Interaction.sets (Array.interactions a2 ! i))) a2
     in (a3, row_sets \<union> Interaction.sets (Array.interactions a2 ! i)))"

definition coverage_step :: "nat \<Rightarrow> Array \<Rightarrow> Array" where
  "coverage_step i a =
     (if \<not> is_covered (Array.interactions a ! i) then
        let a1 = upd_interaction i (is_covered_update (\<lambda>_. True)) a;
            a2 = bump_singles (Interaction.singles (Array.interactions a1 ! i))
                   c_issues_update (\<lambda>x. x - 1) a1;
            a3 = a2\<lparr>score := score a2 - 1\<rparr>;
            a4 = a3\<lparr>coverage_problems := coverage_problems a3 - 1\<rparr>
        in if coverage_problems a4 = 0 then a4\<lparr>is_covering := True\<rparr> else a4
      else a)"

definition detection_others :: "nat \<Rightarrow> nat \<Rightarrow> Array \<Rightarrow> error + Array" where
  "detection_others i k b =
     (case map_of (deltas (Array.interactions b ! i)) k of
        None \<Rightarrow> Inl out_of_range
      | Some v \<Rightarrow>
          Inr (upd_interaction i (deltas_update (al_modify k (\<lambda>x. x - 1)))
                 (if v \<le>s delta b
                  then bump_singles (Interaction.singles (Array.interactions b ! i))
                         d_issues_update (\<lambda>x. x + 1) b
                  else b)))"

definition detection_entry :: "nat \<Rightarrow> nat \<times> u64 \<Rightarrow> Array \<Rightarrow> Array" where
  "detection_entry i = (\<lambda>(k, v) b.
     let b1 = upd_interaction i (deltas_update (al_modify k (\<lambda>x. x + 1))) b;
         b2 = (if v + 1 <s delta b1
               then upd_interaction i (is_detectable_update (\<lambda>_. False)) b1 else b1)
     in if v + 1 \<le>s delta b2
        then bump_singles (Interaction.singles (Array.interactions b2 ! i))
               d_issues_update (\<lambda>x. x - 1) b2
        else b2)"

definition detection_step :: "nat set \<Rightarrow> nat \<Rightarrow> Array \<Rightarrow> error + Array" where
  "detection_step row_sets i a =
     (if p a \<noteq> all then Inr a
      else if is_detectable (Array.interactions a ! i) then Inr a
      else
        let a1 = upd_interaction i (is_detectable_update (\<lambda>_. True)) a;
            other_sets = row_sets - Interaction.sets (Array.interactions a1 ! i)
        in case fold_err (detection_others i) (sorted_list_of_set other_sets) a1 of
             Inl e \<Rightarrow> Inl e
           | Inr a2 \<Rightarrow>
               let a3 = fold (detection_entry i) (deltas (Array.interactions a2 ! i)) a2
               in if is_detectable (Array.interactions a3 ! i) then
                    let a4 = a3\<lparr>score := score a3 - 1\<rparr>;
                        a5 = a4\<lparr>detection_problems := detection_problems a4 - 1\<rparr>
                    in Inr (if detection_problems a5 = 0 then a5\<lparr>is_detecting := True\<rparr> else a5)
                  else Inr a3)"

definition interaction_step :: "nat set \<Rightarrow> nat \<Rightarrow> Array \<Rightarrow> error + Array" where
  "interaction_step row_sets i a = detection_step row_sets i (coverage_step i a)"

text \<open>Location, first appearance of \<open>t1\<close>: every other T set of the row that also appears for
  the first time becomes a conflict.\<close>

definition location_first :: "nat \<Rightarrow> nat \<Rightarrow> Array \<Rightarrow> Array" where
  "location_first t1 t2 a =
     (if t1 = t2 \<or> card (T.rows (Array.sets a ! t2)) > 1 then a
      else bump_singles (T.singles (Array.sets a ! t1)) l_issues_update (\<lambda>x. x + 1)
             (upd_T t1 (location_conflicts_update (insert t2)) a))"

text \<open>Location, \<open>t1\<close> seen before: a conflict \<open>t2\<close> that is not in this row is solved, on both
  sides; the state of the loop is the Array with the locals \<^verbatim>\<open>temp\<close> and \<^verbatim>\<open>solved\<close>.\<close>

definition location_solve ::
  "nat set \<Rightarrow> nat \<Rightarrow> nat \<Rightarrow> Array \<times> nat set \<times> u64 \<Rightarrow> error + Array \<times> nat set \<times> u64" where
  "location_solve row_sets t1 t2 = (\<lambda>(a, temp, solved).
     if t2 \<in> row_sets then Inr (a, temp, solved)
     else if t1 \<in> location_conflicts (Array.sets a ! t2) then
       let a1 = upd_T t2 (location_conflicts_update (\<lambda>c. c - {t1})) a;
           a2 = bump_singles (T.singles (Array.sets a1 ! t2)) l_issues_update (\<lambda>x. x - 1) a1
       in if location_conflicts (Array.sets a2 ! t2) = {} then
            let a3 = upd_T t2 (is_locatable_update (\<lambda>_. True)) a2;
                a4 = a3\<lparr>score := score a3 - 1\<rparr>;
                a5 = a4\<lparr>location_problems := location_problems a4 - 1\<rparr>
            in if location_problems a5 = 0 then Inl exit_unexpected
               else Inr (a5, temp - {t2}, solved + 1)
          else Inr (a2, temp - {t2}, solved + 1)
     else Inl exit_unexpected)"

definition location_step :: "nat set \<Rightarrow> nat \<Rightarrow> Array \<Rightarrow> error + Array" where
  "location_step row_sets t1 a =
     (if is_locatable (Array.sets a ! t1) then Inr a
      else
        case (if card (T.rows (Array.sets a ! t1)) = 1 then
                Inr (fold (location_first t1) (sorted_list_of_set row_sets)
                       (bump_singles (T.singles (Array.sets a ! t1)) l_issues_update
                          (\<lambda>x. x - of_nat (length (Array.sets a))) a))
              else
                (case fold_err (location_solve row_sets t1)
                        (sorted_list_of_set (location_conflicts (Array.sets a ! t1)))
                        (a, location_conflicts (Array.sets a ! t1), 0) of
                   Inl e \<Rightarrow> Inl e
                 | Inr (a1, temp, solved) \<Rightarrow>
                     Inr (upd_T t1 (location_conflicts_update (\<lambda>_. temp))
                            (bump_singles (T.singles (Array.sets a1 ! t1)) l_issues_update
                               (\<lambda>x. x - solved) a1)))) of
          Inl e \<Rightarrow> Inl e
        | Inr a2 \<Rightarrow>
            if location_conflicts (Array.sets a2 ! t1) = {} then
              let a3 = upd_T t1 (is_locatable_update (\<lambda>_. True)) a2;
                  a4 = a3\<lparr>score := score a3 - 1\<rparr>;
                  a5 = a4\<lparr>location_problems := location_problems a4 - 1\<rparr>
              in Inr (if location_problems a5 = 0 then a5\<lparr>is_locating := True\<rparr> else a5)
            else Inr a2)"

text \<open>The block \<^verbatim>\<open>if (!keep)\<close>.\<close>

definition erase_row :: "int \<Rightarrow> nat \<Rightarrow> Array \<Rightarrow> Array" where
  "erase_row k i a =
     upd_interaction i (Interaction.rows_update (\<lambda>r. r - {k}))
       (fold (\<lambda>s. upd_single s (Single.rows_update (\<lambda>r. r - {k})))
          (Interaction.singles (Array.interactions a ! i)) a)"

definition rollback :: "nat set \<Rightarrow> nat set \<Rightarrow> Array \<Rightarrow> Array" where
  "rollback row_interactions row_sets a =
     (let k = row_id (num_tests a);
          a1 = fold (erase_row k) (sorted_list_of_set row_interactions) a;
          a2 = fold (\<lambda>x. upd_T x (T.rows_update (\<lambda>r. r - {k}))) (sorted_list_of_set row_sets) a1;
          a3 = a2\<lparr>num_tests := num_tests a2 - 1\<rparr>
      in a3\<lparr>Array.rows := butlast (Array.rows a3)\<rparr>)"

definition update_array :: "int list \<Rightarrow> nat set \<Rightarrow> bool \<Rightarrow> Array \<Rightarrow> error + Array" where
  "update_array row row_interactions keep a =
     (let a1 = a\<lparr>Array.rows := Array.rows a @ [row]\<rparr>;
          a2 = a1\<lparr>num_tests := num_tests a1 + 1\<rparr>;
          (a3, row_sets) = fold (insert_row (row_id (num_tests a2)))
                             (sorted_list_of_set row_interactions) (a2, {})
      in case fold_err (interaction_step row_sets) (sorted_list_of_set row_interactions) a3 of
           Inl e \<Rightarrow> Inl e
         | Inr a4 \<Rightarrow>
             (case (if p a4 \<noteq> c_only \<and> \<not> is_locating a4
                    then fold_err (location_step row_sets) (sorted_list_of_set row_sets) a4
                    else Inr a4) of
                Inl e \<Rightarrow> Inl e
              | Inr a5 \<Rightarrow> Inr (if \<not> keep then rollback row_interactions row_sets a5 else a5)))"

text \<open>A committed row: \<^verbatim>\<open>build_row_interactions(new_row, &row_interactions, 0, t, "")\<close>, then
  \<^verbatim>\<open>update_array(new_row, &row_interactions)\<close>, as \<^verbatim>\<open>add_random_row\<close> and \<^verbatim>\<open>add_row\<close> of
  array.cpp do with the row they chose.\<close>

definition commit_row :: "int list \<Rightarrow> bool \<Rightarrow> Array \<Rightarrow> error + Array" where
  "commit_row row keep a =
     (case build_row_interactions a row 0 (t a) [] {} of
        Inl e \<Rightarrow> Inl e
      | Inr row_interactions \<Rightarrow> update_array row row_interactions keep a)"

section \<open>Clone (array.cpp)\<close>

text \<open>\<^verbatim>\<open>Array::Array(uint64_t total_problems_o, ...)\<close>, used only by \<^verbatim>\<open>clone\<close>. The checks in
  front are those of \<open>Array_ctor\<close>, and \<^verbatim>\<open>factors_o[i]\<close> must exist for every factor.\<close>

definition Array_clone_ctor ::
  "u64 \<Rightarrow> u64 \<Rightarrow> u64 \<Rightarrow> u64 \<Rightarrow> int list list \<Rightarrow> u64 \<Rightarrow> nat \<Rightarrow> Factor list \<Rightarrow> prop_mode \<Rightarrow>
   nat \<Rightarrow> nat \<Rightarrow> u64 \<Rightarrow> error + Array" where
  "Array_clone_ctor total_problems_o coverage_problems_o location_problems_o detection_problems_o
     rows_o num_tests_o num_factors_o factors_o p_o d_o t_o delta_o =
     (let a0 = Array_default\<lparr>total_problems := total_problems_o,
                 coverage_problems := coverage_problems_o,
                 location_problems := location_problems_o,
                 detection_problems := detection_problems_o,
                 d := d_o, t := t_o, delta := delta_o,
                 num_tests := num_tests_o, num_factors := num_factors_o, p := p_o\<rparr>
      in if length factors_o < num_factors_o then Inl bad_index
         else if t_o = 0 then Inl out_of_range
         else if num_factors_o + 1 < t_o then Inl bad_index
         else
           let a1 = build_factors (map level factors_o) a0;
               a2 = build_t_way_interactions 0 (t a1) [] a1
           in if p a2 = c_only then Inr a2
              else if d a2 = 0 then Inl out_of_range
              else if length (Array.interactions a2) + 1 < d a2 then Inl bad_index
              else
                let a3 = build_size_d_sets 0 (d a2) [] a2
                in Inr (fold (\<lambda>row_o b.
                          b\<lparr>Array.rows := Array.rows b @
                               [map (\<lambda>col. row_o ! col) [0..<num_factors b]]\<rparr>)
                        rows_o a3))"

definition copy_single :: "Array \<Rightarrow> nat \<Rightarrow> Array \<Rightarrow> error + Array" where
  "copy_single this s c =
     (let this_s = Array.singles this ! s in
      case single_map c (Single_to_string this_s) of
        None \<Rightarrow> Inl out_of_range
      | Some clone_s \<Rightarrow>
          Inr (upd_single clone_s
                 (\<lambda>x. x\<lparr>Single.rows := Single.rows this_s, c_issues := c_issues this_s,
                         l_issues := l_issues this_s, d_issues := d_issues this_s\<rparr>) c))"

definition copy_interaction :: "Array \<Rightarrow> nat \<Rightarrow> Array \<Rightarrow> error + Array" where
  "copy_interaction this i c =
     (let this_i = Array.interactions this ! i in
      case interaction_map c (Interaction_to_string this this_i) of
        None \<Rightarrow> Inl out_of_range
      | Some clone_i \<Rightarrow>
          fold_err (\<lambda>(k, v) b.
              case t_set_map b (T_to_string this (Array.sets this ! k)) of
                None \<Rightarrow> Inl out_of_range
              | Some clone_t \<Rightarrow> Inr (upd_interaction clone_i (deltas_update (al_insert clone_t v)) b))
            (deltas this_i)
            (upd_interaction clone_i
               (\<lambda>x. x\<lparr>Interaction.rows := Interaction.rows this_i,
                       is_covered := is_covered this_i,
                       is_detectable := is_detectable this_i\<rparr>) c))"

definition copy_set :: "Array \<Rightarrow> nat \<Rightarrow> Array \<Rightarrow> error + Array" where
  "copy_set this k c =
     (let this_t = Array.sets this ! k in
      case t_set_map c (T_to_string this this_t) of
        None \<Rightarrow> Inl out_of_range
      | Some clone_t \<Rightarrow>
          fold_err (\<lambda>other_t b.
              case t_set_map b (T_to_string this (Array.sets this ! other_t)) of
                None \<Rightarrow> Inl out_of_range
              | Some clone_other_t \<Rightarrow>
                  Inr (upd_T clone_t (location_conflicts_update (insert clone_other_t)) b))
            (sorted_list_of_set (location_conflicts this_t))
            (upd_T clone_t
               (\<lambda>x. x\<lparr>T.rows := T.rows this_t, is_locatable := is_locatable this_t\<rparr>) c))"

definition clone :: "Array \<Rightarrow> error + Array" where
  "clone a =
     (case Array_clone_ctor (total_problems a) (coverage_problems a) (location_problems a)
             (detection_problems a) (Array.rows a) (num_tests a) (num_factors a) (factors a)
             (p a) (d a) (t a) (delta a) of
        Inl e \<Rightarrow> Inl e
      | Inr c0 \<Rightarrow>
          (let c1 = c0\<lparr>score := score a, is_covering := is_covering a,
                       is_locating := is_locating a, is_detecting := is_detecting a\<rparr>
           in case fold_err (copy_single a) [0..<length (Array.singles a)] c1 of
                Inl e \<Rightarrow> Inl e
              | Inr c2 \<Rightarrow>
                  (case fold_err (copy_interaction a) [0..<length (Array.interactions a)] c2 of
                     Inl e \<Rightarrow> Inl e
                   | Inr c3 \<Rightarrow> fold_err (copy_set a) [0..<length (Array.sets a)] c3)))"

section \<open>Choosing a row (heuristics.cpp)\<close>

text \<open>
  The process-wide generator behind \<^verbatim>\<open>rand()\<close> is the stream of the numbers it will return.
  Every method of the Array is a function from the Array and the generator to its result, the
  Array it leaves and the generator it leaves.
  \<^verbatim>\<open>update_array(new_row)\<close> is called here with the row alone; array.cpp defines it with the
  set of the row's Interactions, which \<^verbatim>\<open>add_random_row\<close> gets from
  \<^verbatim>\<open>build_row_interactions\<close>: that is \<open>commit_row\<close>.
\<close>

type_synonym rng = "nat \<Rightarrow> nat"

definition rand :: "rng \<Rightarrow> nat \<times> rng" where
  "rand r = (r 0, \<lambda>n. r (Suc n))"

definition shuffle_step :: "nat \<Rightarrow> Array \<times> rng \<Rightarrow> error + Array \<times> rng" where
  "shuffle_step sz = (\<lambda>(a, r).
     case permutation a of
       None \<Rightarrow> Inl null_pointer
     | Some perm \<Rightarrow>
         let (x, r') = rand r;
             rand_idx = x mod sz;
             temp = perm ! (sz - 1);
             perm1 = perm[sz - 1 := perm ! rand_idx]
         in Inr (a\<lparr>permutation := Some (perm1[rand_idx := temp])\<rparr>, r'))"

definition shuffle_permutation :: "Array \<times> rng \<Rightarrow> error + Array \<times> rng" where
  "shuffle_permutation = (\<lambda>(a, r). fold_err shuffle_step (rev [1..<num_factors a + 1]) (a, r))"

definition initialize_row_R :: "Array \<times> rng \<Rightarrow> error + int list \<times> Array \<times> rng" where
  "initialize_row_R = (\<lambda>(a, r).
     case fold_err (\<lambda>i (new_row, r).
              let (x, r') = rand r in
              if level (factors a ! i) = 0 then Inl division_by_zero
              else Inr (new_row[i := int (x mod level (factors a ! i))], r'))
            [0..<num_factors a] (replicate (num_factors a) 0, r) of
       Inl e \<Rightarrow> Inl e
     | Inr (new_row, r') \<Rightarrow> Inr (new_row, a, r'))"

text \<open>\<^verbatim>\<open>int worst_score = static_cast<int64_t>(c_issues) + l_issues + 3*static_cast<int64_t>(d_issues)\<close>:
  the 64-bit sum, cut to an \<^verbatim>\<open>int\<close>.\<close>

definition single_score :: "Single \<Rightarrow> 32 word" where
  "single_score s = ucast (c_issues s + l_issues s + 3 * d_issues s)"

definition dont_care_column :: "Array \<Rightarrow> nat \<Rightarrow> error + bool" where
  "dont_care_column a pc =
     (if p a = all \<or> p a = c_and_l \<or> p a = c_only then
        (case dont_cares a of
           None \<Rightarrow> Inl null_pointer
         | Some dc \<Rightarrow> Inr ((p a = all \<and> dc ! pc = all) \<or> (p a = c_and_l \<and> dc ! pc = c_and_l) \<or>
                          (p a = c_only \<and> dc ! pc = c_only)))
      else Inr False)"

definition worst_single_step :: "Array \<Rightarrow> nat \<Rightarrow> nat \<Rightarrow> nat \<times> 32 word \<times> rng \<Rightarrow> nat \<times> 32 word \<times> rng" where
  "worst_single_step a pc val = (\<lambda>(worst_single, worst_score, r).
     let cur_single = Factor.singles (factors a ! pc) ! val;
         cur_score = single_score (Array.singles a ! cur_single)
     in if worst_score <s cur_score then (cur_single, cur_score, r)
        else if cur_score = worst_score then
          (let (x, r') = rand r
           in if x mod 2 = 0 then (cur_single, cur_score, r') else (worst_single, worst_score, r'))
        else (worst_single, worst_score, r))"

definition initialize_row_S_step :: "Array \<Rightarrow> nat \<Rightarrow> int list \<times> rng \<Rightarrow> error + int list \<times> rng" where
  "initialize_row_S_step a col = (\<lambda>(new_row, r).
     case permutation a of
       None \<Rightarrow> Inl null_pointer
     | Some perm \<Rightarrow>
         let pc = nat (perm ! col) in
         (case dont_care_column a pc of
            Inl e \<Rightarrow> Inl e
          | Inr True \<Rightarrow>
              (let (x, r') = rand r in
               if level (factors a ! pc) = 0 then Inl division_by_zero
               else Inr (new_row[pc := int (x mod level (factors a ! pc))], r'))
          | Inr False \<Rightarrow>
              if level (factors a ! pc) = 0 then Inl bad_index
              else
                let w0 = Factor.singles (factors a ! pc) ! 0;
                    (worst_single, worst_score, r') =
                      fold (worst_single_step a pc) [1..<level (factors a ! pc)]
                        (w0, single_score (Array.singles a ! w0), r)
                in Inr (new_row[pc := int (svalue (Array.singles a ! worst_single))], r')))"

definition initialize_row_S :: "Array \<times> rng \<Rightarrow> error + int list \<times> Array \<times> rng" where
  "initialize_row_S = (\<lambda>(a, r).
     case fold_err (initialize_row_S_step a) [0..<num_factors a] (replicate (num_factors a) 0, r) of
       Inl e \<Rightarrow> Inl e
     | Inr (new_row, r') \<Rightarrow> Inr (new_row, a, r'))"

text \<open>The loop of \<^verbatim>\<open>initialize_row_T\<close> that collects the T sets with the most conflicts;
  \<^verbatim>\<open>worst_count\<close> starts at \<^verbatim>\<open>INT64_MIN\<close>.\<close>

definition worst_sets_step :: "Array \<Rightarrow> nat \<Rightarrow> int \<times> nat list \<Rightarrow> int \<times> nat list" where
  "worst_sets_step a k = (\<lambda>(worst_count, worst_sets).
     let n = int (card (location_conflicts (Array.sets a ! k))) in
     if n \<ge> worst_count then
       (if n > worst_count then (n, [k]) else (worst_count, worst_sets @ [k]))
     else (worst_count, worst_sets))"

definition lock_singles :: "Array \<Rightarrow> nat \<Rightarrow> int list \<Rightarrow> int list" where
  "lock_singles a locked new_row =
     fold (\<lambda>s row. row[factor (Array.singles a ! s) := int (svalue (Array.singles a ! s))])
       (T.singles (Array.sets a ! locked)) new_row"

definition initialize_row_T :: "Array \<times> rng \<Rightarrow> error + (int list \<times> nat) \<times> Array \<times> rng" where
  "initialize_row_T = (\<lambda>(a, r).
     case initialize_row_R (a, r) of
       Inl e \<Rightarrow> Inl e
     | Inr (new_row, a1, r1) \<Rightarrow>
         let (worst_count, worst_sets) =
               fold (worst_sets_step a1) [0..<length (Array.sets a1)] (- (2 ^ 63), []);
             (x, r2) = rand r1
         in if worst_sets = [] then Inl division_by_zero
            else
              let locked = worst_sets ! (x mod length worst_sets)
              in Inr ((lock_singles a1 locked new_row, locked), a1, r2))"

subsection \<open>heuristic_c_only\<close>

definition bump_problems :: "Array \<Rightarrow> nat list \<Rightarrow> int \<Rightarrow> int list \<Rightarrow> int list" where
  "bump_problems a ss dlt problems =
     fold (\<lambda>s pr. pr[factor (Array.singles a ! s) := pr ! factor (Array.singles a ! s) + dlt])
       ss problems"

definition c_only_count :: "Array \<Rightarrow> prop_mode list \<Rightarrow> nat \<Rightarrow> int list \<Rightarrow> int list" where
  "c_only_count a dont_cares_c i problems =
     (let ss = Interaction.singles (Array.interactions a ! i) in
      if card (Interaction.rows (Array.interactions a ! i)) \<noteq> 0 then
        (if \<exists>s\<in>set ss. dont_cares_c ! factor (Array.singles a ! s) \<noteq> none then problems
         else bump_problems a ss 1 problems)
      else bump_problems a ss (- 1) problems)"

definition c_helper_count :: "Array \<Rightarrow> nat \<Rightarrow> int list \<Rightarrow> int list" where
  "c_helper_count a i problems =
     (let ss = Interaction.singles (Array.interactions a ! i) in
      if card (Interaction.rows (Array.interactions a ! i)) \<noteq> 0 then
        (if \<exists>s\<in>set ss. c_issues (Array.singles a ! s) = 0 then problems
         else bump_problems a ss 1 problems)
      else bump_problems a ss (- 1) problems)"

text \<open>\<^verbatim>\<open>heuristic_c_helper\<close>: returns the maximum and leaves the counters in \<^verbatim>\<open>problems\<close>;
  \<^verbatim>\<open>factors[col]->singles[row[col]]\<close> must exist.\<close>

definition heuristic_c_helper :: "Array \<Rightarrow> int list \<Rightarrow> nat set \<Rightarrow> int list \<Rightarrow> error + int \<times> int list" where
  "heuristic_c_helper a row row_interactions problems =
     (let problems1 = fold (c_helper_count a) (sorted_list_of_set row_interactions) problems
      in case fold_err (\<lambda>col max_problems.
                 if row ! col < 0 \<or> int (level (factors a ! col)) \<le> row ! col then Inl bad_index
                 else if c_issues (Array.singles a !
                           (Factor.singles (factors a ! col) ! nat (row ! col))) = 0
                 then Inr max_problems
                 else Inr (if problems1 ! col > max_problems then problems1 ! col else max_problems))
               [0..<num_factors a] (- (2 ^ 31)) of
           Inl e \<Rightarrow> Inl e
         | Inr max_problems \<Rightarrow> Inr (max_problems, problems1))"

text \<open>Second loop of \<^verbatim>\<open>heuristic_c_only\<close>, the values of one column; the flag says that the
  method has returned.\<close>

definition c_only_try_value ::
  "Array \<Rightarrow> int \<Rightarrow> nat \<Rightarrow> nat \<Rightarrow> int list \<times> int list \<times> bool \<Rightarrow> error + int list \<times> int list \<times> bool" where
  "c_only_try_value a max_problems pc i = (\<lambda>(row, temp_problems, returned).
     if returned then Inr (row, temp_problems, returned)
     else
       let row1 = row[pc := (row ! pc + 1) smod int (level (factors a ! pc))] in
       case build_row_interactions a row1 0 (t a) [] {} of
         Inl e \<Rightarrow> Inl e
       | Inr new_interactions \<Rightarrow>
           (case heuristic_c_helper a row1 new_interactions temp_problems of
              Inl e \<Rightarrow> Inl e
            | Inr (cur_max, temp_problems1) \<Rightarrow> Inr (row1, temp_problems1, cur_max < max_problems)))"

definition c_only_try_column ::
  "Array \<Rightarrow> int \<Rightarrow> int list \<Rightarrow> nat \<Rightarrow> int list \<times> bool \<Rightarrow> error + int list \<times> bool" where
  "c_only_try_column a max_problems problems col = (\<lambda>(row, returned).
     if returned then Inr (row, returned)
     else
       case permutation a of
         None \<Rightarrow> Inl null_pointer
       | Some perm \<Rightarrow>
           let pc = nat (perm ! col) in
           if problems ! pc = max_problems then
             (case fold_err (c_only_try_value a max_problems pc) [1..<level (factors a ! pc)]
                     (row, replicate (num_factors a) 0, False) of
                Inl e \<Rightarrow> Inl e
              | Inr (row1, temp_problems, returned1) \<Rightarrow>
                  if returned1 then Inr (row1, True)
                  else if level (factors a ! col) = 0 then Inl division_by_zero
                  else Inr (row1[pc := (row1 ! pc + 1) smod int (level (factors a ! col))], False))
           else Inr (row, False))"

text \<open>Last loop of \<^verbatim>\<open>heuristic_c_only\<close>; the flag says that the loop over the values was left
  with \<^verbatim>\<open>break\<close>.\<close>

definition c_only_expose :: "Array \<Rightarrow> nat \<Rightarrow> prop_mode list \<times> bool \<Rightarrow> prop_mode list \<times> bool" where
  "c_only_expose a i = (\<lambda>(dont_cares_c, improved).
     if card (Interaction.rows (Array.interactions a ! i)) = 0 then
       (fold (\<lambda>s dc. dc[factor (Array.singles a ! s) := c_only])
          (Interaction.singles (Array.interactions a ! i)) dont_cares_c, True)
     else (dont_cares_c, improved))"

definition c_only_sweep_value ::
  "Array \<Rightarrow> nat \<Rightarrow> nat \<Rightarrow> int list \<times> prop_mode list \<times> bool \<Rightarrow> error + int list \<times> prop_mode list \<times> bool" where
  "c_only_sweep_value a pc i = (\<lambda>(row, dont_cares_c, improved).
     if improved then Inr (row, dont_cares_c, improved)
     else
       let row1 = row[pc := (row ! pc + 1) smod int (level (factors a ! pc))] in
       case build_row_interactions a row1 0 (t a) [] {} of
         Inl e \<Rightarrow> Inl e
       | Inr new_interactions \<Rightarrow>
           (let (dont_cares_c1, improved1) =
                  fold (c_only_expose a) (sorted_list_of_set new_interactions) (dont_cares_c, False)
            in Inr (row1, dont_cares_c1, improved1)))"

definition c_only_sweep_column ::
  "Array \<Rightarrow> nat \<Rightarrow> int list \<times> prop_mode list \<times> rng \<Rightarrow> error + int list \<times> prop_mode list \<times> rng" where
  "c_only_sweep_column a col = (\<lambda>(row, dont_cares_c, r).
     case permutation a of
       None \<Rightarrow> Inl null_pointer
     | Some perm \<Rightarrow>
         let pc = nat (perm ! col) in
         if dont_cares_c ! pc \<noteq> none then Inr (row, dont_cares_c, r)
         else
           (case fold_err (c_only_sweep_value a pc) [0..<level (factors a ! pc)]
                   (row, dont_cares_c, False) of
              Inl e \<Rightarrow> Inl e
            | Inr (row1, dont_cares_c1, improved) \<Rightarrow>
                if improved then Inr (row1, dont_cares_c1, r)
                else
                  (let (x, r') = rand r in
                   if level (factors a ! pc) = 0 then Inl division_by_zero
                   else Inr (row1[pc := int (x mod level (factors a ! pc))], dont_cares_c1, r'))))"

definition heuristic_c_only :: "int list \<Rightarrow> Array \<times> rng \<Rightarrow> error + int list \<times> Array \<times> rng" where
  "heuristic_c_only row = (\<lambda>(a, r).
     if num_factors a \<noteq> 0 \<and> dont_cares a = None then Inl null_pointer
     else
       let dont_cares_c = (case dont_cares a of
                             None \<Rightarrow> []
                           | Some dc \<Rightarrow> map (\<lambda>col. dc ! col) [0..<num_factors a])
       in case build_row_interactions a row 0 (t a) [] {} of
            Inl e \<Rightarrow> Inl e
          | Inr row_interactions \<Rightarrow>
              (let problems = fold (c_only_count a dont_cares_c) (sorted_list_of_set row_interactions)
                                (replicate (num_factors a) 0);
                   max_problems = fold (\<lambda>col m. if problems ! col > m then problems ! col else m)
                                    [0..<num_factors a] 0
               in if max_problems = 0 then Inr (row, a, r)
                  else
                    (case fold_err (c_only_try_column a max_problems problems) [0..<num_factors a]
                            (row, False) of
                       Inl e \<Rightarrow> Inl e
                     | Inr (row1, returned) \<Rightarrow>
                         if returned then Inr (row1, a, r)
                         else
                           (case fold_err (c_only_sweep_column a) [0..<num_factors a]
                                   (row1, dont_cares_c, r) of
                              Inl e \<Rightarrow> Inl e
                            | Inr (row2, dont_cares_c2, r') \<Rightarrow> Inr (row2, a, r')))))"

subsection \<open>heuristic_l_only\<close>

text \<open>The map \<^verbatim>\<open>scores\<close> counts list elements that exist in memory; the counts are natural
  numbers.\<close>

definition init_scores :: "Array \<Rightarrow> (skey \<rightharpoonup> nat)" where
  "init_scores a =
     fold (\<lambda>col. fold (\<lambda>val m. map_insert m (col, int val) 0) [0..<level (factors a ! col)])
       [0..<num_factors a] Map.empty"

definition count_conflict :: "Array \<Rightarrow> nat \<Rightarrow> (skey \<rightharpoonup> nat) \<Rightarrow> error + (skey \<rightharpoonup> nat)" where
  "count_conflict a conflict scores =
     fold_err (\<lambda>s m. case m (Single_to_string (Array.singles a ! s)) of
                       None \<Rightarrow> Inl out_of_range
                     | Some n \<Rightarrow> Inr (m(Single_to_string (Array.singles a ! s) \<mapsto> n + 1)))
       (T.singles (Array.sets a ! conflict)) scores"

definition best_val_step :: "(skey \<rightharpoonup> nat) \<Rightarrow> nat \<Rightarrow> nat \<Rightarrow> nat \<times> nat \<Rightarrow> error + nat \<times> nat" where
  "best_val_step scores col val = (\<lambda>(best_val, best_val_score).
     case scores (col, int val) of
       None \<Rightarrow> Inl out_of_range
     | Some val_score \<Rightarrow>
         Inr (if val_score > best_val_score then (val, val_score) else (best_val, best_val_score)))"

definition l_only_column ::
  "Array \<Rightarrow> bool list \<Rightarrow> (skey \<rightharpoonup> nat) \<Rightarrow> nat \<Rightarrow> int list \<Rightarrow> error + int list" where
  "l_only_column a locked_factors scores col row =
     (if locked_factors ! col then Inr row
      else
        case fold_err (best_val_step scores col) [0..<level (factors a ! col)] (0, 0) of
          Inl e \<Rightarrow> Inl e
        | Inr (best_val, best_val_score) \<Rightarrow>
            Inr (if best_val_score \<noteq> 0 then row[col := int best_val] else row))"

definition heuristic_l_only :: "int list \<Rightarrow> nat \<Rightarrow> Array \<times> rng \<Rightarrow> error + int list \<times> Array \<times> rng" where
  "heuristic_l_only row locked = (\<lambda>(a, r).
     let locked_factors = fold (\<lambda>s lf. lf[factor (Array.singles a ! s) := True])
                            (T.singles (Array.sets a ! locked)) (replicate (num_factors a) False)
     in case fold_err (count_conflict a)
               (sorted_list_of_set (location_conflicts (Array.sets a ! locked))) (init_scores a) of
          Inl e \<Rightarrow> Inl e
        | Inr scores \<Rightarrow>
            (case fold_err (l_only_column a locked_factors scores) [0..<num_factors a] row of
               Inl e \<Rightarrow> Inl e
             | Inr row1 \<Rightarrow> Inr (row1, a, r)))"

subsection \<open>heuristic_all\<close>

text \<open>\<^verbatim>\<open>heuristic_all_scorer\<close>: the sum is computed in 64 bits.\<close>

definition row_score_step :: "Array \<Rightarrow> Array \<Rightarrow> nat \<Rightarrow> u64 \<Rightarrow> error + u64" where
  "row_score_step a copy s row_score =
     (let this_s = Array.singles a ! s in
      case single_map copy (Single_to_string this_s) of
        None \<Rightarrow> Inl out_of_range
      | Some cs \<Rightarrow>
          let copy_s = Array.singles copy ! cs;
              weight = (of_nat (level (factors a ! factor this_s)) :: u64)
          in Inr (row_score + weight * (c_issues this_s - c_issues copy_s)
                    + 2 * weight * (l_issues this_s - l_issues copy_s)
                    + 3 * weight * (d_issues this_s - d_issues copy_s)))"

text \<open>\<^verbatim>\<open>Array::~Array()\<close>, as far as it can fail: \<^verbatim>\<open>for (i < num_tests) delete[] rows[i]\<close> reads
  past the end of \<^verbatim>\<open>rows\<close> when \<^verbatim>\<open>num_tests\<close> exceeds the number of rows the Array holds. (There the
  vector still has the pointer that \<^verbatim>\<open>rows.pop_back()\<close> just removed, the candidate row, which
  \<^verbatim>\<open>heuristic_all\<close> frees again.)\<close>

definition Array_dtor :: "Array \<Rightarrow> error + unit" where
  "Array_dtor a = (if length (Array.rows a) < unat (num_tests a) then Inl bad_index else Inr ())"

text \<open>The row copies that \<^verbatim>\<open>heuristic_all_helper\<close> allocates are the keys of
  \<^verbatim>\<open>std::map<int*, int64_t> scores\<close>, which is walked in the order of the addresses. The addresses
  are the allocator's choice: it is the stream of the addresses it will return. An entry of the
  map is the address, the row stored there and its score; \<^verbatim>\<open>insert\<close> keeps the entry of an address
  that is present.\<close>

type_synonym allocator = "nat \<Rightarrow> nat"

definition alloc_row :: "allocator \<Rightarrow> nat \<times> allocator" where
  "alloc_row al = (al 0, \<lambda>n. al (Suc n))"

fun scores_insert ::
  "nat \<Rightarrow> int list \<times> u64 \<Rightarrow> (nat \<times> int list \<times> u64) list \<Rightarrow> (nat \<times> int list \<times> u64) list" where
  "scores_insert k v [] = [(k, v)]"
| "scores_insert k v ((k', v') # m) =
     (if k = k' then (k', v') # m
      else if k < k' then (k, v) # (k', v') # m
      else (k', v') # scores_insert k v m)"

text \<open>\<^verbatim>\<open>heuristic_all_scorer\<close>, \<^verbatim>\<open>heuristic_all_helper\<close> and \<^verbatim>\<open>heuristic_all\<close> are methods of the
  Array like the others: functions of the Array they are called on (with the map of the scores
  and the allocator) that return the Array they leave. The clone is an object of its own, which
  \<^verbatim>\<open>copy->update_array(row, false)\<close> changes and \<^verbatim>\<open>delete copy\<close> destroys.\<close>

definition heuristic_all_scorer ::
  "int list \<Rightarrow> nat \<Rightarrow> Array \<times> (nat \<times> int list \<times> u64) list \<Rightarrow>
   error + Array \<times> (nat \<times> int list \<times> u64) list" where
  "heuristic_all_scorer row addr = (\<lambda>(a, scores).
     case clone a of
       Inl e \<Rightarrow> Inl e
     | Inr copy \<Rightarrow>
         (case commit_row row False copy of
            Inl e \<Rightarrow> Inl e
          | Inr copy1 \<Rightarrow>
              (case fold_err (row_score_step a copy1) [0..<length (Array.singles a)] 0 of
                 Inl e \<Rightarrow> Inl e
               | Inr row_score \<Rightarrow>
                   (case Array_dtor copy1 of
                      Inl e \<Rightarrow> Inl e
                    | Inr u \<Rightarrow> Inr (a, scores_insert addr (row, row_score) scores)))))"

text \<open>\<^verbatim>\<open>heuristic_all_helper\<close>; the first argument is \<^verbatim>\<open>num_factors - cur_col\<close>. The row is
  restored after every recursive call, and the base case copies it to a new address.\<close>

fun heuristic_all_helper ::
  "nat \<Rightarrow> int list \<Rightarrow> Array \<times> (nat \<times> int list \<times> u64) list \<times> allocator \<Rightarrow>
   error + Array \<times> (nat \<times> int list \<times> u64) list \<times> allocator" where
  "heuristic_all_helper 0 row (a, scores, al) =
     (let (addr, al1) = alloc_row al in
      case heuristic_all_scorer (map (\<lambda>col. row ! col) [0..<num_factors a]) addr (a, scores) of
        Inl e \<Rightarrow> Inl e
      | Inr (a1, scores1) \<Rightarrow> Inr (a1, scores1, al1))"
| "heuristic_all_helper (Suc k) row (a, scores, al) =
     (case permutation a of
        None \<Rightarrow> Inl null_pointer
      | Some perm \<Rightarrow>
          fold_err (\<lambda>offset (b, scores1, al1).
              case permutation b of
                None \<Rightarrow> Inl null_pointer
              | Some perm1 \<Rightarrow>
                  let pc = nat (perm1 ! (num_factors b - Suc k)) in
                  heuristic_all_helper k
                    (row[pc := (row ! pc + int offset) smod int (level (factors b ! pc))])
                    (b, scores1, al1))
            [0..<level (factors a ! nat (perm ! (num_factors a - Suc k)))] (a, scores, al))"

definition best_rows_step :: "int list \<times> u64 \<Rightarrow> u64 \<times> int list list \<Rightarrow> u64 \<times> int list list" where
  "best_rows_step = (\<lambda>(row, sc) (best_score, best_rows).
     if best_score \<le>s sc then
       (if best_score <s sc then (sc, [row]) else (best_score, best_rows @ [row]))
     else (best_score, best_rows))"

definition heuristic_all ::
  "allocator \<Rightarrow> int list \<Rightarrow> Array \<times> rng \<Rightarrow> error + int list \<times> Array \<times> rng" where
  "heuristic_all al row = (\<lambda>(a, r).
     case heuristic_all_helper (num_factors a) row (a, [], al) of
       Inl e \<Rightarrow> Inl e
     | Inr (a1, scores, al1) \<Rightarrow>
         (let (best_score, best_rows) = fold best_rows_step (map snd scores) (2 ^ 63, []);
              (x, r') = rand r
          in if best_rows = [] then Inl division_by_zero
             else Inr (map (\<lambda>col. (best_rows ! (x mod length best_rows)) ! col)
                         [0..<num_factors a1], a1, r')))"

subsection \<open>tweak_row and add_row\<close>

definition heuristic_d_only :: "int list \<Rightarrow> Array \<times> rng \<Rightarrow> error + int list \<times> Array \<times> rng" where
  "heuristic_d_only row = (\<lambda>(a, r). Inr (row, a, r))"

text \<open>\<open>al\<close> is the allocator for the row copies of \<^verbatim>\<open>heuristic_all\<close>.\<close>

definition tweak_row ::
  "allocator \<Rightarrow> int list \<Rightarrow> nat option \<Rightarrow> Array \<times> rng \<Rightarrow> error + int list \<times> Array \<times> rng" where
  "tweak_row al row locked = (\<lambda>(a, r).
     case heuristic_in_use a of
       c_only \<Rightarrow> heuristic_c_only row (a, r)
     | c_and_l \<Rightarrow> heuristic_c_only row (a, r)
     | c_and_d \<Rightarrow> heuristic_c_only row (a, r)
     | l_only \<Rightarrow> (case locked of None \<Rightarrow> Inl null_pointer | Some k \<Rightarrow> heuristic_l_only row k (a, r))
     | l_and_d \<Rightarrow> (case locked of None \<Rightarrow> Inl null_pointer | Some k \<Rightarrow> heuristic_l_only row k (a, r))
     | d_only \<Rightarrow> heuristic_d_only row (a, r)
     | all \<Rightarrow> heuristic_all al row (a, r)
     | none \<Rightarrow> Inr (row, a, r))"

definition initialize_row :: "Array \<times> rng \<Rightarrow> error + (int list \<times> nat option) \<times> Array \<times> rng" where
  "initialize_row = (\<lambda>(a, r).
     if heuristic_in_use a = c_only \<or> heuristic_in_use a = c_and_l \<or> heuristic_in_use a = c_and_d
     then (case initialize_row_S (a, r) of
             Inl e \<Rightarrow> Inl e
           | Inr (new_row, a1, r1) \<Rightarrow> Inr ((new_row, None), a1, r1))
     else if heuristic_in_use a = l_only \<or> heuristic_in_use a = l_and_d
     then (case initialize_row_T (a, r) of
             Inl e \<Rightarrow> Inl e
           | Inr ((new_row, locked), a1, r1) \<Rightarrow> Inr ((new_row, Some locked), a1, r1))
     else (case initialize_row_R (a, r) of
             Inl e \<Rightarrow> Inl e
           | Inr (new_row, a1, r1) \<Rightarrow> Inr ((new_row, None), a1, r1)))"

definition add_row :: "allocator \<Rightarrow> Array \<times> rng \<Rightarrow> error + Array \<times> rng" where
  "add_row al ar =
     (case shuffle_permutation ar of
        Inl e \<Rightarrow> Inl e
      | Inr ar1 \<Rightarrow>
          (case initialize_row ar1 of
             Inl e \<Rightarrow> Inl e
           | Inr ((new_row, locked), a2, r2) \<Rightarrow>
               (case tweak_row al new_row locked (a2, r2) of
                  Inl e \<Rightarrow> Inl e
                | Inr (row, a3, r3) \<Rightarrow>
                    (case commit_row row True a3 of
                       Inl e \<Rightarrow> Inl e
                     | Inr a4 \<Rightarrow> Inr (a4, r3)))))"

text \<open>\<^verbatim>\<open>add_random_row\<close> (array.cpp); \<^verbatim>\<open>get_random_row\<close> is \<^verbatim>\<open>initialize_row_R\<close> under its
  older name.\<close>

definition add_random_row :: "Array \<times> rng \<Rightarrow> error + Array \<times> rng" where
  "add_random_row ar =
     (case initialize_row_R ar of
        Inl e \<Rightarrow> Inl e
      | Inr (new_row, a1, r1) \<Rightarrow>
          (case commit_row new_row True a1 of
             Inl e \<Rightarrow> Inl e
           | Inr a2 \<Rightarrow> Inr (a2, r1)))"

section \<open>Notions used by the statements\<close>

definition singles_sum :: "Array \<Rightarrow> u64" where
  "singles_sum a = (\<Sum>s\<leftarrow>Array.singles a. c_issues s + l_issues s + d_issues s)"

definition score_identity :: "Array \<Rightarrow> bool" where
  "score_identity a \<longleftrightarrow>
     score a = coverage_problems a + location_problems a + detection_problems a + singles_sum a"

definition c_sum :: "Array \<Rightarrow> u64" where
  "c_sum a = (\<Sum>s\<leftarrow>Array.singles a. c_issues s)"

text \<open>Every \<^verbatim>\<open>factors[col]->singles[lvl]\<close> points to a Single of the Array.\<close>

definition valid_factors :: "Array \<Rightarrow> bool" where
  "valid_factors a \<longleftrightarrow>
     (\<forall>col\<in>set [0..<num_factors a]. \<forall>lvl\<in>set [0..<level (factors a ! col)].
        Factor.singles (factors a ! col) ! lvl < length (Array.singles a))"

text \<open>The lists of Singles that \<^verbatim>\<open>build_t_way_interactions(start, t_cur, ...)\<close> appends to
  \<^verbatim>\<open>singles_so_far\<close>, in the order of the enumeration.\<close>

fun combos :: "Array \<Rightarrow> nat \<Rightarrow> nat \<Rightarrow> nat list list" where
  "combos a start 0 = [[]]"
| "combos a start (Suc t_cur) =
     concat (map (\<lambda>col. concat (map (\<lambda>lvl.
                 map ((#) (Factor.singles (factors a ! col) ! lvl)) (combos a (col + 1) t_cur))
               [0..<level (factors a ! col)]))
       [start..<num_factors a + 1 - Suc t_cur])"

definition same_factors :: "Array \<Rightarrow> Array \<Rightarrow> bool" where
  "same_factors a b \<longleftrightarrow> factors b = factors a \<and> num_factors b = num_factors a"

text \<open>The body of the loop in the base case of \<^verbatim>\<open>build_t_way_interactions\<close>.\<close>

definition count_step :: "nat \<Rightarrow> Array \<Rightarrow> Array" where
  "count_step s b = (upd_single s (c_issues_update (\<lambda>c. c + 1)) b)
                        \<lparr>total_problems := total_problems b + 1, score := score b + 1\<rparr>"

text \<open>From \<open>a\<close> to \<open>b\<close> some \<open>m\<close> Interactions were added, and \<open>score\<close>, \<open>total_problems\<close> and
  the sum of all \<open>c_issues\<close> each grew by \<open>K\<close> per Interaction.\<close>

definition grown :: "nat \<Rightarrow> Array \<Rightarrow> Array \<Rightarrow> bool" where
  "grown K a b \<longleftrightarrow>
     length (Array.singles b) = length (Array.singles a) \<and>
     length (Array.interactions b) \<ge> length (Array.interactions a) \<and>
     (let m = length (Array.interactions b) - length (Array.interactions a) in
        score b = score a + of_nat (K * m) \<and>
        total_problems b = total_problems a + of_nat (K * m) \<and>
        c_sum b = c_sum a + of_nat (K * m))"

text \<open>How often the Single with fingerprint \<open>ky\<close> occurs in the lists of Singles of the T sets
  that conflict with \<open>locked\<close>.\<close>

definition conflict_count :: "Array \<Rightarrow> nat \<Rightarrow> skey \<Rightarrow> nat" where
  "conflict_count a locked ky =
     (\<Sum>k\<leftarrow>sorted_list_of_set (location_conflicts (Array.sets a ! locked)).
        length (filter (\<lambda>s. Single_to_string (Array.singles a ! s) = ky) (T.singles (Array.sets a ! k))))"

definition nullp :: "nat \<Rightarrow> Array \<Rightarrow> bool" where
  "nullp n a \<longleftrightarrow> dont_cares a = None \<and> permutation a = None \<and> num_factors a = n"

subsection \<open>What a call reads, what it writes\<close>

text \<open>The structure that \<^verbatim>\<open>update_array\<close> only reads, the row membership it writes and rolls
  back, and the counters and flags it writes and keeps.\<close>

definition st_view where
  "st_view a = (map Interaction.singles (Array.interactions a), map Interaction.sets (Array.interactions a),
     map T.interactions (Array.sets a), map T.singles (Array.sets a),
     map factor (Array.singles a), map svalue (Array.singles a),
     (factors a, num_factors a, p a, t a, d a, delta a, total_problems a),
     (single_map a, interaction_map a, t_set_map a, dont_cares a, permutation a, heuristic_in_use a))"

definition rows_view where
  "rows_view a = (map Single.rows (Array.singles a), map Interaction.rows (Array.interactions a),
     map T.rows (Array.sets a), Array.rows a, num_tests a)"

definition cnt_view where
  "cnt_view a = (map (\<lambda>s. (c_issues s, l_issues s, d_issues s)) (Array.singles a),
     map (\<lambda>i. (is_covered i, is_detectable i, deltas i)) (Array.interactions a),
     map (\<lambda>x. (location_conflicts x, is_locatable x)) (Array.sets a),
     (score a, coverage_problems a, location_problems a, detection_problems a),
     (is_covering a, is_locating a, is_detecting a))"

definition mid_view where "mid_view a = (st_view a, rows_view a)"

text \<open>\<open>marked g SS II TT a a'\<close>: from \<open>a\<close> to \<open>a'\<close> the rows sets of the Singles \<open>SS\<close>, of the
  Interactions \<open>II\<close> and of the sets \<open>TT\<close> went through \<open>g\<close>, and nothing else changed.\<close>

definition marked :: "(int set \<Rightarrow> int set) \<Rightarrow> nat set \<Rightarrow> nat set \<Rightarrow> nat set \<Rightarrow> Array \<Rightarrow> Array \<Rightarrow> bool" where
  "marked g SS II TT a a' \<longleftrightarrow>
     st_view a' = st_view a \<and> cnt_view a' = cnt_view a \<and>
     Array.rows a' = Array.rows a \<and> num_tests a' = num_tests a \<and>
     map Single.rows (Array.singles a') =
       map (\<lambda>s. if s \<in> SS then g (Single.rows (Array.singles a ! s)) else Single.rows (Array.singles a ! s))
         [0..<length (Array.singles a)] \<and>
     map Interaction.rows (Array.interactions a') =
       map (\<lambda>i. if i \<in> II then g (Interaction.rows (Array.interactions a ! i))
                else Interaction.rows (Array.interactions a ! i))
         [0..<length (Array.interactions a)] \<and>
     map T.rows (Array.sets a') =
       map (\<lambda>k. if k \<in> TT then g (T.rows (Array.sets a ! k)) else T.rows (Array.sets a ! k))
         [0..<length (Array.sets a)]"

text \<open>Every row id stored in some rows set; the Array after \<^verbatim>\<open>rows.push_back(row); num_tests++\<close>.\<close>

definition row_ids :: "Array \<Rightarrow> int set" where
  "row_ids a = (\<Union>s\<in>set (Array.singles a). Single.rows s) \<union>
               (\<Union>i\<in>set (Array.interactions a). Interaction.rows i) \<union>
               (\<Union>x\<in>set (Array.sets a). T.rows x)"

definition pushed :: "int list \<Rightarrow> Array \<Rightarrow> Array" where
  "pushed row a = a\<lparr>Array.rows := Array.rows a @ [row], num_tests := num_tests a + 1\<rparr>"

text \<open>\<open>flags_le X a b\<close>: every flag set in \<open>a\<close> is set in \<open>b\<close>, the \<^verbatim>\<open>is_detectable\<close> of the
  Interactions in \<open>X\<close> apart.\<close>

definition flag_view where
  "flag_view a = (map is_covered (Array.interactions a), map is_detectable (Array.interactions a),
     map is_locatable (Array.sets a), is_covering a, is_locating a, is_detecting a)"

definition flags_le :: "nat set \<Rightarrow> Array \<Rightarrow> Array \<Rightarrow> bool" where
  "flags_le X a b \<longleftrightarrow>
     length (Array.interactions b) = length (Array.interactions a) \<and>
     length (Array.sets b) = length (Array.sets a) \<and>
     (is_covering a \<longrightarrow> is_covering b) \<and> (is_locating a \<longrightarrow> is_locating b) \<and>
     (is_detecting a \<longrightarrow> is_detecting b) \<and>
     (\<forall>i<length (Array.interactions a).
        (is_covered (Array.interactions a ! i) \<longrightarrow> is_covered (Array.interactions b ! i)) \<and>
        (i \<notin> X \<longrightarrow> is_detectable (Array.interactions a ! i) \<longrightarrow>
           is_detectable (Array.interactions b ! i))) \<and>
     (\<forall>k<length (Array.sets a). is_locatable (Array.sets a ! k) \<longrightarrow> is_locatable (Array.sets b ! k))"

text \<open>A sequence of calls of \<^verbatim>\<open>update_array\<close>, each with its row, its Interactions and its
  \<^verbatim>\<open>keep\<close>; the first error ends it.\<close>

definition update_arrays :: "(int list \<times> nat set \<times> bool) list \<Rightarrow> Array \<Rightarrow> error + Array" where
  "update_arrays calls a =
     fold_err (\<lambda>(row, row_interactions, keep). update_array row row_interactions keep) calls a"

subsection \<open>What a clone holds\<close>



definition key_view where
  "key_view b = (map Single_to_string (Array.singles b), single_map b,
     map Interaction.singles (Array.interactions b), interaction_map b)"




definition gl_view where
  "gl_view b = (score b, is_covering b, is_locating b, is_detecting b, coverage_problems b,
     location_problems b, detection_problems b, num_tests b)"


text \<open>The Array with other \<^verbatim>\<open>dont_cares\<close> and \<^verbatim>\<open>permutation\<close>, and a result with them.\<close>

definition with_buffers :: "prop_mode list option \<Rightarrow> int list option \<Rightarrow> Array \<Rightarrow> Array" where
  "with_buffers dc pm a = a\<lparr>dont_cares := dc, permutation := pm\<rparr>"

definition lift_buffers ::
  "prop_mode list option \<Rightarrow> int list option \<Rightarrow> error + Array \<Rightarrow> error + Array" where
  "lift_buffers dc pm x = (case x of Inl e \<Rightarrow> Inl e | Inr b \<Rightarrow> Inr (with_buffers dc pm b))"


subsection \<open>The structure that the constructor builds\<close>

text \<open>The Singles and the Factors point to each other, and a Factor has as many Singles as
  levels.\<close>

definition singles_ok :: "Array \<Rightarrow> bool" where
  "singles_ok a \<longleftrightarrow>
     (\<forall>c<length (factors a). \<forall>v<length (Factor.singles (factors a ! c)).
        Factor.singles (factors a ! c) ! v < length (Array.singles a) \<and>
        factor (Array.singles a ! (Factor.singles (factors a ! c) ! v)) = c \<and>
        svalue (Array.singles a ! (Factor.singles (factors a ! c) ! v)) = v) \<and>
     (\<forall>s<length (Array.singles a).
        factor (Array.singles a ! s) < length (factors a) \<and>
        svalue (Array.singles a ! s) < length (Factor.singles (factors a ! factor (Array.singles a ! s))) \<and>
        Factor.singles (factors a ! factor (Array.singles a ! s)) ! svalue (Array.singles a ! s) = s)"

definition levels_ok :: "Array \<Rightarrow> bool" where
  "levels_ok a \<longleftrightarrow> (\<forall>c<length (factors a). level (factors a ! c) = length (Factor.singles (factors a ! c)))"

text \<open>The lists of columns that \<^verbatim>\<open>build_row_interactions(row, ..., start, t_cur, key)\<close> goes
  through, in its order, and the lookup it makes for one of them.\<close>

fun col_combos :: "nat \<Rightarrow> nat \<Rightarrow> nat \<Rightarrow> nat list list" where
  "col_combos n start 0 = [[]]"
| "col_combos n start (Suc tc) =
     concat (map (\<lambda>col. map ((#) col) (col_combos n (col + 1) tc)) [start..<n + 1 - Suc tc])"

definition lookup_step :: "Array \<Rightarrow> int list \<Rightarrow> key \<Rightarrow> nat list \<Rightarrow> nat set \<Rightarrow> error + nat set" where
  "lookup_step a row ky cols R =
     (case interaction_map a (ky @ map (\<lambda>c. (c, row ! c)) cols) of
        None \<Rightarrow> Inl out_of_range
      | Some i \<Rightarrow> Inr (insert i R))"

text \<open>The fingerprint of a list of Singles; the Factors as \<^verbatim>\<open>build_factors\<close> leaves them; what
  \<^verbatim>\<open>build_t_way_interactions\<close> leaves unchanged; an Interaction no row has touched; the Array
  after the Interactions of the lists \<open>css\<close> were added to \<open>a\<close>.\<close>

definition key_of :: "Array \<Rightarrow> nat list \<Rightarrow> key" where
  "key_of a cs = map (\<lambda>s. Single_to_string (Array.singles a ! s)) cs"

definition factors_ok :: "Array \<Rightarrow> bool" where
  "factors_ok a \<longleftrightarrow> singles_ok a \<and> levels_ok a \<and> length (factors a) = num_factors a"

definition base_view where
  "base_view a = (map factor (Array.singles a), map svalue (Array.singles a),
     map Single.rows (Array.singles a), factors a, num_factors a,
     (t a, d a, delta a, p a, num_tests a, Array.rows a), Array.sets a)"

definition fresh_interaction :: "Interaction \<Rightarrow> bool" where
  "fresh_interaction i \<longleftrightarrow> Interaction.rows i = {} \<and> \<not> is_covered i \<and> \<not> is_detectable i \<and>
     Interaction.sets i = {} \<and> deltas i = []"

definition enumerated :: "Array \<Rightarrow> nat list list \<Rightarrow> Array \<Rightarrow> bool" where
  "enumerated a css b \<longleftrightarrow>
     base_view b = base_view a \<and>
     map Interaction.singles (Array.interactions b) = css \<and>
     (\<forall>i\<in>set (Array.interactions b). fresh_interaction i) \<and>
     (\<forall>i<length css. interaction_map b (key_of a (css ! i)) = Some i) \<and>
     (\<forall>ky i. interaction_map b ky = Some i \<longrightarrow> i < length css \<and> key_of a (css ! i) = ky)"

text \<open>The Interactions hold \<open>t\<close> Singles of the Array in strictly ascending factors; the map of
  the Interactions leads from the fingerprint of each to it, and to nothing else; an Interaction
  knows the sets it is a member of, and the members of a set are Interactions of the Array. An
  Array with all of this is well formed.\<close>

definition inter_ok :: "Array \<Rightarrow> bool" where
  "inter_ok a \<longleftrightarrow>
     (\<forall>i<length (Array.interactions a).
        length (Interaction.singles (Array.interactions a ! i)) = t a \<and>
        set (Interaction.singles (Array.interactions a ! i)) \<subseteq> {..<length (Array.singles a)} \<and>
        sorted_wrt (<) (map (\<lambda>s. factor (Array.singles a ! s)) (Interaction.singles (Array.interactions a ! i))))"

definition imap_ok :: "Array \<Rightarrow> bool" where
  "imap_ok a \<longleftrightarrow>
     (\<forall>i<length (Array.interactions a).
        interaction_map a (key_of a (Interaction.singles (Array.interactions a ! i))) = Some i) \<and>
     (\<forall>ky i. interaction_map a ky = Some i \<longrightarrow>
        i < length (Array.interactions a) \<and> key_of a (Interaction.singles (Array.interactions a ! i)) = ky)"

definition sets_ok :: "Array \<Rightarrow> bool" where
  "sets_ok a \<longleftrightarrow>
     (\<forall>i<length (Array.interactions a).
        Interaction.sets (Array.interactions a ! i) =
          {k. k < length (Array.sets a) \<and> i \<in> set (T.interactions (Array.sets a ! k))}) \<and>
     (\<forall>k<length (Array.sets a). set (T.interactions (Array.sets a ! k)) \<subseteq> {..<length (Array.interactions a)})"

definition well_formed :: "Array \<Rightarrow> bool" where
  "well_formed a \<longleftrightarrow> singles_ok a \<and> length (factors a) = num_factors a \<and> 1 \<le> t a \<and> t a \<le> num_factors a \<and>
     inter_ok a \<and> imap_ok a \<and> sets_ok a"

definition view_f where
  "view_f a = (Array.interactions a, interaction_map a, Array.sets a, (t a, d a, delta a, p a),
     num_tests a, Array.rows a, num_factors a)"

text \<open>A set no row has touched, and what the later steps of the constructor leave unchanged; an
  Array that holds no row.\<close>

definition fresh_T :: "T \<Rightarrow> bool" where
  "fresh_T x \<longleftrightarrow> T.rows x = {} \<and> location_conflicts x = {} \<and> \<not> is_locatable x"

definition view_s where
  "view_s a = (Array.singles a, factors a, num_factors a, (t a, d a, delta a, p a), num_tests a,
     Array.rows a, interaction_map a, map Interaction.singles (Array.interactions a),
     map Interaction.rows (Array.interactions a),
     map (\<lambda>i. (is_covered i, is_detectable i, deltas i)) (Array.interactions a),
     (is_covering a, is_locating a, is_detecting a))"

definition view_c where
  "view_c a = (map factor (Array.singles a), map svalue (Array.singles a),
     map Single.rows (Array.singles a), factors a, num_factors a, (t a, d a, delta a, p a),
     num_tests a, Array.rows a, interaction_map a, Array.sets a,
     map (\<lambda>i. (Interaction.singles i, Interaction.rows i, is_covered i, is_detectable i, Interaction.sets i))
       (Array.interactions a),
     (is_covering a, is_locating a, is_detecting a))"

definition unused :: "Array \<Rightarrow> bool" where
  "unused a \<longleftrightarrow>
     (\<forall>s<length (Array.singles a). Single.rows (Array.singles a ! s) = {}) \<and>
     (\<forall>i<length (Array.interactions a).
        Interaction.rows (Array.interactions a ! i) = {} \<and> \<not> is_covered (Array.interactions a ! i) \<and>
        \<not> is_detectable (Array.interactions a ! i)) \<and>
     (\<forall>x\<in>set (Array.sets a). fresh_T x) \<and> Array.rows a = []"

text \<open>The deltas that \<^verbatim>\<open>init_detection\<close> gives to an Interaction that is in the sets \<open>S\<close>, the
  two inner loops of \<^verbatim>\<open>init_detection\<close>, and the Array whose deltas are these.\<close>

definition zero_deltas :: "nat set \<Rightarrow> nat \<Rightarrow> (nat \<times> u64) list" where
  "zero_deltas S m = map (\<lambda>k. (k, 0)) (filter (\<lambda>k. k \<notin> S) [0..<m])"

definition bump_d :: "nat \<Rightarrow> Array \<Rightarrow> Array" where
  "bump_d s c = (upd_single s (d_issues_update (\<lambda>x. x + delta c)) c)
                  \<lparr>total_problems := total_problems c + delta c, score := score c + delta c\<rparr>"

definition det_body :: "nat \<Rightarrow> nat \<Rightarrow> Array \<Rightarrow> Array" where
  "det_body i k b =
     (if k \<notin> Interaction.sets (Array.interactions b ! i)
      then fold bump_d (Interaction.singles (Array.interactions b ! i))
             (upd_interaction i (deltas_update (al_insert k 0)) b)
      else b)"

definition deltas_zero :: "Array \<Rightarrow> bool" where
  "deltas_zero a \<longleftrightarrow>
     (\<forall>i<length (Array.interactions a).
        deltas (Array.interactions a ! i) =
          zero_deltas (Interaction.sets (Array.interactions a ! i)) (length (Array.sets a)))"

subsection \<open>Rows and row sets\<close>

text \<open>The row has the values of all Singles of the Interaction; the fingerprint that the row
  gives to a list of columns; the ids of the rows that hold \<open>v\<close> in column \<open>f\<close>, when the first
  row got the id \<open>N0 + 1\<close>; the row sets of an Array whose \<^verbatim>\<open>num_tests\<close> was \<open>N0\<close> before its
  first row.\<close>

definition matches :: "Array \<Rightarrow> int list \<Rightarrow> nat \<Rightarrow> bool" where
  "matches a row i \<longleftrightarrow>
     (\<forall>s\<in>set (Interaction.singles (Array.interactions a ! i)).
        row ! factor (Array.singles a ! s) = int (svalue (Array.singles a ! s)))"

definition row_key :: "int list \<Rightarrow> nat list \<Rightarrow> key" where
  "row_key row cols = map (\<lambda>c. (c, row ! c)) cols"

definition row_ids_with :: "nat \<Rightarrow> int list list \<Rightarrow> nat \<Rightarrow> int \<Rightarrow> int set" where
  "row_ids_with N0 rws f v = {int (N0 + k + 1) |k. k < length rws \<and> rws ! k ! f = v}"

definition rows_ok :: "nat \<Rightarrow> Array \<Rightarrow> bool" where
  "rows_ok N0 a \<longleftrightarrow>
     num_tests a = of_nat (N0 + length (Array.rows a)) \<and>
     (\<forall>s<length (Array.singles a).
        Single.rows (Array.singles a ! s) =
          row_ids_with N0 (Array.rows a) (factor (Array.singles a ! s)) (int (svalue (Array.singles a ! s)))) \<and>
     (\<forall>i<length (Array.interactions a).
        Interaction.rows (Array.interactions a ! i) =
          (\<Inter>s\<in>set (Interaction.singles (Array.interactions a ! i)). Single.rows (Array.singles a ! s))) \<and>
     (\<forall>k<length (Array.sets a).
        T.rows (Array.sets a ! k) =
          (\<Union>i\<in>set (T.interactions (Array.sets a ! k)). Interaction.rows (Array.interactions a ! i)))"

text \<open>A sequence of calls of \<^verbatim>\<open>add_row\<close> (True) and \<^verbatim>\<open>add_random_row\<close> (False); the first error
  ends it.\<close>

definition run :: "allocator \<Rightarrow> bool list \<Rightarrow> Array \<times> rng \<Rightarrow> error + Array \<times> rng" where
  "run al calls ar = fold_err (\<lambda>h. if h then add_row al else add_random_row) calls ar"

subsection \<open>Inputs of the examples\<close>

text \<open>Two factors with two levels each, strength 2, sets of one Interaction.\<close>

definition parser_22 :: "prop_mode \<Rightarrow> Parser" where
  "parser_22 m = \<lparr>in_d = 1, in_t = 2, in_delta = 0, in_num_rows = 0, in_num_cols = 2,
                  in_levels = [2, 2], in_p = m\<rparr>"

definition array_22 :: "prop_mode \<Rightarrow> Array" where
  "array_22 m = (case Array_ctor (parser_22 m) of Inl e \<Rightarrow> Array_default | Inr a \<Rightarrow> a)"

text \<open>The same Array after the row \<open>[0, 1]\<close>.\<close>

definition array_22_row :: "prop_mode \<Rightarrow> Array" where
  "array_22_row m =
     (case commit_row [0, 1] True (array_22 m) of Inl e \<Rightarrow> Array_default | Inr a \<Rightarrow> a)"

text \<open>The two factors and four Singles of these Arrays, before any Interaction exists.\<close>

definition factors_22 :: Array where
  "factors_22 = build_factors [2, 2] (Array_default\<lparr>t := 2, num_factors := 2\<rparr>)"

text \<open>Two factors with two levels each, strength 1, sets of two Interactions, phase
  coverage+location, after the rows \<open>[0, 0]\<close> and \<open>[1, 1]\<close>; and a generator that returns
  1, 1, 0, 0, ...\<close>

definition parser_l2 :: Parser where
  "parser_l2 = \<lparr>in_d = 2, in_t = 1, in_delta = 0, in_num_rows = 0, in_num_cols = 2,
                in_levels = [2, 2], in_p = c_and_l\<rparr>"

definition array_l2 :: Array where
  "array_l2 =
     (case Array_ctor parser_l2 of
        Inl e \<Rightarrow> Array_default
      | Inr a \<Rightarrow>
          (case commit_row [0, 0] True a of
             Inl e \<Rightarrow> Array_default
           | Inr b \<Rightarrow> (case commit_row [1, 1] True b of Inl e \<Rightarrow> Array_default | Inr c \<Rightarrow> c)))"

definition rng_110 :: rng where
  "rng_110 n = (if n < 2 then 1 else 0)"



section \<open>Loops keep what every step keeps\<close>

lemma fold_inv: "(\<And>x s. x \<in> set xs \<Longrightarrow> P s \<Longrightarrow> P (f x s)) \<Longrightarrow> P s \<Longrightarrow> P (fold f xs s)"
  by (induction xs arbitrary: s) auto

lemma fold_err_inv:
  "(\<And>x s s'. x \<in> set xs \<Longrightarrow> P s \<Longrightarrow> f x s = Inr s' \<Longrightarrow> P s') \<Longrightarrow> P s \<Longrightarrow>
   fold_err f xs s = Inr s' \<Longrightarrow> P s'"
proof (induction xs arbitrary: s)
  case Nil
  then show ?case by simp
next
  case (Cons x xs)
  then show ?case by (auto split: sum.splits)
qed

lemma fold_err_append:
  "fold_err f (xs @ ys) s = (case fold_err f xs s of Inl e \<Rightarrow> Inl e | Inr s' \<Rightarrow> fold_err f ys s')"
  by (induction xs arbitrary: s) (auto split: sum.splits)

lemma fold_concat: "fold f (concat xss) = fold (fold f) xss"
proof
  fix s show "fold f (concat xss) s = fold (fold f) xss s"
    by (induction xss arbitrary: s) auto
qed

lemma fold_map_comp: "fold f (map g xs) = fold (\<lambda>x. f (g x)) xs"
  by (simp add: fold_map comp_def)

lemma fold_cong_inv:
  "I s \<Longrightarrow> (\<And>x u. x \<in> set xs \<Longrightarrow> I u \<Longrightarrow> f x u = g x u \<and> I (g x u)) \<Longrightarrow>
   fold f xs s = fold g xs s \<and> I (fold g xs s)"
  by (induction xs arbitrary: s) auto

lemma sum_list_map_update:
  fixes f :: "'a \<Rightarrow> 'b::ab_group_add"
  shows "i < length xs \<Longrightarrow> sum_list (map f (xs[i := x])) = sum_list (map f xs) - f (xs ! i) + f x"
proof (induction xs arbitrary: i)
  case Nil
  then show ?case by simp
next
  case (Cons y ys)
  then show ?case by (cases i) (auto simp: algebra_simps)
qed

lemma nth_list_update_full:
  "(xs[i := x]) ! j = (if i = j \<and> i < length xs then x else xs ! j)"
  by (cases "i < length xs") (auto simp: nth_list_update list_update_beyond)

lemma count_list_distinct: "distinct xs \<Longrightarrow> count_list xs x = (if x \<in> set xs then 1 else 0)"
  by (induction xs) auto



section \<open>The enumeration of the Interactions\<close>

lemma same_factors_add_interaction: "same_factors a b \<Longrightarrow> same_factors a (add_interaction sf b)"
  unfolding add_interaction_def Let_def
  by (rule fold_inv[where P = "same_factors a"]) (auto simp: same_factors_def upd_single_def)

lemma combos_same: "same_factors a b \<Longrightarrow> combos b start tc = combos a start tc"
proof (induction a start tc rule: combos.induct)
  case (1 a start)
  then show ?case by simp
next
  case (2 a start tc)
  then show ?case
    by (auto simp: same_factors_def intro!: arg_cong[where f = concat] map_cong)
qed

lemma same_factors_fold_add: "same_factors a b \<Longrightarrow> same_factors a (fold add_interaction css b)"
  by (rule fold_inv[where P = "same_factors a"]) (auto intro: same_factors_add_interaction)

text \<open>The recursion adds one Interaction per list of \<open>combos\<close>, in that order.\<close>

lemma build_t_way_flat:
  "build_t_way_interactions start tc sf a =
     fold add_interaction (map ((@) sf) (combos a start tc)) a"
proof (induction start tc sf a rule: build_t_way_interactions.induct)
  case (1 start sf a)
  then show ?case by simp
next
  case (2 start tc sf a)
  let ?x = "\<lambda>col lvl. Factor.singles (factors a ! col) ! lvl"
  let ?inner = "\<lambda>col lvl. map ((@) sf) (map ((#) (?x col lvl)) (combos a (col + 1) tc))"
  have step: "build_t_way_interactions (col + 1) tc (sf @ [?x col lvl]) b =
              fold add_interaction (?inner col lvl) b \<and>
              same_factors a (fold add_interaction (?inner col lvl) b)"
    if "col \<in> set [start..<num_factors a + 1 - Suc tc]" "same_factors a b" for col lvl b
    using "2.IH"[OF that(1), of lvl b] that(2) combos_same[OF that(2)]
      same_factors_fold_add[OF that(2)]
    by (simp add: comp_def)
  have lv: "fold (\<lambda>lvl b. build_t_way_interactions (col + 1) tc (sf @ [?x col lvl]) b)
              [0..<level (factors a ! col)] b
          = fold (\<lambda>lvl. fold add_interaction (?inner col lvl)) [0..<level (factors a ! col)] b
          \<and> same_factors a
              (fold (\<lambda>lvl. fold add_interaction (?inner col lvl)) [0..<level (factors a ! col)] b)"
    if "col \<in> set [start..<num_factors a + 1 - Suc tc]" "same_factors a b" for col b
    by (rule fold_cong_inv[where I = "same_factors a"]) (use that step in auto)
  have "fold (\<lambda>col. fold (\<lambda>lvl b. build_t_way_interactions (col + 1) tc (sf @ [?x col lvl]) b)
                      [0..<level (factors a ! col)])
           [start..<num_factors a + 1 - Suc tc] a
      = fold (\<lambda>col. fold (\<lambda>lvl. fold add_interaction (?inner col lvl))
                      [0..<level (factors a ! col)])
           [start..<num_factors a + 1 - Suc tc] a
      \<and> same_factors a
           (fold (\<lambda>col. fold (\<lambda>lvl. fold add_interaction (?inner col lvl))
                          [0..<level (factors a ! col)])
              [start..<num_factors a + 1 - Suc tc] a)"
    by (rule fold_cong_inv[where I = "same_factors a"]) (use lv in \<open>auto simp: same_factors_def\<close>)
  then show ?case
    by (simp add: map_concat fold_concat fold_map_comp comp_def)
qed

lemma add_interaction_alt:
  "add_interaction sf a =
     fold count_step sf
       (a\<lparr>Array.interactions := Array.interactions a @ [new_Interaction a sf],
          interaction_map := map_insert (interaction_map a)
             (Interaction_to_string a (new_Interaction a sf)) (length (Array.interactions a))\<rparr>)"
  by (simp add: add_interaction_def Let_def count_step_def[abs_def] new_Interaction_def)

lemma count_steps:
  "score (fold count_step sf b) = score b + of_nat (length sf)"
  "total_problems (fold count_step sf b) = total_problems b + of_nat (length sf)"
  "length (Array.singles (fold count_step sf b)) = length (Array.singles b)"
  "Array.interactions (fold count_step sf b) = Array.interactions b"
  by (induction sf arbitrary: b) (auto simp: count_step_def upd_single_def)

lemma count_steps_c_sum:
  "set sf \<subseteq> {..<length (Array.singles b)} \<Longrightarrow>
   c_sum (fold count_step sf b) = c_sum b + of_nat (length sf)"
proof (induction sf arbitrary: b)
  case Nil
  then show ?case by simp
next
  case (Cons s sf)
  have "c_sum (count_step s b) = c_sum b + 1"
    using Cons.prems by (simp add: c_sum_def count_step_def upd_single_def sum_list_map_update)
  moreover have "set sf \<subseteq> {..<length (Array.singles (count_step s b))}"
    using Cons.prems by (simp add: count_step_def upd_single_def)
  ultimately show ?case using Cons.IH[of "count_step s b"] by simp
qed

lemma count_steps_c_issues:
  "s < length (Array.singles b) \<Longrightarrow>
   c_issues (Array.singles (fold count_step sf b) ! s) =
     c_issues (Array.singles b ! s) + of_nat (count_list sf s)"
proof (induction sf arbitrary: b)
  case Nil
  then show ?case by simp
next
  case (Cons x sf)
  have "s < length (Array.singles (count_step x b))"
    using Cons.prems by (simp add: count_step_def upd_single_def)
  from Cons.IH[OF this] Cons.prems show ?case
    by (auto simp: count_step_def upd_single_def nth_list_update)
qed

lemma combos_props:
  "valid_factors a \<Longrightarrow> cs \<in> set (combos a start tc) \<Longrightarrow>
   length cs = tc \<and> set cs \<subseteq> {..<length (Array.singles a)}"
proof (induction a start tc arbitrary: cs rule: combos.induct)
  case (1 a start)
  then show ?case by simp
next
  case (2 a start tc)
  from "2.prems"(2) obtain col lvl cs' where
    col: "col \<in> set [start..<num_factors a + 1 - Suc tc]" and lvl: "lvl < level (factors a ! col)"
    and cs': "cs' \<in> set (combos a (col + 1) tc)"
    and cs: "cs = Factor.singles (factors a ! col) ! lvl # cs'"
    by auto
  from "2.IH"[OF col _ "2.prems"(1) cs', of lvl] lvl
  have "length cs' = tc" "set cs' \<subseteq> {..<length (Array.singles a)}"
    by auto
  moreover from col lvl "2.prems"(1)
  have "Factor.singles (factors a ! col) ! lvl < length (Array.singles a)"
    by (auto simp: valid_factors_def)
  ultimately show ?case using cs by auto
qed

lemma grown_add_interaction:
  assumes "grown K a b" "length sf = K" "set sf \<subseteq> {..<length (Array.singles a)}"
  shows "grown K a (add_interaction sf b)"
proof -
  let ?b1 = "b\<lparr>Array.interactions := Array.interactions b @ [new_Interaction b sf],
          interaction_map := map_insert (interaction_map b)
             (Interaction_to_string b (new_Interaction b sf)) (length (Array.interactions b))\<rparr>"
  have cs: "c_sum ?b1 = c_sum b" by (simp add: c_sum_def)
  have "set sf \<subseteq> {..<length (Array.singles ?b1)}" using assms by (simp add: grown_def)
  from count_steps_c_sum[OF this] cs have "c_sum (add_interaction sf b) = c_sum b + of_nat K"
    by (simp add: add_interaction_alt assms(2))
  moreover have "Suc (length (Array.interactions b)) - length (Array.interactions a)
        = Suc (length (Array.interactions b) - length (Array.interactions a))"
    using assms(1) by (simp add: grown_def Suc_diff_le)
  ultimately show ?thesis using assms(1,2)
    by (simp add: grown_def add_interaction_alt count_steps Let_def algebra_simps)
qed

lemma grown_fold:
  assumes "\<forall>cs\<in>set css. length cs = K \<and> set cs \<subseteq> {..<length (Array.singles a)}"
  shows "grown K a (fold add_interaction css a)"
proof -
  have "grown K a a" by (simp add: grown_def)
  then show ?thesis
    by (rule fold_inv[where P = "grown K a", rotated])
       (use assms in \<open>auto intro: grown_add_interaction\<close>)
qed

lemma build_t_way_grown:
  assumes "valid_factors a" "set sf \<subseteq> {..<length (Array.singles a)}"
  shows "grown (length sf + tc) a (build_t_way_interactions start tc sf a)"
  unfolding build_t_way_flat
  by (rule grown_fold) (use assms combos_props[OF assms(1)] in auto)

section \<open>What a clone is built with\<close>

lemma nullp_upd [simp]:
  "nullp n (upd_single s f a) = nullp n a"
  "nullp n (upd_interaction i g a) = nullp n a"
  "nullp n (upd_T k h a) = nullp n a"
  by (simp_all add: nullp_def upd_single_def upd_interaction_def upd_T_def)







section \<open>The scores of heuristic_l_only\<close>

lemma count_singles_scores:
  "fold_err (\<lambda>s m. case m (Single_to_string (Array.singles a ! s)) of
                       None \<Rightarrow> Inl out_of_range
                     | Some n \<Rightarrow> Inr (m(Single_to_string (Array.singles a ! s) \<mapsto> n + 1))) ss m = Inr m'
   \<Longrightarrow> m' ky = map_option
         (\<lambda>n. n + length (filter (\<lambda>s. Single_to_string (Array.singles a ! s) = ky) ss)) (m ky)"
proof (induction ss arbitrary: m)
  case Nil
  then show ?case by (simp add: option.map_ident)
next
  case (Cons s ss)
  then show ?case
    by (auto split: option.splits simp: option.map_comp comp_def)
qed

lemma count_conflict_scores:
  "fold_err (count_conflict a) ks m = Inr m' \<Longrightarrow>
   m' ky = map_option
     (\<lambda>n. n + (\<Sum>k\<leftarrow>ks. length (filter (\<lambda>s. Single_to_string (Array.singles a ! s) = ky)
                                (T.singles (Array.sets a ! k))))) (m ky)"
proof (induction ks arbitrary: m)
  case Nil
  then show ?case by (simp add: option.map_ident)
next
  case (Cons k ks)
  from Cons.prems obtain m1 where m1: "count_conflict a k m = Inr m1"
    and r: "fold_err (count_conflict a) ks m1 = Inr m'"
    by (auto split: sum.splits)
  from m1 have "m1 ky = map_option
      (\<lambda>n. n + length (filter (\<lambda>s. Single_to_string (Array.singles a ! s) = ky)
                       (T.singles (Array.sets a ! k)))) (m ky)"
    unfolding count_conflict_def by (rule count_singles_scores)
  with Cons.IH[OF r] show ?case
    by (simp add: option.map_comp comp_def add.assoc)
qed

lemma init_scores_zero: "init_scores a ky = Some n \<Longrightarrow> n = 0"
proof -
  let ?Z = "\<lambda>m :: skey \<rightharpoonup> nat. \<forall>ky n. m ky = Some n \<longrightarrow> n = 0"
  have "?Z (fold (\<lambda>col. fold (\<lambda>val m. map_insert m (col, int val) 0) (vs col)) cs Map.empty)"
    for cs and vs :: "nat \<Rightarrow> nat list"
    by (rule fold_inv[where P = ?Z], rule fold_inv[where P = ?Z])
       (auto simp: map_insert_def split: option.splits if_splits)
  from this[of "\<lambda>col. [0..<level (factors a ! col)]" "[0..<num_factors a]"]
  show "init_scores a ky = Some n \<Longrightarrow> n = 0"
    unfolding init_scores_def by blast
qed

text \<open>The loop over the values of a column keeps the first value with the highest score.\<close>

lemma best_val_loop:
  "fold_err (best_val_step scores col) [0..<L] (0, 0) = Inr (bv, bs) \<Longrightarrow>
   (\<forall>v<L. \<exists>c. scores (col, int v) = Some c \<and> c \<le> bs) \<and>
   (bs \<noteq> 0 \<longrightarrow> bv < L \<and> scores (col, int bv) = Some bs \<and>
      (\<forall>v<bv. \<exists>c. scores (col, int v) = Some c \<and> c < bs))"
proof (induction L arbitrary: bv bs)
  case 0
  then show ?case by simp
next
  case (Suc L)
  from Suc.prems obtain bv0 bs0 where
    l: "fold_err (best_val_step scores col) [0..<L] (0, 0) = Inr (bv0, bs0)" and
    s: "best_val_step scores col L (bv0, bs0) = Inr (bv, bs)"
    by (auto simp: fold_err_append split: sum.splits)
  note ih = Suc.IH[OF l]
  from s obtain c where c: "scores (col, int L) = Some c"
    and r: "(bv, bs) = (if c > bs0 then (L, c) else (bv0, bs0))"
    by (auto simp: best_val_step_def split: option.splits)
  show ?case
  proof (cases "c > bs0")
    case True
    with r have [simp]: "bv = L" "bs = c" by auto
    from ih True c show ?thesis
      by (auto simp: less_Suc_eq)
  next
    case False
    with r have [simp]: "bv = bv0" "bs = bs0" by auto
    from ih False c show ?thesis
      by (auto simp: less_Suc_eq)
  qed
qed

lemma l_only_column_other:
  "l_only_column a lf scores col row = Inr row1 \<Longrightarrow>
   length row1 = length row \<and> (\<forall>j. j \<noteq> col \<longrightarrow> row1 ! j = row ! j)"
  by (auto simp: l_only_column_def split: if_splits sum.splits prod.splits)

lemma l_only_columns_above:
  "fold_err (l_only_column a lf scores) [0..<n] row = Inr row' \<Longrightarrow>
   length row' = length row \<and> (\<forall>j\<ge>n. row' ! j = row ! j)"
proof (induction n arbitrary: row')
  case 0
  then show ?case by simp
next
  case (Suc n)
  from Suc.prems obtain rn where
    l: "fold_err (l_only_column a lf scores) [0..<n] row = Inr rn" and
    s: "l_only_column a lf scores n rn = Inr row'"
    by (auto simp: fold_err_append split: sum.splits)
  from Suc.IH[OF l] l_only_column_other[OF s] show ?case by auto
qed

lemma l_only_column_depends:
  "l_only_column a lf scores col rn = Inr row' \<Longrightarrow> length rn = length row \<Longrightarrow>
   rn ! col = row ! col \<Longrightarrow>
   \<exists>r1. l_only_column a lf scores col row = Inr r1 \<and> row' ! col = r1 ! col"
  by (auto simp: l_only_column_def nth_list_update_full split: if_splits sum.splits prod.splits)

lemma l_only_columns_at:
  "fold_err (l_only_column a lf scores) [0..<n] row = Inr row' \<Longrightarrow> col < n \<Longrightarrow>
   \<exists>r1. l_only_column a lf scores col row = Inr r1 \<and> row' ! col = r1 ! col"
proof (induction n arbitrary: row')
  case 0
  then show ?case by simp
next
  case (Suc n)
  from Suc.prems obtain rn where
    l: "fold_err (l_only_column a lf scores) [0..<n] row = Inr rn" and
    s: "l_only_column a lf scores n rn = Inr row'"
    by (auto simp: fold_err_append split: sum.splits)
  show ?case
  proof (cases "col = n")
    case True
    from l_only_columns_above[OF l] have "length rn = length row" "rn ! n = row ! n" by auto
    with s True show ?thesis by (auto dest: l_only_column_depends)
  next
    case False
    with Suc.prems have "col < n" by simp
    from Suc.IH[OF l this] l_only_column_other[OF s] False show ?thesis by auto
  qed
qed

lemma locked_factors_nth:
  "col < length lf \<Longrightarrow>
   fold (\<lambda>s lf. lf[factor (Array.singles a ! s) := True]) ss lf ! col =
     (lf ! col \<or> (\<exists>s\<in>set ss. factor (Array.singles a ! s) = col))"
  by (induction ss arbitrary: lf) (auto simp: nth_list_update_full)

lemma heuristic_l_only_frame:
  "heuristic_l_only row locked (a, r) = Inr x \<Longrightarrow> snd x = (a, r)"
  by (auto simp: heuristic_l_only_def Let_def split: sum.splits)

section \<open>What update_array reads and what it writes\<close>

lemma map_update_same: "f y = f (xs ! i) \<Longrightarrow> map f (xs[i := y]) = map f xs"
  by (cases "i < length xs") (simp_all add: map_update list_update_beyond list_update_same_conv)

lemma views_upd_single:
  "factor (f (Array.singles a ! s)) = factor (Array.singles a ! s) \<Longrightarrow>
   svalue (f (Array.singles a ! s)) = svalue (Array.singles a ! s) \<Longrightarrow>
   st_view (upd_single s f a) = st_view a"
  "Single.rows (f (Array.singles a ! s)) = Single.rows (Array.singles a ! s) \<Longrightarrow>
   rows_view (upd_single s f a) = rows_view a"
  "c_issues (f (Array.singles a ! s)) = c_issues (Array.singles a ! s) \<Longrightarrow>
   l_issues (f (Array.singles a ! s)) = l_issues (Array.singles a ! s) \<Longrightarrow>
   d_issues (f (Array.singles a ! s)) = d_issues (Array.singles a ! s) \<Longrightarrow>
   cnt_view (upd_single s f a) = cnt_view a"
  by (simp_all add: st_view_def rows_view_def cnt_view_def upd_single_def map_update_same)

lemma views_upd_interaction:
  "Interaction.singles (f (Array.interactions a ! i)) = Interaction.singles (Array.interactions a ! i) \<Longrightarrow>
   Interaction.sets (f (Array.interactions a ! i)) = Interaction.sets (Array.interactions a ! i) \<Longrightarrow>
   st_view (upd_interaction i f a) = st_view a"
  "Interaction.rows (f (Array.interactions a ! i)) = Interaction.rows (Array.interactions a ! i) \<Longrightarrow>
   rows_view (upd_interaction i f a) = rows_view a"
  "is_covered (f (Array.interactions a ! i)) = is_covered (Array.interactions a ! i) \<Longrightarrow>
   is_detectable (f (Array.interactions a ! i)) = is_detectable (Array.interactions a ! i) \<Longrightarrow>
   deltas (f (Array.interactions a ! i)) = deltas (Array.interactions a ! i) \<Longrightarrow>
   cnt_view (upd_interaction i f a) = cnt_view a"
  by (simp_all add: st_view_def rows_view_def cnt_view_def upd_interaction_def map_update_same)

lemma views_upd_T:
  "T.interactions (f (Array.sets a ! k)) = T.interactions (Array.sets a ! k) \<Longrightarrow>
   T.singles (f (Array.sets a ! k)) = T.singles (Array.sets a ! k) \<Longrightarrow>
   st_view (upd_T k f a) = st_view a"
  "T.rows (f (Array.sets a ! k)) = T.rows (Array.sets a ! k) \<Longrightarrow>
   rows_view (upd_T k f a) = rows_view a"
  "location_conflicts (f (Array.sets a ! k)) = location_conflicts (Array.sets a ! k) \<Longrightarrow>
   is_locatable (f (Array.sets a ! k)) = is_locatable (Array.sets a ! k) \<Longrightarrow>
   cnt_view (upd_T k f a) = cnt_view a"
  by (simp_all add: st_view_def rows_view_def cnt_view_def upd_T_def map_update_same)

lemma views_globals [simp]:
  "st_view (a\<lparr>score := x\<rparr>) = st_view a"
  "st_view (a\<lparr>coverage_problems := x\<rparr>) = st_view a"
  "st_view (a\<lparr>location_problems := x\<rparr>) = st_view a"
  "st_view (a\<lparr>detection_problems := x\<rparr>) = st_view a"
  "st_view (a\<lparr>is_covering := y\<rparr>) = st_view a"
  "st_view (a\<lparr>is_locating := y\<rparr>) = st_view a"
  "st_view (a\<lparr>is_detecting := y\<rparr>) = st_view a"
  "st_view (a\<lparr>Array.rows := rs\<rparr>) = st_view a"
  "st_view (a\<lparr>num_tests := n\<rparr>) = st_view a"
  "rows_view (a\<lparr>score := x\<rparr>) = rows_view a"
  "rows_view (a\<lparr>coverage_problems := x\<rparr>) = rows_view a"
  "rows_view (a\<lparr>location_problems := x\<rparr>) = rows_view a"
  "rows_view (a\<lparr>detection_problems := x\<rparr>) = rows_view a"
  "rows_view (a\<lparr>is_covering := y\<rparr>) = rows_view a"
  "rows_view (a\<lparr>is_locating := y\<rparr>) = rows_view a"
  "rows_view (a\<lparr>is_detecting := y\<rparr>) = rows_view a"
  "cnt_view (a\<lparr>Array.rows := rs\<rparr>) = cnt_view a"
  "cnt_view (a\<lparr>num_tests := n\<rparr>) = cnt_view a"
  by (simp_all add: st_view_def rows_view_def cnt_view_def)

lemma mid_bump_singles:
  assumes "\<And>g s. factor (field g s) = factor s \<and> svalue (field g s) = svalue s \<and> Single.rows (field g s) = Single.rows s"
  shows "mid_view (bump_singles ss field g a) = mid_view a"
  unfolding bump_singles_def
  by (rule fold_inv[where P = "\<lambda>b. mid_view b = mid_view a"])
     (simp_all add: mid_view_def views_upd_single assms)

lemmas mid_bumps [simp] =
  mid_bump_singles[where field = c_issues_update, simplified]
  mid_bump_singles[where field = l_issues_update, simplified]
  mid_bump_singles[where field = d_issues_update, simplified]

lemma mid_upd_interaction [simp]:
  "mid_view (upd_interaction i (is_covered_update f) a) = mid_view a"
  "mid_view (upd_interaction i (is_detectable_update f) a) = mid_view a"
  "mid_view (upd_interaction i (deltas_update g) a) = mid_view a"
  by (simp_all add: mid_view_def views_upd_interaction)

lemma mid_upd_T [simp]:
  "mid_view (upd_T k (location_conflicts_update f) a) = mid_view a"
  "mid_view (upd_T k (is_locatable_update g) a) = mid_view a"
  by (simp_all add: mid_view_def views_upd_T)

lemma mid_globals [simp]:
  "mid_view (a\<lparr>score := x\<rparr>) = mid_view a"
  "mid_view (a\<lparr>coverage_problems := x\<rparr>) = mid_view a"
  "mid_view (a\<lparr>location_problems := x\<rparr>) = mid_view a"
  "mid_view (a\<lparr>detection_problems := x\<rparr>) = mid_view a"
  "mid_view (a\<lparr>is_covering := y\<rparr>) = mid_view a"
  "mid_view (a\<lparr>is_locating := y\<rparr>) = mid_view a"
  "mid_view (a\<lparr>is_detecting := y\<rparr>) = mid_view a"
  by (simp_all add: mid_view_def)

lemma mid_coverage_step [simp]: "mid_view (coverage_step i a) = mid_view a"
  by (simp add: coverage_step_def Let_def)

lemma mid_detection_others: "detection_others i k b = Inr b' \<Longrightarrow> mid_view b' = mid_view b"
  by (auto simp: detection_others_def split: option.splits)

lemma mid_detection_entry [simp]: "mid_view (detection_entry i kv b) = mid_view b"
  by (cases kv) (simp add: detection_entry_def Let_def)

lemma mid_detection_step: "detection_step rs i a = Inr a' \<Longrightarrow> mid_view a' = mid_view a"
proof -
  assume r: "detection_step rs i a = Inr a'"
  show ?thesis
  proof (cases "p a \<noteq> all \<or> is_detectable (Array.interactions a ! i)")
    case True
    with r show ?thesis by (auto simp: detection_step_def split: if_splits)
  next
    case False
    define a1 where "a1 = upd_interaction i (is_detectable_update (\<lambda>_. True)) a"
    from False r obtain a2 where
      a2: "fold_err (detection_others i) (sorted_list_of_set (rs - Interaction.sets (Array.interactions a1 ! i))) a1 = Inr a2"
      by (auto simp: detection_step_def Let_def a1_def split: sum.splits)
    have m2: "mid_view a2 = mid_view a"
      by (rule fold_err_inv[where P = "\<lambda>b. mid_view b = mid_view a", OF _ _ a2])
         (auto simp: a1_def dest: mid_detection_others)
    define a3 where "a3 = fold (detection_entry i) (deltas (Array.interactions a2 ! i)) a2"
    have m3: "mid_view a3 = mid_view a" unfolding a3_def
      by (rule fold_inv[where P = "\<lambda>b. mid_view b = mid_view a"]) (simp_all add: m2)
    from False r a2 have "mid_view a' = mid_view a3"
      by (auto simp: detection_step_def Let_def a1_def[symmetric] a3_def[symmetric] split: if_splits)
    with m3 show ?thesis by simp
  qed
qed

lemma mid_interaction_step: "interaction_step rs i a = Inr a' \<Longrightarrow> mid_view a' = mid_view a"
  by (auto simp: interaction_step_def dest: mid_detection_step)

lemma mid_location_first [simp]: "mid_view (location_first t1 t2 a) = mid_view a"
  by (simp add: location_first_def)

lemma mid_location_solve:
  "location_solve rs t1 t2 (a, temp, solved) = Inr (a', temp', solved') \<Longrightarrow> mid_view a' = mid_view a"
  by (auto simp: location_solve_def Let_def split: if_splits)

lemma mid_location_step: "location_step rs t1 a = Inr a' \<Longrightarrow> mid_view a' = mid_view a"
proof -
  assume r: "location_step rs t1 a = Inr a'"
  show ?thesis
  proof (cases "is_locatable (Array.sets a ! t1)")
    case True
    with r show ?thesis by (simp add: location_step_def)
  next
    case False
    from r False obtain a2 where
      a2: "(if card (T.rows (Array.sets a ! t1)) = 1 then
                Inr (fold (location_first t1) (sorted_list_of_set rs)
                       (bump_singles (T.singles (Array.sets a ! t1)) l_issues_update
                          (\<lambda>x. x - of_nat (length (Array.sets a))) a))
              else
                (case fold_err (location_solve rs t1)
                        (sorted_list_of_set (location_conflicts (Array.sets a ! t1)))
                        (a, location_conflicts (Array.sets a ! t1), 0) of
                   Inl e \<Rightarrow> Inl e
                 | Inr (a1, temp, solved) \<Rightarrow>
                     Inr (upd_T t1 (location_conflicts_update (\<lambda>_. temp))
                            (bump_singles (T.singles (Array.sets a1 ! t1)) l_issues_update
                               (\<lambda>x. x - solved) a1)))) = Inr a2"
      and a': "a' = a2 \<or> mid_view a' = mid_view a2"
      by (auto simp: location_step_def Let_def split: sum.splits if_splits)
    have "mid_view a2 = mid_view a"
    proof (cases "card (T.rows (Array.sets a ! t1)) = 1")
      case True
      with a2 have "a2 = fold (location_first t1) (sorted_list_of_set rs)
                       (bump_singles (T.singles (Array.sets a ! t1)) l_issues_update
                          (\<lambda>x. x - of_nat (length (Array.sets a))) a)" by simp
      moreover have "mid_view (fold (location_first t1) (sorted_list_of_set rs) b) = mid_view b" for b
        by (rule fold_inv[where P = "\<lambda>c. mid_view c = mid_view b"]) simp_all
      ultimately show ?thesis by simp
    next
      case False
      with a2 obtain a1 temp solved where
        l: "fold_err (location_solve rs t1)
                        (sorted_list_of_set (location_conflicts (Array.sets a ! t1)))
                        (a, location_conflicts (Array.sets a ! t1), 0) = Inr (a1, temp, solved)"
        and e: "a2 = upd_T t1 (location_conflicts_update (\<lambda>_. temp))
                            (bump_singles (T.singles (Array.sets a1 ! t1)) l_issues_update
                               (\<lambda>x. x - solved) a1)"
        by (auto split: sum.splits)
      have "mid_view (fst (a1, temp, solved)) = mid_view a"
        by (rule fold_err_inv[where P = "\<lambda>s. mid_view (fst s) = mid_view a", OF _ _ l])
           (auto dest: mid_location_solve)
      with e show ?thesis by simp
    qed
    with a' show ?thesis by auto
  qed
qed

lemma nth_beyond_eq: "length xs = length ys \<Longrightarrow> length xs \<le> n \<Longrightarrow> xs ! n = ys ! n"
proof (induction xs ys arbitrary: n rule: list_induct2)
  case Nil
  then show ?case by simp
next
  case (Cons x xs y ys)
  then show ?case by (cases n) auto
qed

lemma map_eq_nth: "map f xs = map f ys \<Longrightarrow> f (xs ! i) = f (ys ! i)"
proof (cases "i < length xs")
  case True
  assume e: "map f xs = map f ys"
  then have l: "length xs = length ys" by (rule map_eq_imp_length_eq)
  from e have "map f xs ! i = map f ys ! i" by simp
  with True l show ?thesis by simp
next
  case False
  assume e: "map f xs = map f ys"
  then have "length xs = length ys" by (rule map_eq_imp_length_eq)
  with False have "xs ! i = ys ! i" by (intro nth_beyond_eq) simp_all
  then show ?thesis by simp
qed

lemma st_view_reads:
  assumes "st_view b = st_view a"
  shows "Interaction.singles (Array.interactions b ! i) = Interaction.singles (Array.interactions a ! i)"
    and "Interaction.sets (Array.interactions b ! i) = Interaction.sets (Array.interactions a ! i)"
    and "T.singles (Array.sets b ! k) = T.singles (Array.sets a ! k)"
    and "T.interactions (Array.sets b ! k) = T.interactions (Array.sets a ! k)"
    and "factor (Array.singles b ! s) = factor (Array.singles a ! s)"
    and "svalue (Array.singles b ! s) = svalue (Array.singles a ! s)"
    and "length (Array.singles b) = length (Array.singles a)"
    and "length (Array.interactions b) = length (Array.interactions a)"
    and "length (Array.sets b) = length (Array.sets a)"
    and "p b = p a" and "delta b = delta a" and "t b = t a" and "num_factors b = num_factors a"
    and "interaction_map b = interaction_map a"
proof -
  from assms have
    e1: "map Interaction.singles (Array.interactions b) = map Interaction.singles (Array.interactions a)" and
    e2: "map Interaction.sets (Array.interactions b) = map Interaction.sets (Array.interactions a)" and
    e3: "map T.interactions (Array.sets b) = map T.interactions (Array.sets a)" and
    e4: "map T.singles (Array.sets b) = map T.singles (Array.sets a)" and
    e5: "map factor (Array.singles b) = map factor (Array.singles a)" and
    e6: "map svalue (Array.singles b) = map svalue (Array.singles a)" and
    e7: "p b = p a" "delta b = delta a" "t b = t a" "num_factors b = num_factors a"
        "interaction_map b = interaction_map a"
    by (simp_all add: st_view_def)
  show "Interaction.singles (Array.interactions b ! i) = Interaction.singles (Array.interactions a ! i)"
    using e1 by (rule map_eq_nth)
  show "Interaction.sets (Array.interactions b ! i) = Interaction.sets (Array.interactions a ! i)"
    using e2 by (rule map_eq_nth)
  show "T.singles (Array.sets b ! k) = T.singles (Array.sets a ! k)"
    using e4 by (rule map_eq_nth)
  show "T.interactions (Array.sets b ! k) = T.interactions (Array.sets a ! k)"
    using e3 by (rule map_eq_nth)
  show "factor (Array.singles b ! s) = factor (Array.singles a ! s)"
    using e5 by (rule map_eq_nth)
  show "svalue (Array.singles b ! s) = svalue (Array.singles a ! s)"
    using e6 by (rule map_eq_nth)
  show "length (Array.singles b) = length (Array.singles a)"
    using e5 by (rule map_eq_imp_length_eq)
  show "length (Array.interactions b) = length (Array.interactions a)"
    using e1 by (rule map_eq_imp_length_eq)
  show "length (Array.sets b) = length (Array.sets a)"
    using e3 by (rule map_eq_imp_length_eq)
  show "p b = p a" "delta b = delta a" "t b = t a" "num_factors b = num_factors a"
    "interaction_map b = interaction_map a" by (fact e7)+
qed

lemma map_nth_eq_conv:
  "(map f xs = map h [0..<length ys]) \<longleftrightarrow> (length xs = length ys \<and> (\<forall>i<length ys. f (xs ! i) = h i))"
proof
  assume e: "map f xs = map h [0..<length ys]"
  then have "length (map f xs) = length (map h [0..<length ys])" by simp
  then have l: "length xs = length ys" by simp
  have "f (xs ! i) = h i" if "i < length ys" for i
  proof -
    from e have "map f xs ! i = map h [0..<length ys] ! i" by simp
    with that l show ?thesis by simp
  qed
  with l show "length xs = length ys \<and> (\<forall>i<length ys. f (xs ! i) = h i)" by simp
next
  assume "length xs = length ys \<and> (\<forall>i<length ys. f (xs ! i) = h i)"
  then show "map f xs = map h [0..<length ys]"
    by (intro nth_equalityI) simp_all
qed

lemma marked_refl: "marked g {} {} {} a a"
  by (simp add: marked_def map_nth_eq_conv)

lemma mark_comp:
  fixes g :: "'b \<Rightarrow> 'b"
  assumes g: "\<And>r. g (g r) = g r"
    and 1: "map f ys = map (\<lambda>i. if i \<in> A then g (f (xs ! i)) else f (xs ! i)) [0..<length xs]"
    and 2: "map f zs = map (\<lambda>i. if i \<in> B then g (f (ys ! i)) else f (ys ! i)) [0..<length ys]"
  shows "map f zs = map (\<lambda>i. if i \<in> A \<union> B then g (f (xs ! i)) else f (xs ! i)) [0..<length xs]"
proof -
  from 1 have l1: "length ys = length xs" and n1: "\<forall>i<length xs. f (ys ! i) = (if i \<in> A then g (f (xs ! i)) else f (xs ! i))"
    by (simp_all add: map_nth_eq_conv)
  from 2 have l2: "length zs = length ys" and n2: "\<forall>i<length ys. f (zs ! i) = (if i \<in> B then g (f (ys ! i)) else f (ys ! i))"
    by (simp_all add: map_nth_eq_conv)
  show ?thesis
    unfolding map_nth_eq_conv using l1 l2 n1 n2 by (simp add: g)
qed

lemma marked_trans:
  assumes g: "\<And>r. g (g r) = g r"
    and 1: "marked g S1 I1 T1 a b" and 2: "marked g S2 I2 T2 b c"
  shows "marked g (S1 \<union> S2) (I1 \<union> I2) (T1 \<union> T2) a c"
proof -
  from 1 2 have "st_view c = st_view a" "cnt_view c = cnt_view a" "Array.rows c = Array.rows a"
    "num_tests c = num_tests a" by (simp_all add: marked_def)
  moreover from 1 2 have "map Single.rows (Array.singles c) =
       map (\<lambda>s. if s \<in> S1 \<union> S2 then g (Single.rows (Array.singles a ! s)) else Single.rows (Array.singles a ! s))
         [0..<length (Array.singles a)]"
    unfolding marked_def by (intro mark_comp[OF g]) blast+
  moreover from 1 2 have "map Interaction.rows (Array.interactions c) =
       map (\<lambda>i. if i \<in> I1 \<union> I2 then g (Interaction.rows (Array.interactions a ! i))
                else Interaction.rows (Array.interactions a ! i))
         [0..<length (Array.interactions a)]"
    unfolding marked_def by (intro mark_comp[OF g]) blast+
  moreover from 1 2 have "map T.rows (Array.sets c) =
       map (\<lambda>k. if k \<in> T1 \<union> T2 then g (T.rows (Array.sets a ! k)) else T.rows (Array.sets a ! k))
         [0..<length (Array.sets a)]"
    unfolding marked_def by (intro mark_comp[OF g]) blast+
  ultimately show ?thesis unfolding marked_def by blast
qed

lemma map_update_at:
  "map f (xs[i := y]) = map (\<lambda>j. if j = i then f y else f (xs ! j)) [0..<length xs]"
  by (intro nth_equalityI) (simp_all add: nth_list_update)

lemma marked_upd_single: "marked g {s} {} {} a (upd_single s (Single.rows_update g) a)"
  by (simp add: marked_def views_upd_single)
     (auto simp: upd_single_def map_nth_eq_conv nth_list_update)

lemma marked_upd_interaction: "marked g {} {i} {} a (upd_interaction i (Interaction.rows_update g) a)"
  by (simp add: marked_def views_upd_interaction)
     (auto simp: upd_interaction_def map_nth_eq_conv nth_list_update)

lemma marked_upd_T: "marked g {} {} {k} a (upd_T k (T.rows_update g) a)"
  by (simp add: marked_def views_upd_T)
     (auto simp: upd_T_def map_nth_eq_conv nth_list_update)

lemma marked_fold:
  assumes g: "\<And>r. g (g r) = g r"
    and step: "\<And>x b. x \<in> set xs \<Longrightarrow> marked g (S x) (I x) (T x) b (f x b)"
  shows "marked g (\<Union>x\<in>set xs. S x) (\<Union>x\<in>set xs. I x) (\<Union>x\<in>set xs. T x) a (fold f xs a)"
  using step
proof (induction xs arbitrary: a)
  case Nil
  then show ?case by (simp add: marked_refl)
next
  case (Cons x xs)
  have 1: "marked g (S x) (I x) (T x) a (f x a)" using Cons.prems by simp
  have 2: "marked g (\<Union>x\<in>set xs. S x) (\<Union>x\<in>set xs. I x) (\<Union>x\<in>set xs. T x) (f x a) (fold f xs (f x a))"
    using Cons.prems by (intro Cons.IH) simp
  from marked_trans[OF g 1 2] show ?case by simp
qed

lemma marked_weaken:
  "marked g S I T a b \<Longrightarrow> S = S' \<Longrightarrow> I = I' \<Longrightarrow> T = T' \<Longrightarrow> marked g S' I' T' a b"
  by simp

lemma insert_idem: "insert k (insert k r) = insert k r" by simp

lemma erase_idem: "(r - {k}) - {k} = r - {k}" by simp

lemma marked_reads:
  assumes "marked g S I T a b"
  shows "Interaction.singles (Array.interactions b ! i) = Interaction.singles (Array.interactions a ! i)"
    and "Interaction.sets (Array.interactions b ! i) = Interaction.sets (Array.interactions a ! i)"
  using assms by (auto simp: marked_def dest: st_view_reads(1,2))

lemma marked_insert_row:
  assumes "insert_row k i (a, rs) = (a', rs')"
  shows "marked (insert k) (set (Interaction.singles (Array.interactions a ! i))) {i}
           (set (sorted_list_of_set (Interaction.sets (Array.interactions a ! i)))) a a'
         \<and> rs' = rs \<union> Interaction.sets (Array.interactions a ! i)"
proof -
  define a1 where "a1 = fold (\<lambda>s. upd_single s (Single.rows_update (insert k)))
                (Interaction.singles (Array.interactions a ! i)) a"
  define a2 where "a2 = upd_interaction i (Interaction.rows_update (insert k)) a1"
  have m1: "marked (insert k) (set (Interaction.singles (Array.interactions a ! i))) {} {} a a1"
    unfolding a1_def
    by (rule marked_weaken[OF marked_fold[where S = "\<lambda>s. {s}" and I = "\<lambda>s. {}" and T = "\<lambda>s. {}"]])
       (auto intro: marked_upd_single)
  have m2: "marked (insert k) {} {i} {} a1 a2"
    unfolding a2_def by (rule marked_upd_interaction)
  have m12: "marked (insert k) (set (Interaction.singles (Array.interactions a ! i))) {i} {} a a2"
    using marked_trans[OF insert_idem m1 m2] by simp
  have se: "Interaction.sets (Array.interactions a2 ! i) = Interaction.sets (Array.interactions a ! i)"
    using m12 by (rule marked_reads)
  have m3: "marked (insert k) {} {} (set (sorted_list_of_set (Interaction.sets (Array.interactions a ! i)))) a2
              (fold (\<lambda>x. upd_T x (T.rows_update (insert k)))
                (sorted_list_of_set (Interaction.sets (Array.interactions a ! i))) a2)"
    by (rule marked_weaken[OF marked_fold[where S = "\<lambda>s. {}" and I = "\<lambda>s. {}" and T = "\<lambda>s. {s}"]])
       (auto intro: marked_upd_T)
  from assms have "a' = fold (\<lambda>x. upd_T x (T.rows_update (insert k)))
                (sorted_list_of_set (Interaction.sets (Array.interactions a ! i))) a2"
    and "rs' = rs \<union> Interaction.sets (Array.interactions a ! i)"
    by (simp_all add: insert_row_def Let_def a1_def[symmetric] a2_def[symmetric] se)
  with marked_trans[OF insert_idem m12 m3] show ?thesis by simp
qed

lemma marked_insert_rows:
  assumes "fold (insert_row k) is (a, rs) = (a', rs')"
  shows "marked (insert k) (\<Union>i\<in>set is. set (Interaction.singles (Array.interactions a ! i))) (set is)
           (\<Union>i\<in>set is. set (sorted_list_of_set (Interaction.sets (Array.interactions a ! i)))) a a'
         \<and> rs' = rs \<union> (\<Union>i\<in>set is. Interaction.sets (Array.interactions a ! i))"
  using assms
proof (induction "is" arbitrary: a rs)
  case Nil
  then show ?case by (simp add: marked_refl)
next
  case (Cons i "is")
  obtain a1 rs1 where s: "insert_row k i (a, rs) = (a1, rs1)" by (cases "insert_row k i (a, rs)")
  note m1 = marked_insert_row[OF s]
  from Cons.prems s have r: "fold (insert_row k) is (a1, rs1) = (a', rs')" by simp
  note m2 = Cons.IH[OF r]
  have rd: "Interaction.singles (Array.interactions a1 ! j) = Interaction.singles (Array.interactions a ! j)"
    "Interaction.sets (Array.interactions a1 ! j) = Interaction.sets (Array.interactions a ! j)" for j
    using m1 by (auto dest: marked_reads)
  from marked_trans[OF insert_idem conjunct1[OF m1] conjunct1[OF m2]] m1 m2
  show ?case by (simp add: rd Un_assoc)
qed

lemma marked_erase_row:
  "marked (\<lambda>r. r - {k}) (set (Interaction.singles (Array.interactions a ! i))) {i} {} a (erase_row k i a)"
proof -
  define a1 where "a1 = fold (\<lambda>s. upd_single s (Single.rows_update (\<lambda>r. r - {k})))
          (Interaction.singles (Array.interactions a ! i)) a"
  have m1: "marked (\<lambda>r. r - {k}) (set (Interaction.singles (Array.interactions a ! i))) {} {} a a1"
    unfolding a1_def
    by (rule marked_weaken[OF marked_fold[where S = "\<lambda>s. {s}" and I = "\<lambda>s. {}" and T = "\<lambda>s. {}"]])
       (auto intro: marked_upd_single)
  have m2: "marked (\<lambda>r. r - {k}) {} {i} {} a1 (erase_row k i a)"
    unfolding erase_row_def a1_def[symmetric] by (rule marked_upd_interaction)
  from marked_trans[OF erase_idem m1 m2] show ?thesis by simp
qed

lemma marked_erase_rows:
  "marked (\<lambda>r. r - {k}) (\<Union>i\<in>set is. set (Interaction.singles (Array.interactions a ! i))) (set is) {} a
     (fold (erase_row k) is a)"
proof (induction "is" arbitrary: a)
  case Nil
  then show ?case by (simp add: marked_refl)
next
  case (Cons i "is")
  note m1 = marked_erase_row[of k a i]
  note m2 = Cons.IH[of "erase_row k i a"]
  have rd: "Interaction.singles (Array.interactions (erase_row k i a) ! j) = Interaction.singles (Array.interactions a ! j)" for j
    using m1 by (rule marked_reads)
  from marked_trans[OF erase_idem m1 m2] show ?case by (simp add: rd Un_assoc)
qed

lemma update_array_keep:
  "update_array row ris keep a =
     (case update_array row ris True a of
        Inl e \<Rightarrow> Inl e
      | Inr a5 \<Rightarrow>
          Inr (if keep then a5
               else rollback ris
                      (snd (fold (insert_row (row_id (num_tests a + 1))) (sorted_list_of_set ris)
                              (pushed row a, {}))) a5))"
  by (simp add: update_array_def pushed_def Let_def split: prod.splits sum.splits)

lemma update_array_True:
  assumes "update_array row ris True a = Inr a5"
  shows "mid_view a5 =
           mid_view (fst (fold (insert_row (row_id (num_tests a + 1))) (sorted_list_of_set ris)
                            (pushed row a, {})))"
proof -
  obtain a3 rs where f: "fold (insert_row (row_id (num_tests a + 1))) (sorted_list_of_set ris)
                            (pushed row a, {}) = (a3, rs)"
    by (cases "fold (insert_row (row_id (num_tests a + 1))) (sorted_list_of_set ris) (pushed row a, {})")
  from assms f obtain a4 where
    a4: "fold_err (interaction_step rs) (sorted_list_of_set ris) a3 = Inr a4" and
    a5: "(if p a4 \<noteq> c_only \<and> \<not> is_locating a4
          then fold_err (location_step rs) (sorted_list_of_set rs) a4 else Inr a4) = Inr a5"
    by (auto simp: update_array_def pushed_def Let_def split: sum.splits)
  have m4: "mid_view a4 = mid_view a3"
    by (rule fold_err_inv[where P = "\<lambda>b. mid_view b = mid_view a3", OF _ _ a4])
       (auto dest: mid_interaction_step)
  have "mid_view a5 = mid_view a4"
  proof (cases "p a4 \<noteq> c_only \<and> \<not> is_locating a4")
    case True
    with a5 have l: "fold_err (location_step rs) (sorted_list_of_set rs) a4 = Inr a5" by simp
    show ?thesis
      by (rule fold_err_inv[where P = "\<lambda>b. mid_view b = mid_view a4", OF _ _ l])
         (auto dest: mid_location_step)
  next
    case False
    with a5 show ?thesis by auto
  qed
  with m4 f show ?thesis by simp
qed

lemma marked_rollback:
  "\<exists>c0. marked (\<lambda>r. r - {row_id (num_tests a)})
       (\<Union>i\<in>set (sorted_list_of_set ris). set (Interaction.singles (Array.interactions a ! i)))
       (set (sorted_list_of_set ris)) (set (sorted_list_of_set rs)) a c0 \<and>
     rollback ris rs a = c0\<lparr>num_tests := num_tests a - 1, Array.rows := butlast (Array.rows a)\<rparr>"
proof -
  let ?k = "row_id (num_tests a)"
  define a1 where "a1 = fold (erase_row ?k) (sorted_list_of_set ris) a"
  define a2 where "a2 = fold (\<lambda>x. upd_T x (T.rows_update (\<lambda>r. r - {?k}))) (sorted_list_of_set rs) a1"
  have m1: "marked (\<lambda>r. r - {?k})
       (\<Union>i\<in>set (sorted_list_of_set ris). set (Interaction.singles (Array.interactions a ! i)))
       (set (sorted_list_of_set ris)) {} a a1"
    unfolding a1_def by (rule marked_erase_rows)
  have m2: "marked (\<lambda>r. r - {?k}) {} {} (set (sorted_list_of_set rs)) a1 a2"
    unfolding a2_def
    by (rule marked_weaken[OF marked_fold[where S = "\<lambda>s. {}" and I = "\<lambda>s. {}" and T = "\<lambda>s. {s}"]])
       (auto intro: marked_upd_T)
  have m: "marked (\<lambda>r. r - {?k})
       (\<Union>i\<in>set (sorted_list_of_set ris). set (Interaction.singles (Array.interactions a ! i)))
       (set (sorted_list_of_set ris)) (set (sorted_list_of_set rs)) a a2"
    using marked_trans[OF erase_idem m1 m2] by simp
  then have "num_tests a2 = num_tests a" "Array.rows a2 = Array.rows a" by (simp_all add: marked_def)
  then have "rollback ris rs a = a2\<lparr>num_tests := num_tests a - 1, Array.rows := butlast (Array.rows a)\<rparr>"
    by (simp add: rollback_def Let_def a1_def[symmetric] a2_def[symmetric])
  with m show ?thesis by blast
qed

lemma set_sorted_list_subset: "set (sorted_list_of_set (A :: nat set)) \<subseteq> A"
  by (cases "finite A") auto

lemma unmark:
  assumes 1: "map f ys = map (\<lambda>i. if i \<in> A then insert k (f (xs ! i)) else f (xs ! i)) [0..<length xs]"
    and 2: "map f zs = map (\<lambda>i. if i \<in> A then f (ys' ! i) - {k} else f (ys' ! i)) [0..<length ys']"
    and 3: "map f ys' = map f ys"
    and 4: "\<forall>x\<in>set xs. k \<notin> f x"
  shows "map f zs = map f xs"
proof -
  from 1 have l1: "length ys = length xs"
    and n1: "\<forall>i<length xs. f (ys ! i) = (if i \<in> A then insert k (f (xs ! i)) else f (xs ! i))"
    by (simp_all add: map_nth_eq_conv)
  from 3 have l3: "length ys' = length ys" by (rule map_eq_imp_length_eq)
  from 2 have l2: "length zs = length ys'"
    and n2: "\<forall>i<length ys'. f (zs ! i) = (if i \<in> A then f (ys' ! i) - {k} else f (ys' ! i))"
    by (simp_all add: map_nth_eq_conv)
  have n3: "f (ys' ! i) = f (ys ! i)" for i using 3 by (rule map_eq_nth)
  show ?thesis
  proof (rule nth_equalityI)
    show "length (map f zs) = length (map f xs)" using l1 l2 l3 by simp
  next
    fix i assume "i < length (map f zs)"
    then have i: "i < length xs" using l1 l2 l3 by simp
    then have "k \<notin> f (xs ! i)" using 4 by simp
    with i n1 n2 n3 l1 l2 l3 show "map f zs ! i = map f xs ! i" by simp
  qed
qed

section \<open>Flags are only ever set\<close>

lemma flags_le_refl: "flags_le X a a"
  by (simp add: flags_le_def)

lemma flags_le_trans: "flags_le X a b \<Longrightarrow> flags_le X b c \<Longrightarrow> flags_le X a c"
  by (simp add: flags_le_def)

lemma flags_le_view: "flag_view b = flag_view a \<Longrightarrow> flags_le X a b"
proof -
  assume "flag_view b = flag_view a"
  then have e: "map is_covered (Array.interactions b) = map is_covered (Array.interactions a)"
    "map is_detectable (Array.interactions b) = map is_detectable (Array.interactions a)"
    "map is_locatable (Array.sets b) = map is_locatable (Array.sets a)"
    "is_covering b = is_covering a" "is_locating b = is_locating a" "is_detecting b = is_detecting a"
    by (simp_all add: flag_view_def)
  from e(1) have "length (Array.interactions b) = length (Array.interactions a)"
    by (rule map_eq_imp_length_eq)
  moreover from e(3) have "length (Array.sets b) = length (Array.sets a)"
    by (rule map_eq_imp_length_eq)
  moreover have "is_covered (Array.interactions b ! i) = is_covered (Array.interactions a ! i)" for i
    using e(1) by (rule map_eq_nth)
  moreover have "is_detectable (Array.interactions b ! i) = is_detectable (Array.interactions a ! i)" for i
    using e(2) by (rule map_eq_nth)
  moreover have "is_locatable (Array.sets b ! i) = is_locatable (Array.sets a ! i)" for i
    using e(3) by (rule map_eq_nth)
  ultimately show ?thesis using e(4-6) by (simp add: flags_le_def)
qed

lemma flags_le_exempt:
  "flags_le {i} a b \<Longrightarrow> \<not> is_detectable (Array.interactions a ! i) \<Longrightarrow> flags_le {} a b"
  by (auto simp: flags_le_def)

lemma flags_le_cnt: "cnt_view b = cnt_view a \<Longrightarrow> flags_le X a b"
proof (rule flags_le_view)
  assume "cnt_view b = cnt_view a"
  then have 1: "map (\<lambda>i. (is_covered i, is_detectable i, deltas i)) (Array.interactions b) =
                map (\<lambda>i. (is_covered i, is_detectable i, deltas i)) (Array.interactions a)"
    and 2: "map (\<lambda>x. (location_conflicts x, is_locatable x)) (Array.sets b) =
            map (\<lambda>x. (location_conflicts x, is_locatable x)) (Array.sets a)"
    and 3: "is_covering b = is_covering a" "is_locating b = is_locating a" "is_detecting b = is_detecting a"
    by (simp_all add: cnt_view_def)
  from arg_cong[OF 1, of "map fst"] have "map is_covered (Array.interactions b) = map is_covered (Array.interactions a)"
    by (simp add: comp_def)
  moreover from arg_cong[OF 1, of "map (fst \<circ> snd)"]
  have "map is_detectable (Array.interactions b) = map is_detectable (Array.interactions a)"
    by (simp add: comp_def)
  moreover from arg_cong[OF 2, of "map snd"]
  have "map is_locatable (Array.sets b) = map is_locatable (Array.sets a)"
    by (simp add: comp_def)
  ultimately show "flag_view b = flag_view a" using 3 by (simp add: flag_view_def)
qed

lemma flag_view_upd [simp]:
  "flag_view (upd_single s f a) = flag_view a"
  "flag_view (upd_interaction i (deltas_update g) a) = flag_view a"
  "flag_view (upd_T k (location_conflicts_update h) a) = flag_view a"
  "flag_view (a\<lparr>score := x\<rparr>) = flag_view a"
  "flag_view (a\<lparr>coverage_problems := x\<rparr>) = flag_view a"
  "flag_view (a\<lparr>location_problems := x\<rparr>) = flag_view a"
  "flag_view (a\<lparr>detection_problems := x\<rparr>) = flag_view a"
  by (simp_all add: flag_view_def upd_single_def upd_interaction_def upd_T_def map_update_same)

lemma flag_view_bump [simp]: "flag_view (bump_singles ss field g a) = flag_view a"
  unfolding bump_singles_def
  by (rule fold_inv[where P = "\<lambda>b. flag_view b = flag_view a"]) simp_all

lemma flags_le_set [simp]:
  "flags_le X a (upd_interaction i (is_covered_update (\<lambda>_. True)) a)"
  "flags_le X a (upd_T k (is_locatable_update (\<lambda>_. True)) a)"
  "flags_le X a (a\<lparr>is_covering := True\<rparr>)"
  "flags_le X a (a\<lparr>is_locating := True\<rparr>)"
  "flags_le X a (a\<lparr>is_detecting := True\<rparr>)"
  "flags_le (insert i X) a (upd_interaction i (is_detectable_update (\<lambda>_. v)) a)"
  by (auto simp: flags_le_def upd_interaction_def upd_T_def nth_list_update_full)

lemma flags_le_coverage_step: "flags_le X a (coverage_step i a)"
proof (cases "is_covered (Array.interactions a ! i)")
  case True
  then show ?thesis by (simp add: coverage_step_def flags_le_refl)
next
  case False
  define a1 where "a1 = upd_interaction i (is_covered_update (\<lambda>_. True)) a"
  define a4 where "a4 = (bump_singles (Interaction.singles (Array.interactions a1 ! i))
                   c_issues_update (\<lambda>x. x - 1) a1)\<lparr>score := score (bump_singles (Interaction.singles (Array.interactions a1 ! i))
                   c_issues_update (\<lambda>x. x - 1) a1) - 1, coverage_problems := coverage_problems (bump_singles (Interaction.singles (Array.interactions a1 ! i))
                   c_issues_update (\<lambda>x. x - 1) a1) - 1\<rparr>"
  have 1: "flags_le X a a1" by (simp add: a1_def)
  have "flag_view a4 = flag_view a1" by (simp add: a4_def flag_view_def[of "_\<lparr>coverage_problems := _\<rparr>"] flag_view_def[of "bump_singles _ _ _ _", symmetric])
  then have 2: "flags_le X a1 a4" by (rule flags_le_view)
  have 3: "flags_le X a4 (if coverage_problems a4 = 0 then a4\<lparr>is_covering := True\<rparr> else a4)"
    by (simp add: flags_le_refl)
  have "coverage_step i a = (if coverage_problems a4 = 0 then a4\<lparr>is_covering := True\<rparr> else a4)"
    using False by (simp add: coverage_step_def Let_def a1_def a4_def)
  with flags_le_trans[OF flags_le_trans[OF 1 2] 3] show ?thesis by simp
qed

lemma upd_single_fields [simp]:
  "total_problems (upd_single s f a) = total_problems a"
  "coverage_problems (upd_single s f a) = coverage_problems a"
  "location_problems (upd_single s f a) = location_problems a"
  "detection_problems (upd_single s f a) = detection_problems a"
  "score (upd_single s f a) = score a"
  "d (upd_single s f a) = d a"
  "t (upd_single s f a) = t a"
  "delta (upd_single s f a) = delta a"
  "num_tests (upd_single s f a) = num_tests a"
  "num_factors (upd_single s f a) = num_factors a"
  "factors (upd_single s f a) = factors a"
  "Array.interactions (upd_single s f a) = Array.interactions a"
  "Array.sets (upd_single s f a) = Array.sets a"
  "Array.rows (upd_single s f a) = Array.rows a"
  "single_map (upd_single s f a) = single_map a"
  "interaction_map (upd_single s f a) = interaction_map a"
  "t_set_map (upd_single s f a) = t_set_map a"
  "p (upd_single s f a) = p a"
  "is_covering (upd_single s f a) = is_covering a"
  "is_locating (upd_single s f a) = is_locating a"
  "is_detecting (upd_single s f a) = is_detecting a"
  "dont_cares (upd_single s f a) = dont_cares a"
  "permutation (upd_single s f a) = permutation a"
  "heuristic_in_use (upd_single s f a) = heuristic_in_use a"
  by (simp_all add: upd_single_def)

lemma upd_interaction_fields [simp]:
  "total_problems (upd_interaction i f a) = total_problems a"
  "coverage_problems (upd_interaction i f a) = coverage_problems a"
  "location_problems (upd_interaction i f a) = location_problems a"
  "detection_problems (upd_interaction i f a) = detection_problems a"
  "score (upd_interaction i f a) = score a"
  "d (upd_interaction i f a) = d a"
  "t (upd_interaction i f a) = t a"
  "delta (upd_interaction i f a) = delta a"
  "num_tests (upd_interaction i f a) = num_tests a"
  "num_factors (upd_interaction i f a) = num_factors a"
  "factors (upd_interaction i f a) = factors a"
  "Array.singles (upd_interaction i f a) = Array.singles a"
  "Array.sets (upd_interaction i f a) = Array.sets a"
  "Array.rows (upd_interaction i f a) = Array.rows a"
  "single_map (upd_interaction i f a) = single_map a"
  "interaction_map (upd_interaction i f a) = interaction_map a"
  "t_set_map (upd_interaction i f a) = t_set_map a"
  "p (upd_interaction i f a) = p a"
  "is_covering (upd_interaction i f a) = is_covering a"
  "is_locating (upd_interaction i f a) = is_locating a"
  "is_detecting (upd_interaction i f a) = is_detecting a"
  "dont_cares (upd_interaction i f a) = dont_cares a"
  "permutation (upd_interaction i f a) = permutation a"
  "heuristic_in_use (upd_interaction i f a) = heuristic_in_use a"
  by (simp_all add: upd_interaction_def)

lemma upd_T_fields [simp]:
  "total_problems (upd_T k f a) = total_problems a"
  "coverage_problems (upd_T k f a) = coverage_problems a"
  "location_problems (upd_T k f a) = location_problems a"
  "detection_problems (upd_T k f a) = detection_problems a"
  "score (upd_T k f a) = score a"
  "d (upd_T k f a) = d a"
  "t (upd_T k f a) = t a"
  "delta (upd_T k f a) = delta a"
  "num_tests (upd_T k f a) = num_tests a"
  "num_factors (upd_T k f a) = num_factors a"
  "factors (upd_T k f a) = factors a"
  "Array.singles (upd_T k f a) = Array.singles a"
  "Array.interactions (upd_T k f a) = Array.interactions a"
  "Array.rows (upd_T k f a) = Array.rows a"
  "single_map (upd_T k f a) = single_map a"
  "interaction_map (upd_T k f a) = interaction_map a"
  "t_set_map (upd_T k f a) = t_set_map a"
  "p (upd_T k f a) = p a"
  "is_covering (upd_T k f a) = is_covering a"
  "is_locating (upd_T k f a) = is_locating a"
  "is_detecting (upd_T k f a) = is_detecting a"
  "dont_cares (upd_T k f a) = dont_cares a"
  "permutation (upd_T k f a) = permutation a"
  "heuristic_in_use (upd_T k f a) = heuristic_in_use a"
  by (simp_all add: upd_T_def)

lemma upd_lengths [simp]:
  "length (Array.singles (upd_single s f a)) = length (Array.singles a)"
  "length (Array.interactions (upd_interaction i g a)) = length (Array.interactions a)"
  "length (Array.sets (upd_T k h a)) = length (Array.sets a)"
  by (simp_all add: upd_single_def upd_interaction_def upd_T_def)

lemma flags_le_detection_others:
  "detection_others i k b = Inr b' \<Longrightarrow> flags_le X b b'"
  by (auto simp: detection_others_def split: option.splits intro!: flags_le_view)

lemma flags_le_detection_entry: "flags_le {i} b (detection_entry i kv b)"
proof -
  obtain k v where kv: "kv = (k, v)" by (cases kv)
  define b1 where "b1 = upd_interaction i (deltas_update (al_modify k (\<lambda>x. x + 1))) b"
  define b2 where "b2 = (if v + 1 <s delta b1
               then upd_interaction i (is_detectable_update (\<lambda>_. False)) b1 else b1)"
  have 1: "flags_le {i} b b1" unfolding b1_def by (rule flags_le_view) simp
  have 2: "flags_le {i} b1 b2" unfolding b2_def
    using flags_le_set(6)[of i "{}" b1 False] by (simp add: flags_le_refl)
  have e: "detection_entry i kv b =
      (if v + 1 \<le>s delta b2
        then bump_singles (Interaction.singles (Array.interactions b2 ! i))
               d_issues_update (\<lambda>x. x - 1) b2
        else b2)"
    unfolding detection_entry_def kv b1_def b2_def Let_def by simp
  have 3: "flags_le {i} b2 (detection_entry i kv b)"
    by (rule flags_le_view) (simp add: e)
  from flags_le_trans[OF flags_le_trans[OF 1 2] 3] show ?thesis .
qed

lemma flags_le_detection_step: "detection_step rs i a = Inr a' \<Longrightarrow> flags_le {} a a'"
proof -
  assume r: "detection_step rs i a = Inr a'"
  show ?thesis
  proof (cases "p a \<noteq> all \<or> is_detectable (Array.interactions a ! i)")
    case True
    with r have "a' = a" by (auto simp: detection_step_def split: if_splits)
    then show ?thesis by (simp add: flags_le_refl)
  next
    case False
    define a1 where "a1 = upd_interaction i (is_detectable_update (\<lambda>_. True)) a"
    from False r obtain a2 where
      a2: "fold_err (detection_others i) (sorted_list_of_set (rs - Interaction.sets (Array.interactions a1 ! i))) a1 = Inr a2"
      by (auto simp: detection_step_def Let_def a1_def split: sum.splits)
    have 1: "flags_le {i} a a1" unfolding a1_def using flags_le_set(6)[of i "{}" a True] by simp
    have 2: "flags_le {i} a a2"
      by (rule fold_err_inv[where P = "flags_le {i} a", OF _ 1 a2])
         (auto dest: flags_le_detection_others[where X = "{i}"] intro: flags_le_trans)
    define a3 where "a3 = fold (detection_entry i) (deltas (Array.interactions a2 ! i)) a2"
    have 3: "flags_le {i} a a3" unfolding a3_def
      by (rule fold_inv[where P = "flags_le {i} a", OF _ 2])
         (auto intro: flags_le_trans flags_le_detection_entry)
    have "flags_le {i} a3 a'"
    proof (cases "is_detectable (Array.interactions a3 ! i)")
      case True
      define a5 where "a5 = a3\<lparr>score := score a3 - 1, detection_problems := detection_problems a3 - 1\<rparr>"
      have e: "a' = (if detection_problems a5 = 0 then a5\<lparr>is_detecting := True\<rparr> else a5)"
        using False r a2 True
        by (auto simp: detection_step_def Let_def a1_def[symmetric] a3_def[symmetric] a5_def)
      have "flags_le {i} a3 a5" by (rule flags_le_view) (simp add: a5_def flag_view_def)
      moreover have "flags_le {i} a5 a'" by (simp add: e flags_le_refl)
      ultimately show ?thesis by (rule flags_le_trans)
    next
      case F: False
      then have "a' = a3"
        using False r a2
        by (simp add: detection_step_def Let_def a1_def[symmetric] a3_def[symmetric])
      then show ?thesis by (simp add: flags_le_refl)
    qed
    with 3 have "flags_le {i} a a'" by (rule flags_le_trans)
    with False show ?thesis by (auto intro: flags_le_exempt)
  qed
qed

lemma flags_le_interaction_step: "interaction_step rs i a = Inr a' \<Longrightarrow> flags_le {} a a'"
  unfolding interaction_step_def
  by (rule flags_le_trans[OF flags_le_coverage_step]) (rule flags_le_detection_step)

lemma flags_le_location_first: "flags_le X a (location_first t1 t2 a)"
  by (rule flags_le_view) (simp add: location_first_def)

lemma flags_le_locatable_now:
  "flags_le X a (upd_T k (is_locatable_update (\<lambda>_. True)) a
      \<lparr>score := sc, location_problems := lp\<rparr>)"
proof -
  have "flags_le X (upd_T k (is_locatable_update (\<lambda>_. True)) a)
          (upd_T k (is_locatable_update (\<lambda>_. True)) a \<lparr>score := sc, location_problems := lp\<rparr>)"
    by (rule flags_le_view) (simp add: flag_view_def)
  with flags_le_set(2) show ?thesis by (rule flags_le_trans)
qed

lemma flags_le_location_solve:
  "location_solve rs t1 t2 (a, temp, solved) = Inr (a', temp', solved') \<Longrightarrow> flags_le X a a'"
proof -
  assume r: "location_solve rs t1 t2 (a, temp, solved) = Inr (a', temp', solved')"
  show ?thesis
  proof (cases "t2 \<in> rs")
    case True
    with r show ?thesis by (simp add: location_solve_def flags_le_refl)
  next
    case False
    define a1 where "a1 = upd_T t2 (location_conflicts_update (\<lambda>c. c - {t1})) a"
    define a2 where "a2 = bump_singles (T.singles (Array.sets a1 ! t2)) l_issues_update (\<lambda>x. x - 1) a1"
    have 1: "flags_le X a a2" by (rule flags_le_view) (simp add: a2_def a1_def)
    have "location_solve rs t1 t2 (a, temp, solved) =
       (if t1 \<in> location_conflicts (Array.sets a ! t2) then
          if location_conflicts (Array.sets a2 ! t2) = {} then
            if location_problems a2 - 1 = 0 then Inl exit_unexpected
            else Inr (upd_T t2 (is_locatable_update (\<lambda>_. True)) a2
                 \<lparr>score := score a2 - 1, location_problems := location_problems a2 - 1\<rparr>, temp - {t2}, solved + 1)
          else Inr (a2, temp - {t2}, solved + 1)
        else Inl exit_unexpected)"
      using False unfolding location_solve_def Let_def a1_def a2_def by (simp add: upd_T_def)
    with r have "a' = a2 \<or>
       a' = upd_T t2 (is_locatable_update (\<lambda>_. True)) a2
              \<lparr>score := score a2 - 1, location_problems := location_problems a2 - 1\<rparr>"
      by (simp split: if_splits)
    then have "flags_le X a2 a'"
      using flags_le_locatable_now[where X = X and a = a2 and k = t2] by (auto simp: flags_le_refl)
    with 1 show ?thesis by (rule flags_le_trans)
  qed
qed

lemma flags_le_location_step: "location_step rs t1 a = Inr a' \<Longrightarrow> flags_le X a a'"
proof -
  assume r: "location_step rs t1 a = Inr a'"
  show ?thesis
  proof (cases "is_locatable (Array.sets a ! t1)")
    case True
    with r show ?thesis by (simp add: location_step_def flags_le_refl)
  next
    case False
    from r False obtain a2 where
      a2: "(if card (T.rows (Array.sets a ! t1)) = 1 then
                Inr (fold (location_first t1) (sorted_list_of_set rs)
                       (bump_singles (T.singles (Array.sets a ! t1)) l_issues_update
                          (\<lambda>x. x - of_nat (length (Array.sets a))) a))
              else
                (case fold_err (location_solve rs t1)
                        (sorted_list_of_set (location_conflicts (Array.sets a ! t1)))
                        (a, location_conflicts (Array.sets a ! t1), 0) of
                   Inl e \<Rightarrow> Inl e
                 | Inr (a1, temp, solved) \<Rightarrow>
                     Inr (upd_T t1 (location_conflicts_update (\<lambda>_. temp))
                            (bump_singles (T.singles (Array.sets a1 ! t1)) l_issues_update
                               (\<lambda>x. x - solved) a1)))) = Inr a2"
      and a': "a' = a2 \<or> a' = upd_T t1 (is_locatable_update (\<lambda>_. True)) a2
              \<lparr>score := score a2 - 1, location_problems := location_problems a2 - 1\<rparr>
         \<or> a' = upd_T t1 (is_locatable_update (\<lambda>_. True)) a2
              \<lparr>score := score a2 - 1, location_problems := location_problems a2 - 1, is_locating := True\<rparr>"
      by (auto simp: location_step_def Let_def split: sum.splits if_splits)
    have 1: "flags_le X a a2"
    proof (cases "card (T.rows (Array.sets a ! t1)) = 1")
      case True
      define a0 where "a0 = bump_singles (T.singles (Array.sets a ! t1)) l_issues_update
                          (\<lambda>x. x - of_nat (length (Array.sets a))) a"
      have 0: "flags_le X a a0" by (rule flags_le_view) (simp add: a0_def)
      from True a2 have "a2 = fold (location_first t1) (sorted_list_of_set rs) a0" by (simp add: a0_def)
      moreover have "flags_le X a (fold (location_first t1) (sorted_list_of_set rs) a0)"
        by (rule fold_inv[where P = "flags_le X a", OF _ 0])
           (auto intro: flags_le_trans flags_le_location_first)
      ultimately show ?thesis by simp
    next
      case F: False
      with a2 obtain a1 temp solved where
        l: "fold_err (location_solve rs t1)
                        (sorted_list_of_set (location_conflicts (Array.sets a ! t1)))
                        (a, location_conflicts (Array.sets a ! t1), 0) = Inr (a1, temp, solved)"
        and e: "a2 = upd_T t1 (location_conflicts_update (\<lambda>_. temp))
                            (bump_singles (T.singles (Array.sets a1 ! t1)) l_issues_update
                               (\<lambda>x. x - solved) a1)"
        by (auto split: sum.splits)
      have "flags_le X a (fst (a1, temp, solved))"
      proof (rule fold_err_inv[where P = "\<lambda>s. flags_le X a (fst s)", OF _ _ l])
        fix x s s'
        assume "flags_le X a (fst s)" "location_solve rs t1 x s = Inr s'"
        then show "flags_le X a (fst s')"
          by (cases s, cases s') (auto intro: flags_le_trans[OF _ flags_le_location_solve])
      qed (simp add: flags_le_refl)
      moreover have "flags_le X a1 a2" by (rule flags_le_view) (simp add: e)
      ultimately show ?thesis by (auto intro: flags_le_trans)
    qed
    have "flags_le X a2 a'"
      using a' flags_le_locatable_now[where X = X and a = a2 and k = t1]
        flags_le_trans[OF flags_le_locatable_now[where X = X and a = a2 and k = t1 and sc = "score a2 - 1" and lp = "location_problems a2 - 1"]
           flags_le_set(4)]
      by (auto simp: flags_le_refl)
    with 1 show ?thesis by (rule flags_le_trans)
  qed
qed

lemma flags_le_update_array:
  assumes "update_array row ris keep a = Inr a'"
  shows "flags_le {} a a'"
proof -
  from assms obtain a5 where
    t: "update_array row ris True a = Inr a5" and
    a': "a' = (if keep then a5 else rollback ris
                      (snd (fold (insert_row (row_id (num_tests a + 1))) (sorted_list_of_set ris)
                              (pushed row a, {}))) a5)"
    by (auto simp: update_array_keep[of row ris keep a] split: sum.splits)
  obtain a3 rs where f: "fold (insert_row (row_id (num_tests a + 1))) (sorted_list_of_set ris)
                            (pushed row a, {}) = (a3, rs)"
    by (cases "fold (insert_row (row_id (num_tests a + 1))) (sorted_list_of_set ris) (pushed row a, {})")
  from t f obtain a4 where
    a4: "fold_err (interaction_step rs) (sorted_list_of_set ris) a3 = Inr a4" and
    a5: "(if p a4 \<noteq> c_only \<and> \<not> is_locating a4
          then fold_err (location_step rs) (sorted_list_of_set rs) a4 else Inr a4) = Inr a5"
    by (auto simp: update_array_def pushed_def Let_def split: sum.splits)
  have 0: "flags_le {} a (pushed row a)" by (rule flags_le_cnt) (simp add: pushed_def)
  from marked_insert_rows[OF f] have "cnt_view a3 = cnt_view (pushed row a)" by (simp add: marked_def)
  then have "flags_le {} (pushed row a) a3" by (rule flags_le_cnt)
  with 0 have 3: "flags_le {} a a3" by (rule flags_le_trans)
  have 4: "flags_le {} a a4"
    by (rule fold_err_inv[where P = "flags_le {} a", OF _ 3 a4])
       (auto dest: flags_le_interaction_step intro: flags_le_trans)
  have 5: "flags_le {} a a5"
  proof (cases "p a4 \<noteq> c_only \<and> \<not> is_locating a4")
    case True
    with a5 have l: "fold_err (location_step rs) (sorted_list_of_set rs) a4 = Inr a5" by simp
    show ?thesis
      by (rule fold_err_inv[where P = "flags_le {} a", OF _ 4 l])
         (auto dest: flags_le_location_step[where X = "{}"] intro: flags_le_trans)
  next
    case False
    with a5 4 show ?thesis by auto
  qed
  show ?thesis
  proof (cases keep)
    case True
    with a' 5 show ?thesis by simp
  next
    case False
    from marked_rollback[of a5 ris rs] obtain c0 where
      "cnt_view c0 = cnt_view a5"
      "rollback ris rs a5 = c0\<lparr>num_tests := num_tests a5 - 1, Array.rows := butlast (Array.rows a5)\<rparr>"
      by (auto simp: marked_def)
    then have "cnt_view (rollback ris rs a5) = cnt_view a5" by simp
    then have "flags_le {} a5 (rollback ris rs a5)" by (rule flags_le_cnt)
    with 5 a' False f show ?thesis by (auto intro: flags_le_trans)
  qed
qed

section \<open>The look-ahead of heuristic_all\<close>

text \<open>The scorer changes its clone, not the Array it is called on; where the clone holds fewer
  rows than \<^verbatim>\<open>num_tests\<close>, as the clone of a coverage-only Array with a row does, destroying it
  fails.\<close>

lemma heuristic_all_scorer_frame:
  "heuristic_all_scorer row addr (a, scores) = Inr (a', scores') \<Longrightarrow> a' = a"
  by (auto simp: heuristic_all_scorer_def split: sum.splits)

lemma heuristic_all_helper_frame:
  "heuristic_all_helper k row (a, scores, al) = Inr (a', scores', al') \<Longrightarrow> a' = a"
proof (induction k arbitrary: row a scores al a' scores' al')
  case 0
  then show ?case
    by (auto simp: alloc_row_def split: sum.splits prod.splits dest: heuristic_all_scorer_frame)
next
  case (Suc k)
  from Suc.prems obtain perm where
    f: "fold_err (\<lambda>offset (b, scores1, al1).
              case permutation b of
                None \<Rightarrow> Inl null_pointer
              | Some perm1 \<Rightarrow>
                  let pc = nat (perm1 ! (num_factors b - Suc k)) in
                  heuristic_all_helper k
                    (row[pc := (row ! pc + int offset) smod int (level (factors b ! pc))])
                    (b, scores1, al1))
            [0..<level (factors a ! nat (perm ! (num_factors a - Suc k)))] (a, scores, al) =
          Inr (a', scores', al')"
    by (auto split: option.splits)
  have "fst (a', scores', al') = a"
  proof (rule fold_err_inv[where P = "\<lambda>st. fst st = a", OF _ _ f])
    fix x st st'
    assume st: "fst st = a"
      and step: "(case st of (b, scores1, al1) \<Rightarrow>
              case permutation b of
                None \<Rightarrow> Inl null_pointer
              | Some perm1 \<Rightarrow>
                  let pc = nat (perm1 ! (num_factors b - Suc k)) in
                  heuristic_all_helper k
                    (row[pc := (row ! pc + int x) smod int (level (factors b ! pc))])
                    (b, scores1, al1)) = Inr st'"
    obtain b sc1 al1 where s: "st = (b, sc1, al1)" by (cases st)
    obtain b' sc' al2 where s': "st' = (b', sc', al2)" by (cases st')
    from step s s' obtain row1 where "heuristic_all_helper k row1 (b, sc1, al1) = Inr (b', sc', al2)"
      by (auto simp: Let_def split: option.splits)
    from Suc.IH[OF this] st s s' show "fst st' = a" by simp
  qed simp
  then show ?case by simp
qed

lemma heuristic_all_aborts_coverage_only:
  "heuristic_all (\<lambda>k. k) [0, 0] (array_22_row c_only, rng_110) = Inl bad_index"
proof -
  have "case heuristic_all (\<lambda>k. k) [0, 0] (array_22_row c_only, rng_110) of
          Inl e \<Rightarrow> e = bad_index | Inr x \<Rightarrow> False"
    by code_simp
  then show ?thesis by (auto split: sum.splits)
qed

section \<open>What clone copies\<close>






lemma key_view_globals [simp]:
  "key_view (a\<lparr>total_problems := x\<rparr>) = key_view a"
  "key_view (a\<lparr>score := x\<rparr>) = key_view a"
  "key_view (a\<lparr>Array.rows := rs\<rparr>) = key_view a"
  "key_view (a\<lparr>Array.sets := ss\<rparr>) = key_view a"
  "key_view (a\<lparr>t_set_map := tm\<rparr>) = key_view a"
  "key_view (a\<lparr>is_covering := y\<rparr>) = key_view a"
  "key_view (a\<lparr>is_locating := y\<rparr>) = key_view a"
  "key_view (a\<lparr>is_detecting := y\<rparr>) = key_view a"
  by (simp_all add: key_view_def)






lemma gl_view_upd [simp]:
  "gl_view (upd_single s f a) = gl_view a"
  "gl_view (upd_interaction i g a) = gl_view a"
  "gl_view (upd_T k h a) = gl_view a"
  by (simp_all add: gl_view_def upd_single_def upd_interaction_def upd_T_def)

lemma upd_reads [simp]:
  "Array.interactions (upd_single s f a) = Array.interactions a"
  "Array.sets (upd_single s f a) = Array.sets a"
  "Array.singles (upd_interaction i g a) = Array.singles a"
  "Array.sets (upd_interaction i g a) = Array.sets a"
  "single_map (upd_interaction i g a) = single_map a"
  "Array.singles (upd_T k h a) = Array.singles a"
  "Array.interactions (upd_T k h a) = Array.interactions a"
  "single_map (upd_T k h a) = single_map a"
  "interaction_map (upd_T k h a) = interaction_map a"
  by (simp_all add: upd_single_def upd_interaction_def upd_T_def)










section \<open>update_array reads neither dont_cares nor permutation\<close>

lemma lift_buffers_simps [simp]:
  "lift_buffers dc pm (Inl e) = Inl e"
  "lift_buffers dc pm (Inr b) = Inr (with_buffers dc pm b)"
  by (simp_all add: lift_buffers_def)

lemma wb_reads [simp]:
  "Array.singles (with_buffers dc pm a) = Array.singles a"
  "Array.interactions (with_buffers dc pm a) = Array.interactions a"
  "Array.sets (with_buffers dc pm a) = Array.sets a"
  "Array.rows (with_buffers dc pm a) = Array.rows a"
  "num_tests (with_buffers dc pm a) = num_tests a"
  "num_factors (with_buffers dc pm a) = num_factors a"
  "p (with_buffers dc pm a) = p a"
  "t (with_buffers dc pm a) = t a"
  "delta (with_buffers dc pm a) = delta a"
  "score (with_buffers dc pm a) = score a"
  "coverage_problems (with_buffers dc pm a) = coverage_problems a"
  "location_problems (with_buffers dc pm a) = location_problems a"
  "detection_problems (with_buffers dc pm a) = detection_problems a"
  "is_covering (with_buffers dc pm a) = is_covering a"
  "is_locating (with_buffers dc pm a) = is_locating a"
  "is_detecting (with_buffers dc pm a) = is_detecting a"
  "interaction_map (with_buffers dc pm a) = interaction_map a"
  by (simp_all add: with_buffers_def)

lemma wb_out [simp]:
  "upd_single s f (with_buffers dc pm a) = with_buffers dc pm (upd_single s f a)"
  "upd_interaction i g (with_buffers dc pm a) = with_buffers dc pm (upd_interaction i g a)"
  "upd_T k h (with_buffers dc pm a) = with_buffers dc pm (upd_T k h a)"
  "(with_buffers dc pm a)\<lparr>score := x\<rparr> = with_buffers dc pm (a\<lparr>score := x\<rparr>)"
  "(with_buffers dc pm a)\<lparr>coverage_problems := x\<rparr> = with_buffers dc pm (a\<lparr>coverage_problems := x\<rparr>)"
  "(with_buffers dc pm a)\<lparr>location_problems := x\<rparr> = with_buffers dc pm (a\<lparr>location_problems := x\<rparr>)"
  "(with_buffers dc pm a)\<lparr>detection_problems := x\<rparr> = with_buffers dc pm (a\<lparr>detection_problems := x\<rparr>)"
  "(with_buffers dc pm a)\<lparr>is_covering := y\<rparr> = with_buffers dc pm (a\<lparr>is_covering := y\<rparr>)"
  "(with_buffers dc pm a)\<lparr>is_locating := y\<rparr> = with_buffers dc pm (a\<lparr>is_locating := y\<rparr>)"
  "(with_buffers dc pm a)\<lparr>is_detecting := y\<rparr> = with_buffers dc pm (a\<lparr>is_detecting := y\<rparr>)"
  "(with_buffers dc pm a)\<lparr>Array.rows := rs\<rparr> = with_buffers dc pm (a\<lparr>Array.rows := rs\<rparr>)"
  "(with_buffers dc pm a)\<lparr>num_tests := n\<rparr> = with_buffers dc pm (a\<lparr>num_tests := n\<rparr>)"
  by (simp_all add: with_buffers_def upd_single_def upd_interaction_def upd_T_def)

lemma wb_if [simp]:
  "(if c then with_buffers dc pm x else with_buffers dc pm y) = with_buffers dc pm (if c then x else y)"
  by simp

lemma fold_wb:
  "(\<And>x s. f x (with_buffers dc pm s) = with_buffers dc pm (f x s)) \<Longrightarrow>
   fold f xs (with_buffers dc pm s) = with_buffers dc pm (fold f xs s)"
  by (induction xs arbitrary: s) simp_all


lemma wb_bump_singles [simp]:
  "bump_singles ss field g (with_buffers dc pm a) = with_buffers dc pm (bump_singles ss field g a)"
  unfolding bump_singles_def by (rule fold_wb) simp

lemma wb_build_row [simp]:
  "build_row_interactions (with_buffers dc pm a) row start tc ky R =
   build_row_interactions a row start tc ky R"
proof (induction a row start tc ky R rule: build_row_interactions.induct)
  case (1 a row start ky R)
  then show ?case by simp
next
  case (2 a row start tc ky R)
  show ?case
    unfolding build_row_interactions.simps wb_reads
  proof (rule fold_err_cong)
    fix x u assume "x \<in> set [start..<num_factors a + 1 - Suc tc]"
    from "2.IH"[OF this]
    show "build_row_interactions (with_buffers dc pm a) row (x + 1) tc (ky @ [(x, row ! x)]) u =
          build_row_interactions a row (x + 1) tc (ky @ [(x, row ! x)]) u" .
  qed simp_all
qed



lemma wb_coverage_step [simp]:
  "coverage_step i (with_buffers dc pm a) = with_buffers dc pm (coverage_step i a)"
  by (simp add: coverage_step_def Let_def)


lemma wb_detection_entry [simp]:
  "detection_entry i kv (with_buffers dc pm b) = with_buffers dc pm (detection_entry i kv b)"
  by (cases kv) (simp add: detection_entry_def Let_def)



lemma wb_location_first [simp]:
  "location_first t1 t2 (with_buffers dc pm a) = with_buffers dc pm (location_first t1 t2 a)"
  by (simp add: location_first_def)




lemma wb_erase_row [simp]:
  "erase_row k i (with_buffers dc pm a) = with_buffers dc pm (erase_row k i a)"
proof -
  have 1: "fold (\<lambda>s. upd_single s f) ss (with_buffers dc pm b) =
           with_buffers dc pm (fold (\<lambda>s. upd_single s f) ss b)" for f ss b
    by (rule fold_wb) simp
  show ?thesis by (simp add: erase_row_def 1)
qed

lemma wb_rollback [simp]:
  "rollback ris rs (with_buffers dc pm a) = with_buffers dc pm (rollback ris rs a)"
proof -
  have 1: "fold (erase_row k) xs (with_buffers dc pm b) = with_buffers dc pm (fold (erase_row k) xs b)" for k xs b
    by (rule fold_wb) simp
  have 2: "fold (\<lambda>x. upd_T x f) ss (with_buffers dc pm b) =
           with_buffers dc pm (fold (\<lambda>x. upd_T x f) ss b)" for f ss b
    by (rule fold_wb) simp
  show ?thesis by (simp add: rollback_def Let_def 1 2)
qed



section \<open>The Factors and Singles of the constructor\<close>

lemma add_single_ok:
  assumes ok: "singles_ok a" and i: "Suc i = length (factors a)"
    and j: "j = length (Factor.singles (factors a ! i))"
  shows "singles_ok (add_single i j a)"
proof -
  define a' where "a' = add_single i j a"
  let ?a = "a'"
  let ?n = "length (Array.singles a)"
  have fa: "factors ?a = (factors a)[i := (factors a ! i)\<lparr>Factor.singles := Factor.singles (factors a ! i) @ [?n]\<rparr>]"
    and sa: "Array.singles ?a = Array.singles a @ [new_Single i j]"
    by (simp_all add: add_single_def Let_def a'_def)
  have il: "i < length (factors a)" using i by simp
  have fs: "Factor.singles (factors ?a ! c) =
        (if c = i then Factor.singles (factors a ! i) @ [?n] else Factor.singles (factors a ! c))"
    if "c < length (factors a)" for c
    using that il by (simp add: fa nth_list_update)
  have "singles_ok a'"
    unfolding singles_ok_def
  proof (intro conjI allI impI)
    fix c v assume c: "c < length (factors ?a)" and v: "v < length (Factor.singles (factors ?a ! c))"
    from c have c': "c < length (factors a)" by (simp add: fa)
    show "Factor.singles (factors ?a ! c) ! v < length (Array.singles ?a)"
      using ok c' v fs[OF c'] by (auto simp: singles_ok_def sa nth_append less_Suc_eq)
    show "factor (Array.singles ?a ! (Factor.singles (factors ?a ! c) ! v)) = c"
      using ok c' v fs[OF c'] by (auto simp: singles_ok_def sa nth_append new_Single_def)
    show "svalue (Array.singles ?a ! (Factor.singles (factors ?a ! c) ! v)) = v"
      using ok c' v fs[OF c'] j by (auto simp: singles_ok_def sa nth_append new_Single_def)
  next
    fix s assume s: "s < length (Array.singles ?a)"
    show "factor (Array.singles ?a ! s) < length (factors ?a)"
      using ok s il by (auto simp: singles_ok_def sa fa nth_append new_Single_def)
    show "svalue (Array.singles ?a ! s) < length (Factor.singles (factors ?a ! factor (Array.singles ?a ! s)))"
    proof (cases "s < ?n")
      case True
      with ok have "factor (Array.singles a ! s) < length (factors a)"
        "svalue (Array.singles a ! s) < length (Factor.singles (factors a ! factor (Array.singles a ! s)))"
        by (auto simp: singles_ok_def)
      with True fs[of "factor (Array.singles a ! s)"] show ?thesis
        by (auto simp: sa nth_append)
    next
      case False
      with s have "s = ?n" by (simp add: sa)
      with fs[OF il] j show ?thesis by (simp add: sa new_Single_def)
    qed
    show "Factor.singles (factors ?a ! factor (Array.singles ?a ! s)) ! svalue (Array.singles ?a ! s) = s"
    proof (cases "s < ?n")
      case True
      with ok have "factor (Array.singles a ! s) < length (factors a)"
        "svalue (Array.singles a ! s) < length (Factor.singles (factors a ! factor (Array.singles a ! s)))"
        "Factor.singles (factors a ! factor (Array.singles a ! s)) ! svalue (Array.singles a ! s) = s"
        by (auto simp: singles_ok_def)
      with True fs[of "factor (Array.singles a ! s)"] show ?thesis
        by (auto simp: sa nth_append)
    next
      case False
      with s have "s = ?n" by (simp add: sa)
      with fs[OF il] j show ?thesis by (simp add: sa new_Single_def)
    qed
  qed
  then show ?thesis by (simp add: a'_def)
qed

lemma fold_upt_Suc: "fold f [0..<Suc n] s = f n (fold f [0..<n] s)"
  by simp

lemma add_single_fields:
  "length (factors (add_single i j a)) = length (factors a)"
  "c \<noteq> i \<Longrightarrow> factors (add_single i j a) ! c = factors a ! c"
  "i < length (factors a) \<Longrightarrow> level (factors (add_single i j a) ! i) = level (factors a ! i)"
  "i < length (factors a) \<Longrightarrow>
     length (Factor.singles (factors (add_single i j a) ! i)) = Suc (length (Factor.singles (factors a ! i)))"
  by (simp_all add: add_single_def Let_def)

lemma add_singles_ok:
  assumes ok: "singles_ok a" and i: "Suc i = length (factors a)"
    and e: "Factor.singles (factors a ! i) = []"
  shows "singles_ok (fold (add_single i) [0..<n] a) \<and>
         length (factors (fold (add_single i) [0..<n] a)) = length (factors a) \<and>
         length (Factor.singles (factors (fold (add_single i) [0..<n] a) ! i)) = n \<and>
         level (factors (fold (add_single i) [0..<n] a) ! i) = level (factors a ! i) \<and>
         (\<forall>c. c \<noteq> i \<longrightarrow> factors (fold (add_single i) [0..<n] a) ! c = factors a ! c)"
proof (induction n)
  case 0
  then show ?case using ok e by simp
next
  case (Suc n)
  define b where "b = fold (add_single i) [0..<n] a"
  from Suc have b: "singles_ok b" "length (factors b) = length (factors a)"
    "length (Factor.singles (factors b ! i)) = n" "level (factors b ! i) = level (factors a ! i)"
    "\<forall>c. c \<noteq> i \<longrightarrow> factors b ! c = factors a ! c"
    by (simp_all add: b_def)
  have il: "i < length (factors b)" using i b(2) by simp
  have "singles_ok (add_single i n b)"
    by (rule add_single_ok[OF b(1)]) (use i b in simp_all)
  then show ?case
    unfolding fold_upt_Suc b_def[symmetric]
    using b il by (simp add: add_single_fields)
qed

lemma add_factor_ok:
  assumes ok: "singles_ok a" "levels_ok a" and i: "i = length (factors a)"
  shows "singles_ok (add_factor i lvl a) \<and> levels_ok (add_factor i lvl a) \<and>
         length (factors (add_factor i lvl a)) = Suc i \<and>
         level (factors (add_factor i lvl a) ! i) = lvl \<and>
         (\<forall>c<i. level (factors (add_factor i lvl a) ! c) = level (factors a ! c))"
proof -
  define a1 where "a1 = a\<lparr>factors := factors a @ [\<lparr>f_id = i, level = lvl, Factor.singles = []\<rparr>]\<rparr>"
  have f1: "factors a1 = factors a @ [\<lparr>f_id = i, level = lvl, Factor.singles = []\<rparr>]"
    "Array.singles a1 = Array.singles a" by (simp_all add: a1_def)
  have ok1: "singles_ok a1"
    using ok(1) unfolding singles_ok_def f1
    by (auto simp: nth_append less_Suc_eq)
  have l1: "Suc i = length (factors a1)" "Factor.singles (factors a1 ! i) = []" "level (factors a1 ! i) = lvl"
    using i by (simp_all add: f1)
  note r = add_singles_ok[OF ok1 l1(1,2), of lvl]
  define a2 where "a2 = fold (add_single i) [0..<lvl] a1"
  from r have r': "singles_ok a2" "length (factors a2) = Suc i"
    "length (Factor.singles (factors a2 ! i)) = lvl" "level (factors a2 ! i) = lvl"
    "\<forall>c. c \<noteq> i \<longrightarrow> factors a2 ! c = factors a1 ! c"
    using l1 by (simp_all add: a2_def)
  have old: "factors a2 ! c = factors a ! c" if "c < i" for c
    using r'(5) that i by (simp add: f1 nth_append)
  have "levels_ok a2"
    unfolding levels_ok_def
  proof (intro allI impI)
    fix c assume "c < length (factors a2)"
    then have "c < i \<or> c = i" using r'(2) by auto
    then show "level (factors a2 ! c) = length (Factor.singles (factors a2 ! c))"
      using old ok(2) i r'(3,4) by (auto simp: levels_ok_def)
  qed
  moreover have "add_factor i lvl a = a2" by (simp add: add_factor_def a2_def a1_def)
  ultimately show ?thesis using r' old by simp
qed

lemma build_factors_ok:
  assumes "factors a = []" "Array.singles a = []" "num_factors a = n"
  shows "singles_ok (build_factors lvls a) \<and> levels_ok (build_factors lvls a) \<and>
         length (factors (build_factors lvls a)) = n \<and>
         (\<forall>c<n. level (factors (build_factors lvls a) ! c) = lvls ! c)"
proof -
  have "singles_ok (fold (\<lambda>i. add_factor i (lvls ! i)) [0..<m] a) \<and>
        levels_ok (fold (\<lambda>i. add_factor i (lvls ! i)) [0..<m] a) \<and>
        length (factors (fold (\<lambda>i. add_factor i (lvls ! i)) [0..<m] a)) = m \<and>
        (\<forall>c<m. level (factors (fold (\<lambda>i. add_factor i (lvls ! i)) [0..<m] a) ! c) = lvls ! c)" for m
  proof (induction m)
    case 0
    then show ?case using assms by (simp add: singles_ok_def levels_ok_def)
  next
    case (Suc m)
    define b where "b = fold (\<lambda>i. add_factor i (lvls ! i)) [0..<m] a"
    from Suc have b: "singles_ok b" "levels_ok b" "length (factors b) = m"
      "\<forall>c<m. level (factors b ! c) = lvls ! c" by (simp_all add: b_def)
    from add_factor_ok[OF b(1,2), of m "lvls ! m"] b(3,4)
    show ?case unfolding fold_upt_Suc b_def[symmetric] by (auto simp: less_Suc_eq)
  qed
  from this[of n] show ?thesis by (simp add: build_factors_def assms(3))
qed

section \<open>The Interactions of a row\<close>

lemma fold_err_concat: "fold_err f (concat xss) = fold_err (\<lambda>xs. fold_err f xs) xss"
proof
  fix s show "fold_err f (concat xss) s = fold_err (\<lambda>xs. fold_err f xs) xss s"
    by (induction xss arbitrary: s) (auto simp: fold_err_append split: sum.splits)
qed

lemma fold_err_map: "fold_err f (map g xs) = fold_err (\<lambda>x. f (g x)) xs"
proof
  fix s show "fold_err f (map g xs) s = fold_err (\<lambda>x. f (g x)) xs s"
    by (induction xs arbitrary: s) (auto split: sum.splits)
qed

lemma build_row_flat:
  "build_row_interactions a row start tc ky R =
     fold_err (lookup_step a row ky) (col_combos (num_factors a) start tc) R"
proof (induction a row start tc ky R rule: build_row_interactions.induct)
  case (1 a row start ky R)
  then show ?case by (simp add: lookup_step_def split: option.splits)
next
  case (2 a row start tc ky R)
  have "fold_err (\<lambda>col. build_row_interactions a row (col + 1) tc (ky @ [(col, row ! col)]))
          [start..<num_factors a + 1 - Suc tc] R =
        fold_err (\<lambda>col. fold_err (lookup_step a row (ky @ [(col, row ! col)]))
                          (col_combos (num_factors a) (col + 1) tc))
          [start..<num_factors a + 1 - Suc tc] R"
  proof (rule fold_err_cong)
    fix x u assume "x \<in> set [start..<num_factors a + 1 - Suc tc]"
    from "2.IH"[OF this]
    show "build_row_interactions a row (x + 1) tc (ky @ [(x, row ! x)]) u =
          fold_err (lookup_step a row (ky @ [(x, row ! x)])) (col_combos (num_factors a) (x + 1) tc) u" .
  qed simp_all
  also have "\<dots> = fold_err (lookup_step a row ky) (col_combos (num_factors a) start (Suc tc)) R"
    by (simp add: fold_err_concat fold_err_map lookup_step_def[abs_def])
  finally show ?case by simp
qed

lemma lookups_result:
  "fold_err (lookup_step a row ky) css R = Inr R' \<Longrightarrow>
   (\<forall>cols\<in>set css. \<exists>i. interaction_map a (ky @ map (\<lambda>c. (c, row ! c)) cols) = Some i) \<and>
   R' = R \<union> {i. \<exists>cols\<in>set css. interaction_map a (ky @ map (\<lambda>c. (c, row ! c)) cols) = Some i}"
proof (induction css arbitrary: R)
  case Nil
  then show ?case by simp
next
  case (Cons cols css)
  from Cons.prems obtain R1 where
    l: "lookup_step a row ky cols R = Inr R1" and r1: "fold_err (lookup_step a row ky) css R1 = Inr R'"
    by (auto split: sum.splits)
  from l obtain i where
    i: "interaction_map a (ky @ map (\<lambda>c. (c, row ! c)) cols) = Some i" and "R1 = insert i R"
    unfolding lookup_step_def by (auto split: option.splits)
  with r1 have r: "fold_err (lookup_step a row ky) css (insert i R) = Inr R'" by simp
  from Cons.IH[OF r] i show ?case by auto
qed

lemma col_combos_mem:
  "cols \<in> set (col_combos n start tc) \<longleftrightarrow>
     length cols = tc \<and> sorted_wrt (<) cols \<and> (\<forall>c\<in>set cols. start \<le> c \<and> c < n)"
proof (induction tc arbitrary: start cols)
  case 0
  then show ?case by auto
next
  case (Suc tc)
  show ?case
  proof
    assume "cols \<in> set (col_combos n start (Suc tc))"
    then obtain col cs where col: "start \<le> col" "col < n + 1 - Suc tc"
      and cs: "cs \<in> set (col_combos n (col + 1) tc)" and e: "cols = col # cs"
      by auto
    from cs Suc.IH[of cs "col + 1"] have
      p: "length cs = tc" "sorted_wrt (<) cs" "\<forall>c\<in>set cs. col + 1 \<le> c \<and> c < n" by auto
    with col e show "length cols = Suc tc \<and> sorted_wrt (<) cols \<and> (\<forall>c\<in>set cols. start \<le> c \<and> c < n)"
      by auto
  next
    assume a: "length cols = Suc tc \<and> sorted_wrt (<) cols \<and> (\<forall>c\<in>set cols. start \<le> c \<and> c < n)"
    then obtain col cs where e: "cols = col # cs" by (cases cols) auto
    with a have p: "length cs = tc" "sorted_wrt (<) cs" "\<forall>c\<in>set cs. col + 1 \<le> c \<and> c < n"
      "start \<le> col" "col < n"
      by auto
    then have m: "cs \<in> set (col_combos n (col + 1) tc)" using Suc.IH[of cs "col + 1"] by simp
    have "col + tc < n"
    proof (cases cs)
      case Nil
      with p show ?thesis by simp
    next
      case (Cons c cs')
      have "\<And>k. k < length cs \<Longrightarrow> col + 1 + k \<le> cs ! k"
      proof -
        fix k show "k < length cs \<Longrightarrow> col + 1 + k \<le> cs ! k"
        proof (induction k)
          case 0
          then show ?case using p(3) by (simp add: Cons)
        next
          case (Suc k)
          then have "cs ! k < cs ! Suc k" using p(2) by (simp add: sorted_wrt_iff_nth_less)
          with Suc show ?case by simp
        qed
      qed
      from this[of "tc - 1"] p(1) Cons have "col + tc \<le> cs ! (tc - 1)" by auto
      moreover have "tc - 1 < length cs" using p(1) Cons by simp
      then have "cs ! (tc - 1) \<in> set cs" by (rule nth_mem)
      then have "cs ! (tc - 1) < n" using p(3) by blast
      ultimately show ?thesis by simp
    qed
    then have "col < n + 1 - Suc tc" by simp
    with p(4) m e show "cols \<in> set (col_combos n start (Suc tc))" by auto
  qed
qed

lemma col_combo_through:
  assumes "1 \<le> tc" "tc \<le> n" "c < n"
  shows "\<exists>cols\<in>set (col_combos n 0 tc). c \<in> set cols"
proof -
  define lo where "lo = (if c + tc \<le> n then c else n - tc)"
  have "[lo..<lo + tc] \<in> set (col_combos n 0 tc)"
    unfolding col_combos_mem using assms by (auto simp: lo_def)
  moreover have "c \<in> set [lo..<lo + tc]" using assms by (auto simp: lo_def)
  ultimately show ?thesis by blast
qed

section \<open>The Interactions of the constructor\<close>

lemma Interaction_to_string_key: "Interaction_to_string a i = key_of a (Interaction.singles i)"
  by (simp add: Interaction_to_string_def key_of_def)

lemma single_key_inj:
  assumes "singles_ok a" "s < length (Array.singles a)" "s' < length (Array.singles a)"
    "Single_to_string (Array.singles a ! s) = Single_to_string (Array.singles a ! s')"
  shows "s = s'"
proof -
  from assms(4) have e: "factor (Array.singles a ! s) = factor (Array.singles a ! s')"
    "svalue (Array.singles a ! s) = svalue (Array.singles a ! s')"
    by (simp_all add: Single_to_string_def)
  define g where "g = (\<lambda>s. Factor.singles (factors a ! factor (Array.singles a ! s)) ! svalue (Array.singles a ! s))"
  from assms(1) have all: "\<forall>s<length (Array.singles a).
        factor (Array.singles a ! s) < length (factors a) \<and>
        svalue (Array.singles a ! s) < length (Factor.singles (factors a ! factor (Array.singles a ! s))) \<and>
        g s = s"
    unfolding singles_ok_def g_def by (rule conjunct2)
  have g: "g u = u" if "u < length (Array.singles a)" for u
    using all[rule_format, OF that] by (elim conjE)
  have gg: "g s = g s'" unfolding g_def e ..
  have "s = g s" by (rule g[OF assms(2), symmetric])
  also note gg
  also have "g s' = s'" by (rule g[OF assms(3)])
  finally show ?thesis .
qed

lemma key_of_inj:
  assumes "singles_ok a" "set cs \<subseteq> {..<length (Array.singles a)}" "set cs' \<subseteq> {..<length (Array.singles a)}"
    "key_of a cs = key_of a cs'"
  shows "cs = cs'"
proof (rule map_inj_on[OF assms(4)[unfolded key_of_def]])
  show "inj_on (\<lambda>s. Single_to_string (Array.singles a ! s)) (set cs \<union> set cs')"
    by (rule inj_onI) (use assms(1-3) in \<open>auto intro: single_key_inj\<close>)
qed

lemma distinct_concat_map:
  assumes "distinct xs" "\<And>x. x \<in> set xs \<Longrightarrow> distinct (f x)"
    "\<And>x y. x \<in> set xs \<Longrightarrow> y \<in> set xs \<Longrightarrow> x \<noteq> y \<Longrightarrow> set (f x) \<inter> set (f y) = {}"
  shows "distinct (concat (map f xs))"
  using assms
proof (induction xs)
  case Nil
  then show ?case by simp
next
  case (Cons x xs)
  have "distinct (concat (map f xs))" by (rule Cons.IH) (use Cons.prems in auto)
  moreover have "set (f x) \<inter> set (f y) = {}" if "y \<in> set xs" for y
    using Cons.prems(1) that by (intro Cons.prems(3)) auto
  ultimately show ?case using Cons.prems(2)[of x] by auto
qed

lemma factors_ok_single:
  assumes "factors_ok a" "col < num_factors a" "lvl < level (factors a ! col)"
  shows "Factor.singles (factors a ! col) ! lvl < length (Array.singles a)"
    and "factor (Array.singles a ! (Factor.singles (factors a ! col) ! lvl)) = col"
    and "svalue (Array.singles a ! (Factor.singles (factors a ! col) ! lvl)) = lvl"
  using assms by (simp_all add: factors_ok_def singles_ok_def levels_ok_def)

lemma combos_struct:
  assumes "factors_ok a" "cs \<in> set (combos a start tc)"
  shows "length cs = tc \<and> set cs \<subseteq> {..<length (Array.singles a)} \<and>
         sorted_wrt (<) (map (\<lambda>s. factor (Array.singles a ! s)) cs) \<and>
         (\<forall>s\<in>set cs. start \<le> factor (Array.singles a ! s))"
  using assms
proof (induction a start tc arbitrary: cs rule: combos.induct)
  case (1 a start)
  then show ?case by simp
next
  case (2 a start tc)
  note ok = "2.prems"(1)
  from "2.prems"(2) obtain col lvl cs' where
    col: "col \<in> set [start..<num_factors a + 1 - Suc tc]" and lvl: "lvl \<in> set [0..<level (factors a ! col)]"
    and cs': "cs' \<in> set (combos a (col + 1) tc)"
    and cs: "cs = Factor.singles (factors a ! col) ! lvl # cs'"
    by auto
  from "2.IH"[OF col lvl ok cs'] have ih: "length cs' = tc" "set cs' \<subseteq> {..<length (Array.singles a)}"
    "sorted_wrt (<) (map (\<lambda>s. factor (Array.singles a ! s)) cs')"
    "\<forall>s\<in>set cs'. col + 1 \<le> factor (Array.singles a ! s)" by auto
  from col lvl have c: "col < num_factors a" "start \<le> col" "lvl < level (factors a ! col)" by auto
  note f = factors_ok_single[OF ok c(1,3)]
  show ?case using ih f c(2) by (auto simp: cs)
qed

lemma combos_distinct:
  assumes "factors_ok a"
  shows "distinct (combos a start tc)"
  using assms
proof (induction a start tc rule: combos.induct)
  case (1 a start)
  then show ?case by simp
next
  case (2 a start tc)
  note ok = "2.prems"
  let ?x = "\<lambda>col lvl. Factor.singles (factors a ! col) ! lvl"
  let ?inner = "\<lambda>col lvl. map ((#) (?x col lvl)) (combos a (col + 1) tc)"
  let ?mid = "\<lambda>col. concat (map (?inner col) [0..<level (factors a ! col)])"
  have hd_inner: "hd cs = ?x col lvl" if "cs \<in> set (?inner col lvl)" for cs col lvl
    using that by auto
  have hd_mid: "\<exists>lvl<level (factors a ! col). hd cs = ?x col lvl" if "cs \<in> set (?mid col)" for cs col
    using that by auto
  have d_inner: "distinct (?inner col lvl)"
    if "col \<in> set [start..<num_factors a + 1 - Suc tc]" "lvl \<in> set [0..<level (factors a ! col)]" for col lvl
    using "2.IH"[OF that ok] by (simp add: distinct_map)
  have d_mid: "distinct (?mid col)" if col: "col \<in> set [start..<num_factors a + 1 - Suc tc]" for col
  proof (rule distinct_concat_map)
    show "distinct [0..<level (factors a ! col)]" by simp
  next
    fix lvl assume "lvl \<in> set [0..<level (factors a ! col)]"
    then show "distinct (?inner col lvl)" by (rule d_inner[OF col])
  next
    fix l1 l2 assume l: "l1 \<in> set [0..<level (factors a ! col)]" "l2 \<in> set [0..<level (factors a ! col)]"
      and ne: "l1 \<noteq> l2"
    from col have c: "col < num_factors a" by auto
    from l have "svalue (Array.singles a ! ?x col l1) = l1" "svalue (Array.singles a ! ?x col l2) = l2"
      using factors_ok_single(3)[OF ok c] by auto
    with ne have "?x col l1 \<noteq> ?x col l2" by auto
    then show "set (?inner col l1) \<inter> set (?inner col l2) = {}" by auto
  qed
  have "distinct (concat (map ?mid [start..<num_factors a + 1 - Suc tc]))"
  proof (rule distinct_concat_map)
    show "distinct [start..<num_factors a + 1 - Suc tc]" by simp
  next
    fix col assume "col \<in> set [start..<num_factors a + 1 - Suc tc]"
    then show "distinct (?mid col)" by (rule d_mid)
  next
    fix c1 c2 assume c: "c1 \<in> set [start..<num_factors a + 1 - Suc tc]"
      "c2 \<in> set [start..<num_factors a + 1 - Suc tc]" and ne: "c1 \<noteq> c2"
    show "set (?mid c1) \<inter> set (?mid c2) = {}"
    proof (rule ccontr)
      assume "set (?mid c1) \<inter> set (?mid c2) \<noteq> {}"
      then obtain cs where "cs \<in> set (?mid c1)" "cs \<in> set (?mid c2)" by blast
      from hd_mid[OF this(1)] hd_mid[OF this(2)] obtain l1 l2 where
        l: "l1 < level (factors a ! c1)" "l2 < level (factors a ! c2)" "?x c1 l1 = ?x c2 l2" by auto
      from c have "c1 < num_factors a" "c2 < num_factors a" by auto
      from factors_ok_single(2)[OF ok this(1) l(1)] factors_ok_single(2)[OF ok this(2) l(2)] l(3) ne
      show False by simp
    qed
  qed
  then show ?case by simp
qed

lemma base_view_count_step: "base_view (count_step s b) = base_view b"
  by (simp add: base_view_def count_step_def upd_single_def map_update_same)

lemma base_view_add_interaction: "base_view (add_interaction sf b) = base_view b"
proof -
  have "base_view (fold count_step sf c) = base_view c" for c
    by (rule fold_inv[where P = "\<lambda>x. base_view x = base_view c"]) (simp_all add: base_view_count_step)
  then show ?thesis by (simp add: add_interaction_alt) (simp add: base_view_def)
qed

lemma key_of_base: "base_view b = base_view a \<Longrightarrow> key_of b cs = key_of a cs"
proof -
  assume "base_view b = base_view a"
  then have "map factor (Array.singles b) = map factor (Array.singles a)"
    "map svalue (Array.singles b) = map svalue (Array.singles a)"
    by (simp_all add: base_view_def)
  then have "factor (Array.singles b ! s) = factor (Array.singles a ! s)"
    "svalue (Array.singles b ! s) = svalue (Array.singles a ! s)" for s
    by (auto intro: map_eq_nth)
  then show ?thesis by (simp add: key_of_def Single_to_string_def)
qed

lemma fold_inter_empty: "fold (\<lambda>s r. r \<inter> X s) xs {} = {}"
  by (induction xs) auto

lemma enumerated_fold:
  assumes ok: "singles_ok a"
    and e: "Array.interactions a = []" "interaction_map a = Map.empty"
    and r: "\<forall>s\<in>set (Array.singles a). Single.rows s = {}"
    and v: "\<forall>cs\<in>set css. set cs \<subseteq> {..<length (Array.singles a)} \<and> cs \<noteq> []"
    and d: "distinct css"
  shows "enumerated a css (fold add_interaction css a)"
  using v d
proof (induction css rule: rev_induct)
  case Nil
  then show ?case using e by (simp add: enumerated_def)
next
  case (snoc cs css)
  define b where "b = fold add_interaction css a"
  from snoc have en: "enumerated a css b" by (simp add: b_def)
  then have bv: "base_view b = base_view a"
    and m: "map Interaction.singles (Array.interactions b) = css"
    and fr: "\<forall>i\<in>set (Array.interactions b). fresh_interaction i"
    and f1: "\<forall>i<length css. interaction_map b (key_of a (css ! i)) = Some i"
    and f2: "\<forall>ky i. interaction_map b ky = Some i \<longrightarrow> i < length css \<and> key_of a (css ! i) = ky"
    by (simp_all add: enumerated_def)
  from m have len: "length (Array.interactions b) = length css" by (metis length_map)
  define b' where "b' = add_interaction cs b"
  have bv': "base_view b' = base_view a" using bv by (simp add: b'_def base_view_add_interaction)
  have ints: "Array.interactions b' = Array.interactions b @ [new_Interaction b cs]"
    by (simp add: b'_def add_interaction_alt count_steps)
  have "interaction_map (fold count_step sf c) = interaction_map c" for sf c
    by (rule fold_inv[where P = "\<lambda>x. interaction_map x = interaction_map c"])
       (simp_all add: count_step_def upd_single_def)
  then have im: "interaction_map b' = map_insert (interaction_map b) (key_of a cs) (length css)"
    by (simp add: b'_def add_interaction_alt Interaction_to_string_key new_Interaction_def
          key_of_base[OF bv] len)
  have csv: "set cs \<subseteq> {..<length (Array.singles a)}" "cs \<noteq> []" using snoc.prems(1) by auto
  have new: "interaction_map b (key_of a cs) = None"
  proof (rule ccontr)
    assume "interaction_map b (key_of a cs) \<noteq> None"
    then obtain i where "interaction_map b (key_of a cs) = Some i" by auto
    with f2 have i: "i < length css" "key_of a (css ! i) = key_of a cs" by auto
    then have "css ! i \<in> set css" by simp
    moreover from this snoc.prems(1) have "set (css ! i) \<subseteq> {..<length (Array.singles a)}" by auto
    from key_of_inj[OF ok this csv(1) i(2)] have "css ! i = cs" .
    ultimately show False using snoc.prems(2) by auto
  qed
  then have im': "interaction_map b' = (interaction_map b)(key_of a cs \<mapsto> length css)"
    by (simp add: im map_insert_def)
  have rows_b: "Single.rows (Array.singles b ! s) = {}" if "s < length (Array.singles a)" for s
  proof -
    from bv have "map Single.rows (Array.singles b) = map Single.rows (Array.singles a)"
      by (simp add: base_view_def)
    then have "Single.rows (Array.singles b ! s) = Single.rows (Array.singles a ! s)"
      by (rule map_eq_nth)
    with r that show ?thesis by simp
  qed
  have "hd cs \<in> set cs" using csv(2) by simp
  then have "hd cs < length (Array.singles a)" using csv(1) by auto
  then have frn: "fresh_interaction (new_Interaction b cs)"
    by (simp add: fresh_interaction_def new_Interaction_def rows_b fold_inter_empty)
  have "enumerated a (css @ [cs]) b'"
    unfolding enumerated_def
  proof (intro conjI)
    show "base_view b' = base_view a" by (rule bv')
    show "map Interaction.singles (Array.interactions b') = css @ [cs]"
      by (simp add: ints m new_Interaction_def)
    show "\<forall>i\<in>set (Array.interactions b'). fresh_interaction i" using fr frn by (simp add: ints)
    show "\<forall>i<length (css @ [cs]). interaction_map b' (key_of a ((css @ [cs]) ! i)) = Some i"
    proof (intro allI impI)
      fix i assume "i < length (css @ [cs])"
      then consider "i < length css" | "i = length css" by fastforce
      then show "interaction_map b' (key_of a ((css @ [cs]) ! i)) = Some i"
      proof cases
        case 1
        with f1 have s: "interaction_map b (key_of a (css ! i)) = Some i" by simp
        with new have "key_of a (css ! i) \<noteq> key_of a cs" by auto
        with s 1 show ?thesis by (simp add: im' nth_append)
      next
        case 2
        then show ?thesis by (simp add: im')
      qed
    qed
    show "\<forall>ky i. interaction_map b' ky = Some i \<longrightarrow>
            i < length (css @ [cs]) \<and> key_of a ((css @ [cs]) ! i) = ky"
    proof (intro allI impI)
      fix ky i assume s: "interaction_map b' ky = Some i"
      show "i < length (css @ [cs]) \<and> key_of a ((css @ [cs]) ! i) = ky"
      proof (cases "ky = key_of a cs")
        case True
        with s have "i = length css" by (simp add: im')
        with True show ?thesis by simp
      next
        case False
        with s have "interaction_map b ky = Some i" by (simp add: im')
        with f2 have "i < length css \<and> key_of a (css ! i) = ky" by blast
        then show ?thesis by (simp add: nth_append)
      qed
    qed
  qed
  then show ?case by (simp add: b_def b'_def)
qed

lemma view_f_add_single:
  "view_f (add_single i j b) = view_f b"
  "set (Array.singles (add_single i j b)) = insert (new_Single i j) (set (Array.singles b))"
  by (simp_all add: add_single_def Let_def view_f_def)

lemma view_f_build_factors:
  assumes "\<forall>s\<in>set (Array.singles a). Single.rows s = {}"
  shows "view_f (build_factors lvls a) = view_f a \<and>
    (\<forall>s\<in>set (Array.singles (build_factors lvls a)). Single.rows s = {})"
proof -
  define P where "P = (\<lambda>b::Array. view_f b = view_f a \<and> (\<forall>s\<in>set (Array.singles b). Single.rows s = {}))"
  have s: "P (add_single i j b)" if "P b" for i j b
    using that unfolding P_def by (simp add: view_f_add_single new_Single_def)
  have f0: "P (b\<lparr>factors := fs\<rparr>)" if "P b" for fs b
    using that unfolding P_def by (simp add: view_f_def)
  have f: "P (add_factor i lvl b)" if "P b" for i lvl b
    unfolding add_factor_def
    by (rule fold_inv[where P = P]) (simp_all add: s f0 that)
  have "P a" unfolding P_def using assms by simp
  then have "P (fold (\<lambda>i. add_factor i (lvls ! i)) xs a)" for xs
    by (rule fold_inv[where P = P, rotated]) (rule f)
  then have "P (fold (\<lambda>i. add_factor i (lvls ! i)) [0..<num_factors a] a)" .
  then show ?thesis unfolding build_factors_def P_def .
qed

lemma enumerated_well_formed:
  assumes f: "factors_ok a" and t: "1 \<le> t a" "t a \<le> num_factors a"
    and e: "Array.interactions a = []" "interaction_map a = Map.empty" "Array.sets a = []"
    and r: "\<forall>s\<in>set (Array.singles a). Single.rows s = {}"
  shows "well_formed (build_t_way_interactions 0 (t a) [] a) \<and>
         base_view (build_t_way_interactions 0 (t a) [] a) = base_view a \<and>
         (\<forall>i\<in>set (Array.interactions (build_t_way_interactions 0 (t a) [] a)). fresh_interaction i)"
proof -
  define css where "css = combos a 0 (t a)"
  define b where "b = build_t_way_interactions 0 (t a) [] a"
  have b: "b = fold add_interaction css a"
  proof -
    have "map ((@) []) xs = xs" for xs :: "nat list list" by (induction xs) auto
    then show ?thesis by (simp add: b_def css_def build_t_way_flat)
  qed
  have ok: "singles_ok a" using f by (simp add: factors_ok_def)
  have cs: "length cs = t a \<and> set cs \<subseteq> {..<length (Array.singles a)} \<and>
         sorted_wrt (<) (map (\<lambda>s. factor (Array.singles a ! s)) cs)" if "cs \<in> set css" for cs
    using combos_struct[OF f that[unfolded css_def]] by simp
  have v: "\<forall>cs\<in>set css. set cs \<subseteq> {..<length (Array.singles a)} \<and> cs \<noteq> []"
    using cs t(1) by fastforce
  have d: "distinct css" unfolding css_def by (rule combos_distinct[OF f])
  from enumerated_fold[OF ok e(1,2) r v d] have en: "enumerated a css b" by (simp add: b)
  then have bv: "base_view b = base_view a"
    and m: "map Interaction.singles (Array.interactions b) = css"
    and fr: "\<forall>i\<in>set (Array.interactions b). fresh_interaction i"
    and f1: "\<forall>i<length css. interaction_map b (key_of a (css ! i)) = Some i"
    and f2: "\<forall>ky i. interaction_map b ky = Some i \<longrightarrow> i < length css \<and> key_of a (css ! i) = ky"
    by (simp_all add: enumerated_def)
  from m have len: "length (Array.interactions b) = length css" by (metis length_map)
  have nth: "Interaction.singles (Array.interactions b ! i) = css ! i" if "i < length css" for i
    using m that len by (metis nth_map)
  from bv have eqs: "map factor (Array.singles b) = map factor (Array.singles a)"
    "map svalue (Array.singles b) = map svalue (Array.singles a)"
    "factors b = factors a" "num_factors b = num_factors a" "t b = t a" "Array.sets b = Array.sets a"
    by (simp_all add: base_view_def)
  have pt: "factor (Array.singles b ! s) = factor (Array.singles a ! s)"
    "svalue (Array.singles b ! s) = svalue (Array.singles a ! s)" for s
    using eqs(1,2) by (auto intro: map_eq_nth)
  have ls: "length (Array.singles b) = length (Array.singles a)"
    using eqs(1) by (rule map_eq_imp_length_eq)
  have 1: "singles_ok b" using ok unfolding singles_ok_def by (simp add: pt ls eqs)
  have 2: "inter_ok b"
    unfolding inter_ok_def
  proof (intro allI impI)
    fix i assume "i < length (Array.interactions b)"
    then have i: "i < length css" by (simp add: len)
    then have "css ! i \<in> set css" by simp
    from cs[OF this] show "length (Interaction.singles (Array.interactions b ! i)) = t b \<and>
        set (Interaction.singles (Array.interactions b ! i)) \<subseteq> {..<length (Array.singles b)} \<and>
        sorted_wrt (<) (map (\<lambda>s. factor (Array.singles b ! s)) (Interaction.singles (Array.interactions b ! i)))"
      by (simp add: nth[OF i] pt ls eqs)
  qed
  have 3: "imap_ok b"
    unfolding imap_ok_def using f1 f2 by (simp add: len nth key_of_base[OF bv])
  have 4: "sets_ok b" by (simp add: sets_ok_def eqs e fr[unfolded fresh_interaction_def])
  have "well_formed b" unfolding well_formed_def using 1 2 3 4 f t by (simp add: eqs factors_ok_def)
  with bv fr show ?thesis by (simp add: b_def)
qed

section \<open>The sets of the constructor\<close>

lemma fold_upd_interaction:
  assumes idem: "\<And>x. f (f x) = f x"
  shows "fold (\<lambda>i. upd_interaction i f) js a =
         a\<lparr>Array.interactions :=
             map (\<lambda>i. if i \<in> set js then f (Array.interactions a ! i) else Array.interactions a ! i)
               [0..<length (Array.interactions a)]\<rparr>"
proof (induction js arbitrary: a)
  case Nil
  have "map (\<lambda>i. Array.interactions a ! i) [0..<length (Array.interactions a)] = Array.interactions a"
    by (rule map_nth)
  then show ?case by simp
next
  case (Cons j js)
  let ?xs = "Array.interactions a"
  have "map (\<lambda>i. if i \<in> set js then f (?xs[j := f (?xs ! j)] ! i) else ?xs[j := f (?xs ! j)] ! i)
          [0..<length ?xs] =
        map (\<lambda>i. if i \<in> set (j # js) then f (?xs ! i) else ?xs ! i) [0..<length ?xs]"
  proof (rule nth_equalityI)
    fix i assume "i < length (map (\<lambda>i. if i \<in> set js then f (?xs[j := f (?xs ! j)] ! i) else ?xs[j := f (?xs ! j)] ! i)
          [0..<length ?xs])"
    then have i: "i < length ?xs" by simp
    show "map (\<lambda>i. if i \<in> set js then f (?xs[j := f (?xs ! j)] ! i) else ?xs[j := f (?xs ! j)] ! i)
          [0..<length ?xs] ! i =
        map (\<lambda>i. if i \<in> set (j # js) then f (?xs ! i) else ?xs ! i) [0..<length ?xs] ! i"
      using i by (cases "i = j") (simp_all add: idem)
  qed simp
  note eq = this
  have u: "upd_interaction j f a = a\<lparr>Array.interactions := ?xs[j := f (?xs ! j)]\<rparr>"
    by (simp add: upd_interaction_def)
  have "fold (\<lambda>i. upd_interaction i f) (j # js) a = fold (\<lambda>i. upd_interaction i f) js (upd_interaction j f a)"
    by simp
  also have "\<dots> = (upd_interaction j f a)\<lparr>Array.interactions :=
        map (\<lambda>i. if i \<in> set js then f (Array.interactions (upd_interaction j f a) ! i)
                 else Array.interactions (upd_interaction j f a) ! i)
          [0..<length (Array.interactions (upd_interaction j f a))]\<rparr>"
    by (rule Cons.IH)
  also have "\<dots> = a\<lparr>Array.interactions :=
        map (\<lambda>i. if i \<in> set js then f (?xs[j := f (?xs ! j)] ! i) else ?xs[j := f (?xs ! j)] ! i)
          [0..<length ?xs]\<rparr>"
    unfolding u by simp
  also have "\<dots> = a\<lparr>Array.interactions :=
        map (\<lambda>i. if i \<in> set (j # js) then f (?xs ! i) else ?xs ! i) [0..<length ?xs]\<rparr>"
    by (simp only: eq)
  finally show ?case .
qed

lemma fold_union_empty: "\<forall>x\<in>set xs. X x = {} \<Longrightarrow> fold (\<lambda>i r. r \<union> X i) xs {} = {}"
  by (induction xs) auto

lemma add_set_ok:
  assumes so: "sets_ok b" and fr: "\<forall>x\<in>set (Array.sets b). fresh_T x"
    and r: "\<forall>i<length (Array.interactions b). Interaction.rows (Array.interactions b ! i) = {}"
    and sf: "set sf \<subseteq> {..<length (Array.interactions b)}" "sf \<noteq> []"
  shows "sets_ok (add_set sf b) \<and> (\<forall>x\<in>set (Array.sets (add_set sf b)). fresh_T x) \<and>
         view_s (add_set sf b) = view_s b"
proof -
  let ?L = "length (Array.interactions b)"
  let ?n = "length (Array.sets b)"
  let ?g = "Interaction.sets_update (insert ?n)"
  define ints where "ints = map (\<lambda>i. if i \<in> set sf then ?g (Array.interactions b ! i) else Array.interactions b ! i)
               [0..<?L]"
  have a1: "fold (\<lambda>i. upd_interaction i ?g) sf b = b\<lparr>Array.interactions := ints\<rparr>"
    unfolding ints_def by (rule fold_upd_interaction) simp
  have e: "add_set sf b = b\<lparr>Array.interactions := ints, Array.sets := Array.sets b @ [new_T b sf],
             t_set_map := map_insert (t_set_map b) (T_to_string b (new_T b sf)) ?n\<rparr>"
    by (simp add: add_set_def Let_def a1)
  have li: "length ints = ?L" by (simp add: ints_def)
  have ni: "ints ! i = (if i \<in> set sf then ?g (Array.interactions b ! i) else Array.interactions b ! i)"
    if "i < ?L" for i using that by (simp add: ints_def)
  have "hd sf \<in> set sf" using sf(2) by simp
  then have "hd sf < ?L" using sf(1) by auto
  moreover have "\<forall>x\<in>set (tl sf). Interaction.rows (Array.interactions b ! x) = {}"
    using sf r by (auto dest: list.set_sel(2))
  ultimately have nt: "fresh_T (new_T b sf)"
    by (simp add: fresh_T_def new_T_def r fold_union_empty)
  have ti: "T.interactions (new_T b sf) = sf" by (simp add: new_T_def)
  have 1: "sets_ok (add_set sf b)"
    unfolding sets_ok_def e
  proof (intro conjI allI impI)
    fix i assume "i < length (Array.interactions (b\<lparr>Array.interactions := ints, Array.sets := Array.sets b @ [new_T b sf],
             t_set_map := map_insert (t_set_map b) (T_to_string b (new_T b sf)) ?n\<rparr>))"
    then have i: "i < ?L" by (simp add: li)
    from so i have old: "Interaction.sets (Array.interactions b ! i) =
          {k. k < ?n \<and> i \<in> set (T.interactions (Array.sets b ! k))}"
      by (simp add: sets_ok_def)
    have "Interaction.sets (ints ! i) =
          {k. k < Suc ?n \<and> i \<in> set (T.interactions ((Array.sets b @ [new_T b sf]) ! k))}"
      by (auto simp: ni[OF i] old nth_append ti less_Suc_eq)
    then show "Interaction.sets (Array.interactions (b\<lparr>Array.interactions := ints, Array.sets := Array.sets b @ [new_T b sf],
             t_set_map := map_insert (t_set_map b) (T_to_string b (new_T b sf)) ?n\<rparr>) ! i) =
          {k. k < length (Array.sets (b\<lparr>Array.interactions := ints, Array.sets := Array.sets b @ [new_T b sf],
             t_set_map := map_insert (t_set_map b) (T_to_string b (new_T b sf)) ?n\<rparr>)) \<and>
              i \<in> set (T.interactions (Array.sets (b\<lparr>Array.interactions := ints, Array.sets := Array.sets b @ [new_T b sf],
             t_set_map := map_insert (t_set_map b) (T_to_string b (new_T b sf)) ?n\<rparr>) ! k))}"
      by simp
  next
    fix k assume "k < length (Array.sets (b\<lparr>Array.interactions := ints, Array.sets := Array.sets b @ [new_T b sf],
             t_set_map := map_insert (t_set_map b) (T_to_string b (new_T b sf)) ?n\<rparr>))"
    then have "k < ?n \<or> k = ?n" by auto
    then have "set (T.interactions ((Array.sets b @ [new_T b sf]) ! k)) \<subseteq> {..<?L}"
      using so sf(1) by (auto simp: sets_ok_def nth_append ti)
    then show "set (T.interactions (Array.sets (b\<lparr>Array.interactions := ints, Array.sets := Array.sets b @ [new_T b sf],
             t_set_map := map_insert (t_set_map b) (T_to_string b (new_T b sf)) ?n\<rparr>) ! k))
        \<subseteq> {..<length (Array.interactions (b\<lparr>Array.interactions := ints, Array.sets := Array.sets b @ [new_T b sf],
             t_set_map := map_insert (t_set_map b) (T_to_string b (new_T b sf)) ?n\<rparr>))}"
      by (simp add: li)
  qed
  have 2: "\<forall>x\<in>set (Array.sets (add_set sf b)). fresh_T x" using fr nt by (simp add: e)
  have m: "map h ints = map h (Array.interactions b)"
    if "\<And>x. h (?g x) = h x" for h :: "Interaction \<Rightarrow> 'b"
    by (rule nth_equalityI) (auto simp: li ni that)
  have 3: "view_s (add_set sf b) = view_s b"
    by (simp add: view_s_def e m)
  from 1 2 3 show ?thesis by blast
qed

lemma build_size_d_inv2:
  assumes step: "\<And>sf b. P b \<Longrightarrow> set sf \<subseteq> {..<L} \<Longrightarrow> sf \<noteq> [] \<Longrightarrow> P (add_set sf b)"
    and len: "\<And>b. P b \<Longrightarrow> length (Array.interactions b) = L"
  shows "P a \<Longrightarrow> set sf \<subseteq> {..<L} \<Longrightarrow> (dc = 0 \<longrightarrow> sf \<noteq> []) \<Longrightarrow> P (build_size_d_sets start dc sf a)"
proof (induction start dc sf a rule: build_size_d_sets.induct)
  case (1 start sf a)
  then show ?case by (simp add: step)
next
  case (2 start dc sf a)
  have L: "length (Array.interactions a) = L" using "2.prems"(1) by (rule len)
  show ?case
    unfolding build_size_d_sets.simps
  proof (rule fold_inv[where P = P])
    show "P a" by fact
  next
    fix i b assume i: "i \<in> set [start..<length (Array.interactions a) + 1 - Suc dc]" and b: "P b"
    have "set (sf @ [i]) \<subseteq> {..<L}" using i "2.prems"(2) L by auto
    then show "P (build_size_d_sets (i + 1) dc (sf @ [i]) b)"
      by (intro "2.IH"[OF i b]) simp_all
  qed
qed

lemma sets_built:
  assumes so: "Array.sets a = []" and w: "well_formed a"
    and r: "\<forall>i\<in>set (Array.interactions a). fresh_interaction i"
    and d: "dc \<noteq> 0"
  shows "well_formed (build_size_d_sets 0 dc [] a) \<and>
         (\<forall>x\<in>set (Array.sets (build_size_d_sets 0 dc [] a)). fresh_T x) \<and>
         view_s (build_size_d_sets 0 dc [] a) = view_s a"
proof -
  define P where "P = (\<lambda>b::Array. sets_ok b \<and> (\<forall>x\<in>set (Array.sets b). fresh_T x) \<and> view_s b = view_s a)"
  have r0: "Interaction.sets (Array.interactions a ! i) = {}" if "i < length (Array.interactions a)" for i
    using r that by (auto simp: fresh_interaction_def)
  have P0: "P a" unfolding P_def using so r0 by (simp add: sets_ok_def fresh_T_def)
  have len: "length (Array.interactions b) = length (Array.interactions a)" if "P b" for b
  proof -
    from that have "map Interaction.singles (Array.interactions b) = map Interaction.singles (Array.interactions a)"
      by (simp add: P_def view_s_def)
    then show ?thesis by (rule map_eq_imp_length_eq)
  qed
  have step: "P (add_set sf b)"
    if b: "P b" and sf: "set sf \<subseteq> {..<length (Array.interactions a)}" "sf \<noteq> []" for sf b
  proof -
    from b have rr: "map Interaction.rows (Array.interactions b) = map Interaction.rows (Array.interactions a)"
      by (simp add: P_def view_s_def)
    have "Interaction.rows (Array.interactions b ! i) = {}" if "i < length (Array.interactions b)" for i
    proof -
      have "Interaction.rows (Array.interactions b ! i) = Interaction.rows (Array.interactions a ! i)"
        using rr by (rule map_eq_nth)
      moreover have "Array.interactions a ! i \<in> set (Array.interactions a)"
        using that len[OF b] by simp
      ultimately show ?thesis using r by (auto simp: fresh_interaction_def)
    qed
    with add_set_ok[of b sf] b sf len[OF b] show ?thesis by (simp add: P_def)
  qed
  have "P (build_size_d_sets 0 dc [] a)"
  proof (rule build_size_d_inv2[where P = P and L = "length (Array.interactions a)"])
    show "P a" by (rule P0)
    show "\<And>sf b. P b \<Longrightarrow> set sf \<subseteq> {..<length (Array.interactions a)} \<Longrightarrow> sf \<noteq> [] \<Longrightarrow> P (add_set sf b)"
      by (rule step)
    show "\<And>b. P b \<Longrightarrow> length (Array.interactions b) = length (Array.interactions a)" by (rule len)
    show "set [] \<subseteq> {..<length (Array.interactions a)}" by simp
    show "dc = 0 \<longrightarrow> ([]::nat list) \<noteq> []" using d by simp
  qed
  then have so': "sets_ok (build_size_d_sets 0 dc [] a)"
    and fr: "\<forall>x\<in>set (Array.sets (build_size_d_sets 0 dc [] a)). fresh_T x"
    and vs: "view_s (build_size_d_sets 0 dc [] a) = view_s a"
    by (simp_all add: P_def)
  define b where "b = build_size_d_sets 0 dc [] a"
  from vs have eqs: "Array.singles b = Array.singles a" "factors b = factors a" "num_factors b = num_factors a"
    "t b = t a" "interaction_map b = interaction_map a"
    "map Interaction.singles (Array.interactions b) = map Interaction.singles (Array.interactions a)"
    by (simp_all add: view_s_def b_def)
  from eqs(6) have l: "length (Array.interactions b) = length (Array.interactions a)"
    by (rule map_eq_imp_length_eq)
  have n: "Interaction.singles (Array.interactions b ! i) = Interaction.singles (Array.interactions a ! i)" for i
    using eqs(6) by (rule map_eq_nth)
  have 1: "singles_ok b = singles_ok a" by (simp add: singles_ok_def eqs)
  have 2: "inter_ok b = inter_ok a" by (simp add: inter_ok_def eqs l n)
  have 3: "imap_ok b = imap_ok a" by (simp add: imap_ok_def key_of_def eqs l n)
  have "well_formed b" using w so' by (simp add: well_formed_def 1 2 3 eqs b_def[symmetric])
  with fr vs show ?thesis by (simp add: b_def)
qed

section \<open>The Array after construction\<close>

lemma view_c_upd_single:
  "factor (f (Array.singles a ! s)) = factor (Array.singles a ! s) \<Longrightarrow>
   svalue (f (Array.singles a ! s)) = svalue (Array.singles a ! s) \<Longrightarrow>
   Single.rows (f (Array.singles a ! s)) = Single.rows (Array.singles a ! s) \<Longrightarrow>
   view_c (upd_single s f a) = view_c a"
  "Array.interactions (upd_single s f a) = Array.interactions a"
  by (simp_all add: view_c_def upd_single_def map_update_same)

lemma view_c_globals [simp]:
  "view_c (a\<lparr>total_problems := x\<rparr>) = view_c a"
  "view_c (a\<lparr>score := x\<rparr>) = view_c a"
  "view_c (a\<lparr>coverage_problems := x\<rparr>) = view_c a"
  "view_c (a\<lparr>location_problems := x\<rparr>) = view_c a"
  "view_c (a\<lparr>detection_problems := x\<rparr>) = view_c a"
  by (simp_all add: view_c_def)

lemma view_c_reads:
  assumes "view_c b = view_c a"
  shows "factor (Array.singles b ! s) = factor (Array.singles a ! s)"
    and "svalue (Array.singles b ! s) = svalue (Array.singles a ! s)"
    and "Single.rows (Array.singles b ! s) = Single.rows (Array.singles a ! s)"
    and "length (Array.singles b) = length (Array.singles a)"
    and "length (Array.interactions b) = length (Array.interactions a)"
    and "Interaction.singles (Array.interactions b ! i) = Interaction.singles (Array.interactions a ! i)"
    and "Interaction.rows (Array.interactions b ! i) = Interaction.rows (Array.interactions a ! i)"
    and "is_covered (Array.interactions b ! i) = is_covered (Array.interactions a ! i)"
    and "is_detectable (Array.interactions b ! i) = is_detectable (Array.interactions a ! i)"
    and "Interaction.sets (Array.interactions b ! i) = Interaction.sets (Array.interactions a ! i)"
    and "factors b = factors a" and "num_factors b = num_factors a" and "t b = t a" and "d b = d a"
    and "delta b = delta a" and "p b = p a" and "num_tests b = num_tests a" and "Array.rows b = Array.rows a"
    and "interaction_map b = interaction_map a" and "Array.sets b = Array.sets a"
proof -
  from assms have
    e1: "map factor (Array.singles b) = map factor (Array.singles a)" and
    e2: "map svalue (Array.singles b) = map svalue (Array.singles a)" and
    e3: "map Single.rows (Array.singles b) = map Single.rows (Array.singles a)" and
    e4: "map (\<lambda>i. (Interaction.singles i, Interaction.rows i, is_covered i, is_detectable i, Interaction.sets i))
           (Array.interactions b) =
         map (\<lambda>i. (Interaction.singles i, Interaction.rows i, is_covered i, is_detectable i, Interaction.sets i))
           (Array.interactions a)" and
    e5: "factors b = factors a" "num_factors b = num_factors a" "t b = t a" "d b = d a"
      "delta b = delta a" "p b = p a" "num_tests b = num_tests a" "Array.rows b = Array.rows a"
      "interaction_map b = interaction_map a" "Array.sets b = Array.sets a"
    by (simp_all add: view_c_def)
  show "factor (Array.singles b ! s) = factor (Array.singles a ! s)" using e1 by (rule map_eq_nth)
  show "svalue (Array.singles b ! s) = svalue (Array.singles a ! s)" using e2 by (rule map_eq_nth)
  show "Single.rows (Array.singles b ! s) = Single.rows (Array.singles a ! s)" using e3 by (rule map_eq_nth)
  show "length (Array.singles b) = length (Array.singles a)" using e1 by (rule map_eq_imp_length_eq)
  show "length (Array.interactions b) = length (Array.interactions a)" using e4 by (rule map_eq_imp_length_eq)
  have "(\<lambda>i. (Interaction.singles i, Interaction.rows i, is_covered i, is_detectable i, Interaction.sets i))
          (Array.interactions b ! i) =
        (\<lambda>i. (Interaction.singles i, Interaction.rows i, is_covered i, is_detectable i, Interaction.sets i))
          (Array.interactions a ! i)"
    using e4 by (rule map_eq_nth)
  then show "Interaction.singles (Array.interactions b ! i) = Interaction.singles (Array.interactions a ! i)"
    and "Interaction.rows (Array.interactions b ! i) = Interaction.rows (Array.interactions a ! i)"
    and "is_covered (Array.interactions b ! i) = is_covered (Array.interactions a ! i)"
    and "is_detectable (Array.interactions b ! i) = is_detectable (Array.interactions a ! i)"
    and "Interaction.sets (Array.interactions b ! i) = Interaction.sets (Array.interactions a ! i)"
    by simp_all
  show "factors b = factors a" "num_factors b = num_factors a" "t b = t a" "d b = d a"
      "delta b = delta a" "p b = p a" "num_tests b = num_tests a" "Array.rows b = Array.rows a"
      "interaction_map b = interaction_map a" "Array.sets b = Array.sets a"
    by (rule e5)+
qed

lemma well_formed_view_c:
  assumes "view_c b = view_c a"
  shows "well_formed b = well_formed a"
proof -
  note r = view_c_reads[OF assms]
  have 1: "singles_ok b = singles_ok a" by (simp add: singles_ok_def r)
  have 2: "inter_ok b = inter_ok a" by (simp add: inter_ok_def r)
  have 3: "imap_ok b = imap_ok a" by (simp add: imap_ok_def key_of_def Single_to_string_def r)
  have 4: "sets_ok b = sets_ok a" by (simp add: sets_ok_def r)
  show ?thesis by (simp add: well_formed_def 1 2 3 4 r)
qed

lemma unused_view_c:
  assumes "view_c b = view_c a"
  shows "unused b = unused a"
  by (simp add: unused_def view_c_reads[OF assms])

lemma init_location_view: "view_c (init_location a) = view_c a \<and>
  Array.interactions (init_location a) = Array.interactions a"
proof -
  define P where "P = (\<lambda>b::Array. view_c b = view_c a \<and> Array.interactions b = Array.interactions a)"
  define n where "n = (of_nat (length (Array.sets a)) :: u64)"
  have s: "P ((upd_single s (l_issues_update (\<lambda>c. c + n)) b)\<lparr>total_problems := total_problems b + n\<rparr>)"
    if "P b" for s b
    using that by (simp add: P_def view_c_upd_single)
  have "P (fold (\<lambda>k. fold (\<lambda>s b. (upd_single s (l_issues_update (\<lambda>c. c + n)) b)
                                        \<lparr>total_problems := total_problems b + n\<rparr>)
                            (T.singles (Array.sets a ! k)))
                 [0..<length (Array.sets a)] a)"
  proof (rule fold_inv[where P = P])
    show "P a" by (simp add: P_def)
  next
    fix k b assume "P b"
    then show "P (fold (\<lambda>s b. (upd_single s (l_issues_update (\<lambda>c. c + n)) b)
                                        \<lparr>total_problems := total_problems b + n\<rparr>)
                            (T.singles (Array.sets a ! k)) b)"
      by (rule fold_inv[where P = P, rotated]) (rule s)
  qed
  then show ?thesis
    by (simp add: init_location_def Let_def n_def[symmetric] P_def)
qed

lemma map_upd_id: "(map f xs)[i := f (xs ! i)] = map f xs"
  by (simp add: map_update[symmetric])

lemma al_insert_append:
  "\<forall>x\<in>set xs. fst x < k \<Longrightarrow> al_insert k v xs = xs @ [(k, v)]"
  by (induction xs) auto

lemma zero_deltas_Suc:
  "zero_deltas S (Suc m) = (if m \<in> S then zero_deltas S m else al_insert m 0 (zero_deltas S m))"
proof -
  have "\<forall>x\<in>set (zero_deltas S m). fst x < m" by (auto simp: zero_deltas_def)
  from al_insert_append[OF this] show ?thesis by (simp add: zero_deltas_def)
qed

lemma bump_d_view: "view_c (fold bump_d ss b) = view_c b \<and>
   Array.interactions (fold bump_d ss b) = Array.interactions b"
proof -
  define P where "P = (\<lambda>c::Array. view_c c = view_c b \<and> Array.interactions c = Array.interactions b)"
  have "P (fold bump_d ss b)"
    by (rule fold_inv[where P = P]) (simp_all add: P_def bump_d_def view_c_upd_single)
  then show ?thesis by (simp add: P_def)
qed

lemma init_detection_alt:
  "init_detection a =
     (let a1 = fold (\<lambda>i. fold (det_body i) [0..<length (Array.sets a)]) [0..<length (Array.interactions a)] a;
          n = (of_nat (length (Array.interactions a1)) :: u64);
          a2 = a1\<lparr>total_problems := total_problems a1 + n\<rparr>;
          a3 = a2\<lparr>detection_problems := detection_problems a2 + n\<rparr>
      in a3\<lparr>score := score a3 + n\<rparr>)"
proof -
  have b: "bump_d = (\<lambda>s c. (upd_single s (d_issues_update (\<lambda>x. x + delta c)) c)
                  \<lparr>total_problems := total_problems c + delta c, score := score c + delta c\<rparr>)"
    by (intro ext) (simp add: bump_d_def)
  have d: "det_body = (\<lambda>i k b. if k \<notin> Interaction.sets (Array.interactions b ! i)
      then fold bump_d (Interaction.singles (Array.interactions b ! i))
             (upd_interaction i (deltas_update (al_insert k 0)) b)
      else b)"
    by (intro ext) (simp add: det_body_def)
  show ?thesis unfolding init_detection_def d b ..
qed

lemma view_c_upd_deltas:
  "view_c (upd_interaction i (deltas_update f) b) = view_c b"
  by (simp add: view_c_def upd_interaction_def map_update_same)

lemma det_body_effect:
  assumes "i < length (Array.interactions b)"
  shows "view_c (det_body i k b) = view_c b \<and>
         map deltas (Array.interactions (det_body i k b)) =
           (map deltas (Array.interactions b))
             [i := (if k \<in> Interaction.sets (Array.interactions b ! i) then deltas (Array.interactions b ! i)
                    else al_insert k 0 (deltas (Array.interactions b ! i)))]"
proof (cases "k \<in> Interaction.sets (Array.interactions b ! i)")
  case True
  then show ?thesis by (simp add: det_body_def map_upd_id)
next
  case False
  define b1 where "b1 = upd_interaction i (deltas_update (al_insert k 0)) b"
  have 1: "view_c b1 = view_c b" by (simp add: b1_def view_c_upd_deltas)
  have 2: "map deltas (Array.interactions b1) =
           (map deltas (Array.interactions b))[i := al_insert k 0 (deltas (Array.interactions b ! i))]"
    by (simp add: b1_def upd_interaction_def map_update)
  have "det_body i k b = fold bump_d (Interaction.singles (Array.interactions b ! i)) b1"
    using False by (simp add: det_body_def b1_def)
  with bump_d_view[of "Interaction.singles (Array.interactions b ! i)" b1] 1 2 False
  show ?thesis by simp
qed

lemma det_inner:
  assumes i: "i < length (Array.interactions b)" and e: "deltas (Array.interactions b ! i) = []"
  shows "view_c (fold (det_body i) [0..<m] b) = view_c b \<and>
         map deltas (Array.interactions (fold (det_body i) [0..<m] b)) =
           (map deltas (Array.interactions b))
             [i := zero_deltas (Interaction.sets (Array.interactions b ! i)) m]"
proof (induction m)
  case 0
  have "(map deltas (Array.interactions b))[i := deltas (Array.interactions b ! i)] =
        map deltas (Array.interactions b)" by (rule map_upd_id)
  then show ?case by (simp add: zero_deltas_def e)
next
  case (Suc m)
  define c where "c = fold (det_body i) [0..<m] b"
  from Suc have v: "view_c c = view_c b"
    and dl: "map deltas (Array.interactions c) =
           (map deltas (Array.interactions b))[i := zero_deltas (Interaction.sets (Array.interactions b ! i)) m]"
    by (simp_all add: c_def)
  note r = view_c_reads[OF v]
  have ic: "i < length (Array.interactions c)" using i by (simp add: r)
  have "deltas (Array.interactions c ! i) = map deltas (Array.interactions c) ! i"
    using ic by simp
  also have "\<dots> = zero_deltas (Interaction.sets (Array.interactions b ! i)) m"
    using i by (simp add: dl)
  finally have di: "deltas (Array.interactions c ! i) = zero_deltas (Interaction.sets (Array.interactions b ! i)) m" .
  from det_body_effect[OF ic, of m] show ?case
    unfolding fold_upt_Suc c_def[symmetric]
    by (simp add: v r di dl zero_deltas_Suc)
qed

lemma init_detection_view:
  assumes e: "\<forall>i<length (Array.interactions a). deltas (Array.interactions a ! i) = []"
  shows "view_c (init_detection a) = view_c a \<and> deltas_zero (init_detection a)"
proof -
  let ?n = "length (Array.sets a)"
  let ?L = "length (Array.interactions a)"
  define Q where "Q = (\<lambda>j (b::Array). view_c b = view_c a \<and>
     (\<forall>i<?L. deltas (Array.interactions b ! i) =
        (if i < j then zero_deltas (Interaction.sets (Array.interactions a ! i)) ?n else [])))"
  have "Q j (fold (\<lambda>i. fold (det_body i) [0..<?n]) [0..<j] a)" if "j \<le> ?L" for j
    using that
  proof (induction j)
    case 0
    then show ?case using e by (simp add: Q_def)
  next
    case (Suc j)
    define b where "b = fold (\<lambda>i. fold (det_body i) [0..<?n]) [0..<j] a"
    from Suc have q: "Q j b" and j: "j < ?L" by (simp_all add: b_def)
    then have v: "view_c b = view_c a"
      and dl: "\<forall>i<?L. deltas (Array.interactions b ! i) =
        (if i < j then zero_deltas (Interaction.sets (Array.interactions a ! i)) ?n else [])"
      by (simp_all add: Q_def)
    note r = view_c_reads[OF v]
    have jb: "j < length (Array.interactions b)" using j by (simp add: r)
    have ej: "deltas (Array.interactions b ! j) = []" using dl j by simp
    define c where "c = fold (det_body j) [0..<?n] b"
    from det_inner[OF jb ej, of ?n] have vc: "view_c c = view_c b"
      and dc: "map deltas (Array.interactions c) =
           (map deltas (Array.interactions b))[j := zero_deltas (Interaction.sets (Array.interactions b ! j)) ?n]"
      by (simp_all add: c_def)
    have lc: "length (Array.interactions c) = ?L" using view_c_reads(5)[OF vc] r(5) by simp
    have "deltas (Array.interactions c ! i) =
        (if i < Suc j then zero_deltas (Interaction.sets (Array.interactions a ! i)) ?n else [])"
      if "i < ?L" for i
    proof -
      have "deltas (Array.interactions c ! i) = map deltas (Array.interactions c) ! i"
        using that lc by simp
      also have "\<dots> = (if i = j then zero_deltas (Interaction.sets (Array.interactions b ! j)) ?n
                         else deltas (Array.interactions b ! i))"
        using that by (simp add: dc r(5) nth_list_update)
      finally show ?thesis using dl that by (auto simp: r less_Suc_eq)
    qed
    then have "Q (Suc j) c" using vc v by (simp add: Q_def)
    then show ?case unfolding fold_upt_Suc b_def[symmetric] c_def .
  qed
  from this[of ?L] have q: "Q ?L (fold (\<lambda>i. fold (det_body i) [0..<?n]) [0..<?L] a)" by simp
  define a1 where "a1 = fold (\<lambda>i. fold (det_body i) [0..<?n]) [0..<?L] a"
  from q have v: "view_c a1 = view_c a"
    and dl: "\<forall>i<?L. deltas (Array.interactions a1 ! i) = zero_deltas (Interaction.sets (Array.interactions a ! i)) ?n"
    by (simp_all add: Q_def a1_def)
  note r = view_c_reads[OF v]
  define n where "n = (of_nat (length (Array.interactions a1)) :: u64)"
  have ia: "init_detection a = a1\<lparr>total_problems := total_problems a1 + n,
              detection_problems := detection_problems a1 + n, score := score a1 + n\<rparr>"
    by (simp add: init_detection_alt Let_def a1_def[symmetric] n_def)
  have "view_c (init_detection a) = view_c a" by (simp add: ia v)
  moreover have "deltas_zero (init_detection a)"
    unfolding deltas_zero_def ia using dl by (simp add: r)
  ultimately show ?thesis by blast
qed

lemma ctor_initial:
  assumes c: "Array_ctor inp = Inr a" and tn: "in_t inp \<le> in_num_cols inp"
  shows "well_formed a \<and> unused a \<and> num_tests a = in_num_rows inp \<and> p a = in_p inp \<and>
         delta a = in_delta inp \<and> t a = in_t inp \<and> num_factors a = in_num_cols inp \<and>
         (p a = all \<longrightarrow> deltas_zero a)"
proof -
  define a0 where "a0 = Array_default\<lparr>d := in_d inp, t := in_t inp, delta := in_delta inp,
                 num_tests := in_num_rows inp, num_factors := in_num_cols inp,
                 dont_cares := Some (replicate (in_num_cols inp) none),
                 permutation := Some (map int [0..<in_num_cols inp]),
                 p := in_p inp\<rparr>"
  define a1 where "a1 = build_factors (in_levels inp) a0"
  define a2 where "a2 = build_t_way_interactions 0 (t a1) [] a1"
  define a5 where "a5 = a2\<lparr>total_problems := total_problems a2 + of_nat (length (Array.interactions a2)),
     coverage_problems := coverage_problems a2 + of_nat (length (Array.interactions a2)),
     score := score a2 + (total_problems a2 + of_nat (length (Array.interactions a2)))\<rparr>"
  define a6 where "a6 = init_location (build_size_d_sets 0 (d a5) [] a5)"
  from c have g: "in_t inp \<noteq> 0"
    by (auto simp: Array_ctor_def Let_def split: if_splits)
  from c have res: "a = (if p a5 = c_only then a5 else if p a6 \<noteq> all then a6 else init_detection a6)"
    and dn: "p a5 \<noteq> c_only \<longrightarrow> d a5 \<noteq> 0"
    unfolding Array_ctor_def Let_def a0_def[symmetric] a1_def[symmetric] a2_def[symmetric]
    by (auto simp: a5_def a6_def split: if_splits)
  have a0: "factors a0 = []" "Array.singles a0 = []" "num_factors a0 = in_num_cols inp"
    "\<forall>s\<in>set (Array.singles a0). Single.rows s = {}"
    "view_f a0 = ([], Map.empty, [], (in_t inp, in_d inp, in_delta inp, in_p inp), in_num_rows inp, [],
        in_num_cols inp)"
    by (simp_all add: a0_def Array_default_def view_f_def)
  from build_factors_ok[OF a0(1,2,3), of "in_levels inp"]
  have f1: "singles_ok a1" "levels_ok a1" "length (factors a1) = in_num_cols inp"
    by (simp_all add: a1_def)
  from view_f_build_factors[OF a0(4), of "in_levels inp"]
  have v1: "view_f a1 = view_f a0" and r1: "\<forall>s\<in>set (Array.singles a1). Single.rows s = {}"
    by (simp_all add: a1_def)
  from v1 a0(5) have e1: "Array.interactions a1 = []" "interaction_map a1 = Map.empty" "Array.sets a1 = []"
    "t a1 = in_t inp" "d a1 = in_d inp" "delta a1 = in_delta inp" "p a1 = in_p inp"
    "num_tests a1 = in_num_rows inp" "Array.rows a1 = []" "num_factors a1 = in_num_cols inp"
    by (simp_all add: view_f_def)
  have fo: "factors_ok a1" using f1 e1 by (simp add: factors_ok_def)
  from enumerated_well_formed[OF fo _ _ e1(1,2,3) r1] g tn
  have w2: "well_formed a2" and b2: "base_view a2 = base_view a1"
    and fr2: "\<forall>i\<in>set (Array.interactions a2). fresh_interaction i"
    by (simp_all add: a2_def e1)
  from b2 have e2: "map Single.rows (Array.singles a2) = map Single.rows (Array.singles a1)"
    "t a2 = t a1" "d a2 = d a1" "delta a2 = delta a1" "p a2 = p a1" "num_tests a2 = num_tests a1"
    "Array.rows a2 = Array.rows a1" "Array.sets a2 = Array.sets a1" "num_factors a2 = num_factors a1"
    by (simp_all add: base_view_def)
  have r2: "Single.rows (Array.singles a2 ! s) = {}" if "s < length (Array.singles a2)" for s
  proof -
    from e2(1) have l: "length (Array.singles a2) = length (Array.singles a1)"
      by (rule map_eq_imp_length_eq)
    have "Single.rows (Array.singles a2 ! s) = Single.rows (Array.singles a1 ! s)"
      using e2(1) by (rule map_eq_nth)
    with r1 that l show ?thesis by simp
  qed
  have v5: "view_c a5 = view_c a2" by (simp add: a5_def)
  have i5: "Array.interactions a5 = Array.interactions a2" "Array.singles a5 = Array.singles a2"
    by (simp_all add: a5_def)
  have w5: "well_formed a5" using w2 well_formed_view_c[OF v5] by simp
  note q5 = view_c_reads[OF v5]
  have fr5: "\<forall>i\<in>set (Array.interactions a5). fresh_interaction i" using fr2 by (simp add: i5)
  have u5: "unused a5"
    unfolding unused_def using r2 fr5 by (auto simp: i5 q5 e2 e1 fresh_interaction_def)
  have p5: "num_tests a5 = in_num_rows inp" "p a5 = in_p inp" "delta a5 = in_delta inp"
    "t a5 = in_t inp" "num_factors a5 = in_num_cols inp" "Array.sets a5 = []"
    by (simp_all add: q5 e2 e1)
  show ?thesis
  proof (cases "p a5 = c_only")
    case True
    with res have "a = a5" by simp
    with w5 u5 p5 True show ?thesis by simp
  next
    case False
    with dn have d: "d a5 \<noteq> 0" by simp
    define b where "b = build_size_d_sets 0 (d a5) [] a5"
    from sets_built[OF p5(6) w5 fr5 d]
    have wb: "well_formed b" and frb: "\<forall>x\<in>set (Array.sets b). fresh_T x" and vb: "view_s b = view_s a5"
      by (simp_all add: b_def)
    from vb have eb: "Array.singles b = Array.singles a5" "num_tests b = num_tests a5"
      "Array.rows b = Array.rows a5" "p b = p a5" "delta b = delta a5" "t b = t a5"
      "num_factors b = num_factors a5"
      "map Interaction.rows (Array.interactions b) = map Interaction.rows (Array.interactions a5)"
      "map (\<lambda>i. (is_covered i, is_detectable i, deltas i)) (Array.interactions b) =
       map (\<lambda>i. (is_covered i, is_detectable i, deltas i)) (Array.interactions a5)"
      by (simp_all add: view_s_def)
    from eb(8) have lb: "length (Array.interactions b) = length (Array.interactions a5)"
      by (rule map_eq_imp_length_eq)
    have ib: "Interaction.rows (Array.interactions b ! i) = {} \<and> \<not> is_covered (Array.interactions b ! i) \<and>
        \<not> is_detectable (Array.interactions b ! i) \<and> deltas (Array.interactions b ! i) = []"
      if "i < length (Array.interactions b)" for i
    proof -
      have 1: "Interaction.rows (Array.interactions b ! i) = Interaction.rows (Array.interactions a5 ! i)"
        using eb(8) by (rule map_eq_nth)
      have "(\<lambda>i. (is_covered i, is_detectable i, deltas i)) (Array.interactions b ! i) =
            (\<lambda>i. (is_covered i, is_detectable i, deltas i)) (Array.interactions a5 ! i)"
        using eb(9) by (rule map_eq_nth)
      moreover have "fresh_interaction (Array.interactions a5 ! i)" using fr5 that lb by simp
      ultimately show ?thesis using 1 by (simp add: fresh_interaction_def)
    qed
    have ub: "unused b"
      unfolding unused_def using ib frb u5 by (simp add: eb unused_def)
    from init_location_view[of b] have v6: "view_c a6 = view_c b"
      and i6: "Array.interactions a6 = Array.interactions b"
      by (simp_all add: a6_def b_def)
    note q6 = view_c_reads[OF v6]
    have w6: "well_formed a6" using wb well_formed_view_c[OF v6] by simp
    have u6: "unused a6" using ub unused_view_c[OF v6] by simp
    have p6: "num_tests a6 = in_num_rows inp" "p a6 = in_p inp" "delta a6 = in_delta inp"
      "t a6 = in_t inp" "num_factors a6 = in_num_cols inp"
      by (simp_all add: q6 eb p5)
    show ?thesis
    proof (cases "p a6 = all")
      case True
      with res False have ra: "a = init_detection a6" by simp
      have "\<forall>i<length (Array.interactions a6). deltas (Array.interactions a6 ! i) = []"
        using ib by (simp add: i6)
      from init_detection_view[OF this] have v7: "view_c a = view_c a6" and dz: "deltas_zero a"
        by (simp_all add: ra)
      note q7 = view_c_reads[OF v7]
      have "well_formed a" using w6 well_formed_view_c[OF v7] by simp
      moreover have "unused a" using u6 unused_view_c[OF v7] by simp
      ultimately show ?thesis using dz p6 by (simp add: q7)
    next
      case f: False
      with res False have "a = a6" by simp
      with w6 u6 p6 f show ?thesis by simp
    qed
  qed
qed

section \<open>The row sets after a committed row\<close>

lemma row_interactions_found:
  assumes "build_row_interactions a row 0 (t a) [] {} = Inr R"
  shows "\<forall>cols\<in>set (col_combos (num_factors a) 0 (t a)). \<exists>i. interaction_map a (row_key row cols) = Some i"
    and "R = {i. \<exists>cols\<in>set (col_combos (num_factors a) 0 (t a)). interaction_map a (row_key row cols) = Some i}"
  using lookups_result[OF assms[unfolded build_row_flat]] by (simp_all add: row_key_def)

lemma well_formed_single:
  assumes "well_formed a" "s < length (Array.singles a)"
  shows "factor (Array.singles a ! s) < num_factors a"
  using assms unfolding well_formed_def singles_ok_def by auto

lemma well_formed_interaction:
  assumes "well_formed a" "i < length (Array.interactions a)"
  shows "length (Interaction.singles (Array.interactions a ! i)) = t a"
    and "set (Interaction.singles (Array.interactions a ! i)) \<subseteq> {..<length (Array.singles a)}"
    and "sorted_wrt (<) (map (\<lambda>s. factor (Array.singles a ! s)) (Interaction.singles (Array.interactions a ! i)))"
    and "interaction_map a (key_of a (Interaction.singles (Array.interactions a ! i))) = Some i"
  using assms unfolding well_formed_def inter_ok_def imap_ok_def by auto

lemma well_formed_lookup:
  assumes "well_formed a" "interaction_map a ky = Some i"
  shows "i < length (Array.interactions a)" "key_of a (Interaction.singles (Array.interactions a ! i)) = ky"
  using assms unfolding well_formed_def imap_ok_def by blast+

lemma row_matches:
  assumes w: "well_formed a" and R: "build_row_interactions a row 0 (t a) [] {} = Inr R"
  shows "R = {i. i < length (Array.interactions a) \<and> matches a row i}"
proof (intro set_eqI iffI)
  fix i assume "i \<in> R"
  with row_interactions_found(2)[OF R] obtain cols where
    l: "interaction_map a (row_key row cols) = Some i" by auto
  note k = well_formed_lookup[OF w l]
  have "matches a row i"
    unfolding matches_def
  proof
    fix s assume "s \<in> set (Interaction.singles (Array.interactions a ! i))"
    then have "Single_to_string (Array.singles a ! s) \<in> set (key_of a (Interaction.singles (Array.interactions a ! i)))"
      by (simp add: key_of_def)
    then have "Single_to_string (Array.singles a ! s) \<in> set (row_key row cols)" by (simp add: k(2))
    then show "row ! factor (Array.singles a ! s) = int (svalue (Array.singles a ! s))"
      by (auto simp: row_key_def Single_to_string_def)
  qed
  with k(1) show "i \<in> {i. i < length (Array.interactions a) \<and> matches a row i}" by simp
next
  fix i assume "i \<in> {i. i < length (Array.interactions a) \<and> matches a row i}"
  then have i: "i < length (Array.interactions a)" and m: "matches a row i" by simp_all
  let ?ss = "Interaction.singles (Array.interactions a ! i)"
  let ?cols = "map (\<lambda>s. factor (Array.singles a ! s)) ?ss"
  note p = well_formed_interaction[OF w i]
  have "\<forall>c\<in>set ?cols. c < num_factors a"
    using p(2) well_formed_single[OF w] by auto
  then have c: "?cols \<in> set (col_combos (num_factors a) 0 (t a))"
    unfolding col_combos_mem using p(1,3) by simp
  have "row_key row ?cols = key_of a ?ss"
    using m by (simp add: row_key_def key_of_def matches_def Single_to_string_def)
  with p(4) have "interaction_map a (row_key row ?cols) = Some i" by simp
  with c show "i \<in> R" unfolding row_interactions_found(2)[OF R] by blast
qed

lemma row_singles:
  assumes w: "well_formed a" and R: "build_row_interactions a row 0 (t a) [] {} = Inr R"
    and s: "s < length (Array.singles a)"
  shows "s \<in> (\<Union>i\<in>R. set (Interaction.singles (Array.interactions a ! i))) \<longleftrightarrow>
         row ! factor (Array.singles a ! s) = int (svalue (Array.singles a ! s))"
proof
  assume "s \<in> (\<Union>i\<in>R. set (Interaction.singles (Array.interactions a ! i)))"
  then obtain i where "i \<in> R" "s \<in> set (Interaction.singles (Array.interactions a ! i))" by auto
  then show "row ! factor (Array.singles a ! s) = int (svalue (Array.singles a ! s))"
    unfolding row_matches[OF w R] by (simp add: matches_def)
next
  assume m: "row ! factor (Array.singles a ! s) = int (svalue (Array.singles a ! s))"
  from w have t: "1 \<le> t a" "t a \<le> num_factors a" and so: "singles_ok a" by (simp_all add: well_formed_def)
  from col_combo_through[OF t well_formed_single[OF w s]] obtain cols where
    c: "cols \<in> set (col_combos (num_factors a) 0 (t a))" and f: "factor (Array.singles a ! s) \<in> set cols"
    by blast
  from row_interactions_found(1)[OF R] c obtain i where
    l: "interaction_map a (row_key row cols) = Some i" by blast
  with c have iR: "i \<in> R" unfolding row_interactions_found(2)[OF R] by blast
  note k = well_formed_lookup[OF w l]
  from f have "(factor (Array.singles a ! s), row ! factor (Array.singles a ! s)) \<in> set (row_key row cols)"
    by (auto simp: row_key_def)
  then have "Single_to_string (Array.singles a ! s) \<in> set (key_of a (Interaction.singles (Array.interactions a ! i)))"
    by (simp add: k(2) m Single_to_string_def)
  then obtain s' where s': "s' \<in> set (Interaction.singles (Array.interactions a ! i))"
    "Single_to_string (Array.singles a ! s') = Single_to_string (Array.singles a ! s)"
    by (auto simp: key_of_def)
  from well_formed_interaction(2)[OF w k(1)] s'(1) have "s' < length (Array.singles a)" by auto
  from single_key_inj[OF so this s s'(2)] s'(1) iR
  show "s \<in> (\<Union>i\<in>R. set (Interaction.singles (Array.interactions a ! i)))" by auto
qed

lemma well_formed_st_view:
  assumes "st_view b = st_view a"
  shows "well_formed b = well_formed a"
proof -
  note r = st_view_reads[OF assms]
  from assms have f: "factors b = factors a" by (simp add: st_view_def)
  have 1: "singles_ok b = singles_ok a" by (simp add: singles_ok_def r f)
  have 2: "inter_ok b = inter_ok a" by (simp add: inter_ok_def r)
  have 3: "imap_ok b = imap_ok a" by (simp add: imap_ok_def key_of_def Single_to_string_def r)
  have 4: "sets_ok b = sets_ok a" by (simp add: sets_ok_def r)
  show ?thesis by (simp add: well_formed_def 1 2 3 4 r f)
qed

lemma row_id_small: "n < 2 ^ 31 \<Longrightarrow> row_id (of_nat n) = int n"
proof -
  assume n: "n < 2 ^ 31"
  then have n64: "n < 2 ^ 64" and n32: "n < 2 ^ 32" by simp_all
  have u: "unat (of_nat n :: 64 word) = n"
    using n64 by (simp add: unat_of_nat take_bit_nat_eq_self)
  have "(ucast (of_nat n :: 64 word) :: 32 word) = of_nat (unat (of_nat n :: 64 word))"
    by (simp add: unsigned_of_nat)
  then have c: "(ucast (of_nat n :: 64 word) :: 32 word) = of_nat n" by (simp only: u)
  have "sint (word_of_int (int n) :: 32 word) = signed_take_bit (LENGTH(32) - 1) (int n)"
    by (rule sint_sbintrunc')
  also have "\<dots> = int n"
    by (rule signed_take_bit_int_eq_self) (use n in simp_all)
  finally have "sint (of_nat n :: 32 word) = int n" by simp
  with c show ?thesis by (simp add: row_id_def)
qed

lemma row_ids_with_bound: "x \<in> row_ids_with N0 rws f v \<Longrightarrow> int N0 < x \<and> x \<le> int (N0 + length rws)"
  unfolding row_ids_with_def by clarsimp

lemma row_ids_with_snoc:
  "row_ids_with N0 (rws @ [row]) f v =
     row_ids_with N0 rws f v \<union> (if row ! f = v then {int (N0 + length rws + 1)} else {})"
proof (intro set_eqI iffI)
  fix x assume "x \<in> row_ids_with N0 (rws @ [row]) f v"
  then obtain k where k: "x = int (N0 + k + 1)" "k < length rws + 1" "(rws @ [row]) ! k ! f = v"
    unfolding row_ids_with_def by clarsimp
  show "x \<in> row_ids_with N0 rws f v \<union> (if row ! f = v then {int (N0 + length rws + 1)} else {})"
  proof (cases "k < length rws")
    case True
    with k(3) have "rws ! k ! f = v" by (simp add: nth_append)
    with True k(1) have "x \<in> row_ids_with N0 rws f v" unfolding row_ids_with_def by blast
    then show ?thesis by simp
  next
    case False
    with k(2) have e: "k = length rws" by simp
    with k(3) have "row ! f = v" by simp
    with k(1) e show ?thesis by simp
  qed
next
  fix x assume x: "x \<in> row_ids_with N0 rws f v \<union> (if row ! f = v then {int (N0 + length rws + 1)} else {})"
  show "x \<in> row_ids_with N0 (rws @ [row]) f v"
  proof (cases "x \<in> row_ids_with N0 rws f v")
    case True
    then obtain k where k: "x = int (N0 + k + 1)" "k < length rws" "rws ! k ! f = v"
      unfolding row_ids_with_def by clarsimp
    then have "k < length (rws @ [row])" "(rws @ [row]) ! k ! f = v" by (simp_all add: nth_append)
    with k(1) show ?thesis unfolding row_ids_with_def by blast
  next
    case False
    with x have r: "row ! f = v" and e: "x = int (N0 + length rws + 1)" by (auto split: if_splits)
    have "length rws < length (rws @ [row])" "(rws @ [row]) ! length rws ! f = v" using r by simp_all
    with e show ?thesis unfolding row_ids_with_def by blast
  qed
qed

lemma committed:
  assumes u: "update_array row R True a = Inr b" and fR: "finite R"
    and fs: "\<forall>i\<in>R. finite (Interaction.sets (Array.interactions a ! i))"
  shows "st_view b = st_view a"
    and "Array.rows b = Array.rows a @ [row]"
    and "num_tests b = num_tests a + 1"
    and "\<forall>s<length (Array.singles a). Single.rows (Array.singles b ! s) =
           (if s \<in> (\<Union>i\<in>R. set (Interaction.singles (Array.interactions a ! i)))
            then insert (row_id (num_tests a + 1)) (Single.rows (Array.singles a ! s))
            else Single.rows (Array.singles a ! s))"
    and "\<forall>i<length (Array.interactions a). Interaction.rows (Array.interactions b ! i) =
           (if i \<in> R then insert (row_id (num_tests a + 1)) (Interaction.rows (Array.interactions a ! i))
            else Interaction.rows (Array.interactions a ! i))"
    and "\<forall>k<length (Array.sets a). T.rows (Array.sets b ! k) =
           (if k \<in> (\<Union>i\<in>R. Interaction.sets (Array.interactions a ! i))
            then insert (row_id (num_tests a + 1)) (T.rows (Array.sets a ! k))
            else T.rows (Array.sets a ! k))"
proof -
  let ?k = "row_id (num_tests a + 1)"
  let ?L = "sorted_list_of_set R"
  have sL: "set ?L = R" using fR by simp
  obtain a3 rs where f: "fold (insert_row ?k) ?L (pushed row a, {}) = (a3, rs)"
    by (cases "fold (insert_row ?k) ?L (pushed row a, {})")
  from marked_insert_rows[OF f]
  have m3: "marked (insert ?k) (\<Union>i\<in>R. set (Interaction.singles (Array.interactions a ! i))) R
              (\<Union>i\<in>R. set (sorted_list_of_set (Interaction.sets (Array.interactions a ! i))))
              (pushed row a) a3"
    by (simp add: pushed_def sL)
  have TT: "(\<Union>i\<in>R. set (sorted_list_of_set (Interaction.sets (Array.interactions a ! i)))) =
            (\<Union>i\<in>R. Interaction.sets (Array.interactions a ! i))"
    using fs by simp
  from update_array_True[OF u] f have mb: "mid_view b = mid_view a3" by simp
  then have stb: "st_view b = st_view a3" and rvb: "rows_view b = rows_view a3"
    by (simp_all add: mid_view_def)
  from m3 have st3: "st_view a3 = st_view (pushed row a)" by (simp add: marked_def)
  show "st_view b = st_view a" using stb st3 by (simp add: pushed_def st_view_def)
  show "Array.rows b = Array.rows a @ [row]" "num_tests b = num_tests a + 1"
    using rvb m3 by (simp_all add: rows_view_def marked_def pushed_def)
  from rvb m3 have
    1: "map Single.rows (Array.singles b) =
       map (\<lambda>s. if s \<in> (\<Union>i\<in>R. set (Interaction.singles (Array.interactions a ! i)))
                then insert ?k (Single.rows (Array.singles a ! s)) else Single.rows (Array.singles a ! s))
         [0..<length (Array.singles a)]" and
    2: "map Interaction.rows (Array.interactions b) =
       map (\<lambda>i. if i \<in> R then insert ?k (Interaction.rows (Array.interactions a ! i))
                else Interaction.rows (Array.interactions a ! i))
         [0..<length (Array.interactions a)]" and
    3: "map T.rows (Array.sets b) =
       map (\<lambda>k. if k \<in> (\<Union>i\<in>R. Interaction.sets (Array.interactions a ! i))
                then insert ?k (T.rows (Array.sets a ! k)) else T.rows (Array.sets a ! k))
         [0..<length (Array.sets a)]"
    by (simp_all add: rows_view_def marked_def pushed_def TT)
  from 1 show "\<forall>s<length (Array.singles a). Single.rows (Array.singles b ! s) =
           (if s \<in> (\<Union>i\<in>R. set (Interaction.singles (Array.interactions a ! i)))
            then insert ?k (Single.rows (Array.singles a ! s))
            else Single.rows (Array.singles a ! s))"
    unfolding map_nth_eq_conv by simp
  from 2 show "\<forall>i<length (Array.interactions a). Interaction.rows (Array.interactions b ! i) =
           (if i \<in> R then insert ?k (Interaction.rows (Array.interactions a ! i))
            else Interaction.rows (Array.interactions a ! i))"
    unfolding map_nth_eq_conv by simp
  from 3 show "\<forall>k<length (Array.sets a). T.rows (Array.sets b ! k) =
           (if k \<in> (\<Union>i\<in>R. Interaction.sets (Array.interactions a ! i))
            then insert ?k (T.rows (Array.sets a ! k))
            else T.rows (Array.sets a ! k))"
    unfolding map_nth_eq_conv by simp
qed

lemma well_formed_sets:
  assumes "well_formed a" "i < length (Array.interactions a)"
  shows "Interaction.sets (Array.interactions a ! i) =
          {k. k < length (Array.sets a) \<and> i \<in> set (T.interactions (Array.sets a ! k))}"
    and "finite (Interaction.sets (Array.interactions a ! i))"
proof -
  show e: "Interaction.sets (Array.interactions a ! i) =
          {k. k < length (Array.sets a) \<and> i \<in> set (T.interactions (Array.sets a ! k))}"
    using assms unfolding well_formed_def sets_ok_def by blast
  show "finite (Interaction.sets (Array.interactions a ! i))" unfolding e by simp
qed

lemma well_formed_set_members:
  assumes "well_formed a" "k < length (Array.sets a)"
  shows "set (T.interactions (Array.sets a ! k)) \<subseteq> {..<length (Array.interactions a)}"
  using assms unfolding well_formed_def sets_ok_def by blast

lemma commit_rows_ok:
  assumes w: "well_formed a" and ro: "rows_ok N0 a" and bound: "N0 + length (Array.rows a) + 1 < 2 ^ 31"
    and c: "commit_row row True a = Inr b"
  shows "well_formed b \<and> rows_ok N0 b \<and> Array.rows b = Array.rows a @ [row] \<and> st_view b = st_view a"
proof -
  from c obtain R where R: "build_row_interactions a row 0 (t a) [] {} = Inr R"
    and u: "update_array row R True a = Inr b"
    by (auto simp: commit_row_def split: sum.splits)
  note Rm = row_matches[OF w R]
  have fR: "finite R" unfolding Rm by simp
  have Rv: "i < length (Array.interactions a)" if "i \<in> R" for i using that unfolding Rm by simp
  have fs: "\<forall>i\<in>R. finite (Interaction.sets (Array.interactions a ! i))"
    using well_formed_sets(2)[OF w] Rv by blast
  note cm = committed[OF u fR fs]
  note r = st_view_reads[OF cm(1)]
  let ?n = "length (Array.rows a)"
  let ?k = "int (N0 + ?n + 1)"
  let ?SS = "\<Union>i\<in>R. set (Interaction.singles (Array.interactions a ! i))"
  from ro have nt: "num_tests a = of_nat (N0 + ?n)"
    and rs: "\<forall>s<length (Array.singles a).
        Single.rows (Array.singles a ! s) =
          row_ids_with N0 (Array.rows a) (factor (Array.singles a ! s)) (int (svalue (Array.singles a ! s)))"
    and ri: "\<forall>i<length (Array.interactions a).
        Interaction.rows (Array.interactions a ! i) =
          (\<Inter>s\<in>set (Interaction.singles (Array.interactions a ! i)). Single.rows (Array.singles a ! s))"
    and rt: "\<forall>k<length (Array.sets a).
        T.rows (Array.sets a ! k) =
          (\<Union>i\<in>set (T.interactions (Array.sets a ! k)). Interaction.rows (Array.interactions a ! i))"
    by (simp_all add: rows_ok_def)
  have "num_tests a + 1 = of_nat (N0 + ?n + 1)" by (simp add: nt)
  then have k: "row_id (num_tests a + 1) = ?k" by (simp only: row_id_small[OF bound])
  have wb: "well_formed b" using w well_formed_st_view[OF cm(1)] by simp
  have fresh: "?k \<notin> Single.rows (Array.singles a ! s)" if "s < length (Array.singles a)" for s
  proof
    assume "?k \<in> Single.rows (Array.singles a ! s)"
    with rs that have "?k \<in> row_ids_with N0 (Array.rows a) (factor (Array.singles a ! s))
        (int (svalue (Array.singles a ! s)))" by simp
    from row_ids_with_bound[OF this] show False by simp
  qed
  have S: "Single.rows (Array.singles b ! s) =
          row_ids_with N0 (Array.rows a @ [row]) (factor (Array.singles a ! s)) (int (svalue (Array.singles a ! s)))"
    if s: "s < length (Array.singles a)" for s
  proof -
    have "Single.rows (Array.singles b ! s) =
          (if s \<in> ?SS then insert ?k (Single.rows (Array.singles a ! s))
           else Single.rows (Array.singles a ! s))"
      using cm(4) s by (simp add: k)
    also have "\<dots> = row_ids_with N0 (Array.rows a) (factor (Array.singles a ! s)) (int (svalue (Array.singles a ! s)))
          \<union> (if row ! factor (Array.singles a ! s) = int (svalue (Array.singles a ! s)) then {?k} else {})"
      using rs s row_singles[OF w R s] by simp
    finally show ?thesis by (simp only: row_ids_with_snoc)
  qed
  have Snew: "Single.rows (Array.singles b ! s) =
        (if s \<in> ?SS then insert ?k (Single.rows (Array.singles a ! s)) else Single.rows (Array.singles a ! s))"
    if "s < length (Array.singles a)" for s
    using cm(4) that by (simp add: k)
  have I: "Interaction.rows (Array.interactions b ! i) =
          (\<Inter>s\<in>set (Interaction.singles (Array.interactions a ! i)). Single.rows (Array.singles b ! s))"
    if i: "i < length (Array.interactions a)" for i
  proof -
    let ?ss = "set (Interaction.singles (Array.interactions a ! i))"
    have v: "?ss \<subseteq> {..<length (Array.singles a)}" by (rule well_formed_interaction(2)[OF w i])
    have old: "Interaction.rows (Array.interactions a ! i) = (\<Inter>s\<in>?ss. Single.rows (Array.singles a ! s))"
      using ri i by simp
    show ?thesis
    proof (cases "i \<in> R")
      case True
      then have "?ss \<subseteq> ?SS" by blast
      then have "(\<Inter>s\<in>?ss. Single.rows (Array.singles b ! s)) =
                 (\<Inter>s\<in>?ss. insert ?k (Single.rows (Array.singles a ! s)))"
      proof (intro INF_cong refl)
        fix s assume s: "s \<in> ?ss"
        with v have "s < length (Array.singles a)" by auto
        from Snew[OF this] s \<open>?ss \<subseteq> ?SS\<close>
        show "Single.rows (Array.singles b ! s) = insert ?k (Single.rows (Array.singles a ! s))"
          by (simp add: subset_iff)
      qed
      also have "\<dots> = insert ?k (\<Inter>s\<in>?ss. Single.rows (Array.singles a ! s))" by auto
      finally show ?thesis using cm(5) i True old by (simp add: k)
    next
      case False
      with i have "\<not> matches a row i" unfolding Rm by simp
      then obtain s0 where s0: "s0 \<in> ?ss"
        "row ! factor (Array.singles a ! s0) \<noteq> int (svalue (Array.singles a ! s0))"
        by (auto simp: matches_def)
      from s0(1) v have s0v: "s0 < length (Array.singles a)" by auto
      from s0(2) row_singles[OF w R s0v] have "s0 \<notin> ?SS" by simp
      with Snew[OF s0v] have e0: "Single.rows (Array.singles b ! s0) = Single.rows (Array.singles a ! s0)"
        by simp
      have "(\<Inter>s\<in>?ss. Single.rows (Array.singles b ! s)) = (\<Inter>s\<in>?ss. Single.rows (Array.singles a ! s))"
      proof (intro set_eqI iffI)
        fix x assume x: "x \<in> (\<Inter>s\<in>?ss. Single.rows (Array.singles b ! s))"
        with s0(1) have "x \<in> Single.rows (Array.singles b ! s0)" by blast
        with e0 fresh[OF s0v] have "x \<noteq> ?k" by auto
        show "x \<in> (\<Inter>s\<in>?ss. Single.rows (Array.singles a ! s))"
        proof
          fix s assume s: "s \<in> ?ss"
          with x have "x \<in> Single.rows (Array.singles b ! s)" by blast
          moreover from s v have "s < length (Array.singles a)" by auto
          ultimately show "x \<in> Single.rows (Array.singles a ! s)"
            using Snew[of s] \<open>x \<noteq> ?k\<close> by (auto split: if_splits)
        qed
      next
        fix x assume x: "x \<in> (\<Inter>s\<in>?ss. Single.rows (Array.singles a ! s))"
        show "x \<in> (\<Inter>s\<in>?ss. Single.rows (Array.singles b ! s))"
        proof
          fix s assume s: "s \<in> ?ss"
          with x have "x \<in> Single.rows (Array.singles a ! s)" by blast
          moreover from s v have "s < length (Array.singles a)" by auto
          ultimately show "x \<in> Single.rows (Array.singles b ! s)"
            using Snew[of s] by auto
        qed
      qed
      then show ?thesis using cm(5) i False old by simp
    qed
  qed
  have Inew: "Interaction.rows (Array.interactions b ! i) =
        (if i \<in> R then insert ?k (Interaction.rows (Array.interactions a ! i))
         else Interaction.rows (Array.interactions a ! i))"
    if "i < length (Array.interactions a)" for i
    using cm(5) that by (simp add: k)
  have Tn: "T.rows (Array.sets b ! x) =
          (\<Union>i\<in>set (T.interactions (Array.sets a ! x)). Interaction.rows (Array.interactions b ! i))"
    if x: "x < length (Array.sets a)" for x
  proof -
    let ?is = "set (T.interactions (Array.sets a ! x))"
    have v: "?is \<subseteq> {..<length (Array.interactions a)}" by (rule well_formed_set_members[OF w x])
    have old: "T.rows (Array.sets a ! x) = (\<Union>i\<in>?is. Interaction.rows (Array.interactions a ! i))"
      using rt x by simp
    have mem: "x \<in> (\<Union>i\<in>R. Interaction.sets (Array.interactions a ! i)) \<longleftrightarrow> (\<exists>i\<in>R. i \<in> ?is)"
      using well_formed_sets(1)[OF w] Rv x by auto
    have "(\<Union>i\<in>?is. Interaction.rows (Array.interactions b ! i)) =
          (\<Union>i\<in>?is. if i \<in> R then insert ?k (Interaction.rows (Array.interactions a ! i))
                       else Interaction.rows (Array.interactions a ! i))"
    proof (intro SUP_cong refl)
      fix i assume "i \<in> ?is"
      with v have "i < length (Array.interactions a)" by auto
      from Inew[OF this]
      show "Interaction.rows (Array.interactions b ! i) =
            (if i \<in> R then insert ?k (Interaction.rows (Array.interactions a ! i))
             else Interaction.rows (Array.interactions a ! i))" .
    qed
    also have "\<dots> = (if \<exists>i\<in>R. i \<in> ?is then insert ?k (\<Union>i\<in>?is. Interaction.rows (Array.interactions a ! i))
                      else (\<Union>i\<in>?is. Interaction.rows (Array.interactions a ! i)))"
      by (auto split: if_splits)
    finally show ?thesis using cm(6) x old mem by (simp add: k)
  qed
  have "rows_ok N0 b"
    unfolding rows_ok_def
  proof (intro conjI allI impI)
    show "num_tests b = of_nat (N0 + length (Array.rows b))" by (simp add: cm nt)
  next
    fix s assume "s < length (Array.singles b)"
    then have "s < length (Array.singles a)" by (simp add: r)
    from S[OF this] show "Single.rows (Array.singles b ! s) =
         row_ids_with N0 (Array.rows b) (factor (Array.singles b ! s)) (int (svalue (Array.singles b ! s)))"
      by (simp add: cm r)
  next
    fix i assume "i < length (Array.interactions b)"
    then have "i < length (Array.interactions a)" by (simp add: r)
    from I[OF this] show "Interaction.rows (Array.interactions b ! i) =
         (\<Inter>s\<in>set (Interaction.singles (Array.interactions b ! i)). Single.rows (Array.singles b ! s))"
      by (simp add: r)
  next
    fix x assume "x < length (Array.sets b)"
    then have "x < length (Array.sets a)" by (simp add: r)
    from Tn[OF this] show "T.rows (Array.sets b ! x) =
         (\<Union>i\<in>set (T.interactions (Array.sets b ! x)). Interaction.rows (Array.interactions b ! i))"
      by (simp add: r)
  qed
  with wb cm show ?thesis by simp
qed

lemma shuffle_frame:
  assumes "shuffle_permutation (a, r) = Inr (a', r')"
  shows "\<exists>pm. a' = a\<lparr>permutation := pm\<rparr>"
proof -
  define P where "P = (\<lambda>st :: Array \<times> rng. \<exists>pm. fst st = a\<lparr>permutation := pm\<rparr>)"
  have "P (a', r')"
  proof (rule fold_err_inv[where P = P, OF _ _ assms[unfolded shuffle_permutation_def prod.case]])
    show "P (a, r)" unfolding P_def by (intro exI[of _ "permutation a"]) simp
  next
    fix sz st st' assume "P st" and s: "shuffle_step sz st = Inr st'"
    then obtain pm where pm: "fst st = a\<lparr>permutation := pm\<rparr>" by (auto simp: P_def)
    obtain b rb where st: "st = (b, rb)" by (cases st)
    from s st obtain pm' where "fst st' = b\<lparr>permutation := pm'\<rparr>"
      by (auto simp: shuffle_step_def Let_def split: option.splits prod.splits)
    with pm st show "P st'" by (auto simp: P_def)
  qed
  then show ?thesis by (simp add: P_def)
qed

lemma initialize_row_frame:
  "initialize_row (a, r) = Inr (x, a', r') \<Longrightarrow> a' = a"
  by (auto simp: initialize_row_def initialize_row_S_def initialize_row_T_def initialize_row_R_def Let_def
      split: if_splits sum.splits prod.splits)

lemma heuristic_c_only_frame:
  "heuristic_c_only row (a, r) = Inr (row', a', r') \<Longrightarrow> a' = a"
  by (auto simp: heuristic_c_only_def Let_def split: sum.splits if_splits prod.splits option.splits)

lemma heuristic_all_frame:
  "heuristic_all al row (a, r) = Inr (row', a', r') \<Longrightarrow> a' = a"
  by (auto simp: heuristic_all_def Let_def split: sum.splits if_splits prod.splits
        dest: heuristic_all_helper_frame)

lemma tweak_row_frame:
  "tweak_row al row locked (a, r) = Inr (row', a', r') \<Longrightarrow> a' = a"
  by (auto simp: tweak_row_def heuristic_d_only_def split: prop_mode.splits option.splits
        dest: heuristic_c_only_frame heuristic_all_frame heuristic_l_only_frame)

lemma add_random_row_commits:
  assumes "add_random_row (a, r) = Inr (a', r')"
  shows "\<exists>row. commit_row row True a = Inr a'"
  using assms
  by (auto simp: add_random_row_def initialize_row_R_def split: sum.splits prod.splits)

lemma add_row_commits:
  assumes "add_row al (a, r) = Inr (a', r')"
  shows "\<exists>row pm. commit_row row True (a\<lparr>permutation := pm\<rparr>) = Inr a'"
proof -
  from assms obtain a1 r1 x a2 r2 row a3 r3 where
    1: "shuffle_permutation (a, r) = Inr (a1, r1)" and
    2: "initialize_row (a1, r1) = Inr (x, a2, r2)" and
    3: "tweak_row al (fst x) (snd x) (a2, r2) = Inr (row, a3, r3)" and
    4: "commit_row row True a3 = Inr a'"
    by (auto simp: add_row_def split: sum.splits prod.splits)
  from shuffle_frame[OF 1] obtain pm where "a1 = a\<lparr>permutation := pm\<rparr>" by blast
  moreover from initialize_row_frame[OF 2] have "a2 = a1" .
  moreover from tweak_row_frame[OF 3] have "a3 = a2" .
  ultimately show ?thesis using 4 by auto
qed

lemma well_formed_permutation [simp]: "well_formed (a\<lparr>permutation := pm\<rparr>) = well_formed a"
  by (rule well_formed_view_c) (simp add: view_c_def)

lemma rows_ok_permutation [simp]: "rows_ok N0 (a\<lparr>permutation := pm\<rparr>) = rows_ok N0 a"
  by (simp add: rows_ok_def)

lemma call_rows_ok:
  assumes w: "well_formed a" and ro: "rows_ok N0 a" and bound: "N0 + length (Array.rows a) + 1 < 2 ^ 31"
    and c: "(if h then add_row al else add_random_row) (a, r) = Inr (a', r')"
  shows "well_formed a' \<and> rows_ok N0 a' \<and> length (Array.rows a') = length (Array.rows a) + 1"
proof -
  from c obtain row pm where cr: "commit_row row True (a\<lparr>permutation := pm\<rparr>) = Inr a'"
  proof (cases h)
    case True
    with c add_row_commits[of al a r a' r'] that show ?thesis by auto
  next
    case False
    with c add_random_row_commits[of a r a' r'] obtain row where "commit_row row True a = Inr a'" by auto
    then have "commit_row row True (a\<lparr>permutation := permutation a\<rparr>) = Inr a'" by simp
    with that show ?thesis by blast
  qed
  have "well_formed (a\<lparr>permutation := pm\<rparr>)" "rows_ok N0 (a\<lparr>permutation := pm\<rparr>)"
    "N0 + length (Array.rows (a\<lparr>permutation := pm\<rparr>)) + 1 < 2 ^ 31"
    using w ro bound by simp_all
  from commit_rows_ok[OF this cr] show ?thesis by simp
qed

lemma run_rows_ok:
  assumes w: "well_formed a" and ro: "rows_ok N0 a"
  shows "N0 + length (Array.rows a) + length calls < 2 ^ 31 \<Longrightarrow> run al calls (a, r) = Inr (a', r') \<Longrightarrow>
         well_formed a' \<and> rows_ok N0 a' \<and> length (Array.rows a') = length (Array.rows a) + length calls"
  using w ro
proof (induction calls arbitrary: a r)
  case Nil
  then show ?case by (simp add: run_def)
next
  case (Cons h calls)
  from Cons.prems(2) obtain a1 r1 where
    1: "(if h then add_row al else add_random_row) (a, r) = Inr (a1, r1)" and
    2: "run al calls (a1, r1) = Inr (a', r')"
    by (auto simp: run_def split: sum.splits)
  from Cons.prems(1) have b: "N0 + length (Array.rows a) + 1 < 2 ^ 31" by simp
  from call_rows_ok[OF Cons.prems(3,4) b 1] have
    s: "well_formed a1" "rows_ok N0 a1" "length (Array.rows a1) = length (Array.rows a) + 1" by simp_all
  from Cons.prems(1) s(3) have "N0 + length (Array.rows a1) + length calls < 2 ^ 31" by simp
  from Cons.IH[OF this 2 s(1,2)] s(3) show ?case by simp
qed

lemma initial_rows_ok:
  assumes w: "well_formed a" and u: "unused a"
  shows "rows_ok (unat (num_tests a)) a"
proof -
  from u have e: "Array.rows a = []"
    and s: "\<forall>s<length (Array.singles a). Single.rows (Array.singles a ! s) = {}"
    and i: "\<forall>i<length (Array.interactions a). Interaction.rows (Array.interactions a ! i) = {}"
    and t: "\<forall>x\<in>set (Array.sets a). fresh_T x"
    by (simp_all add: unused_def)
  have 1: "(\<Inter>s\<in>set (Interaction.singles (Array.interactions a ! i)). Single.rows (Array.singles a ! s)) = {}"
    if i: "i < length (Array.interactions a)" for i
  proof -
    from w have "1 \<le> t a" by (simp add: well_formed_def)
    with well_formed_interaction(1)[OF w i] have "Interaction.singles (Array.interactions a ! i) \<noteq> []" by auto
    then obtain s0 where s0: "s0 \<in> set (Interaction.singles (Array.interactions a ! i))"
      by (cases "Interaction.singles (Array.interactions a ! i)") auto
    with well_formed_interaction(2)[OF w i] have "s0 < length (Array.singles a)" by auto
    with s have "Single.rows (Array.singles a ! s0) = {}" by simp
    with s0 show ?thesis by blast
  qed
  have 2: "(\<Union>i\<in>set (T.interactions (Array.sets a ! k)). Interaction.rows (Array.interactions a ! i)) = {}"
    if k: "k < length (Array.sets a)" for k
    using well_formed_set_members[OF w k] i by auto
  have 3: "T.rows (Array.sets a ! k) = {}" if k: "k < length (Array.sets a)" for k
    using t k by (simp add: fresh_T_def)
  show ?thesis
    unfolding rows_ok_def by (simp add: e s i 1 2 3 row_ids_with_def)
qed

section \<open>C1: the score identity\<close>

text \<open>
  C1 says that after construction, for every phase, the score equals
  \<open>coverage_problems + location_problems + detection_problems\<close> plus the sum of the three
  issue counters of all Singles. In the phase coverage-only the constructor leaves the
  enumeration with \<open>score = total_problems = 8\<close> (one per Single of each of the four
  Interactions), adds the four Interactions to \<open>total_problems\<close>, and then runs
  \<^verbatim>\<open>score += total_problems\<close>: the score is 20, the right-hand side of the identity is 12.
  The other phases overwrite the score with \<^verbatim>\<open>score = total_problems\<close> a few lines later.
\<close>

theorem score_identity_broken_c_only:
  "\<exists>a. Array_ctor (parser_22 c_only) = Inr a \<and> score a = 20 \<and> coverage_problems a = 4 \<and>
       location_problems a = 0 \<and> detection_problems a = 0 \<and> singles_sum a = 8 \<and>
       \<not> score_identity a"
proof -
  have "case Array_ctor (parser_22 c_only) of
          Inl e \<Rightarrow> False
        | Inr a \<Rightarrow> score a = 20 \<and> coverage_problems a = 4 \<and> location_problems a = 0 \<and>
                   detection_problems a = 0 \<and> singles_sum a = 8 \<and> \<not> score_identity a"
    by code_simp
  then show ?thesis by (cases "Array_ctor (parser_22 c_only)") auto
qed


section \<open>C2: the row sets\<close>

text \<open>
  C2 as claimed, with the committed rows numbered from 0, fails after the first row: the row
  \<open>[1, 1]\<close> committed to the Array of two factors with two levels is stored under the id 1 in the
  Single of factor 0 and value 1, because \<^verbatim>\<open>update_array\<close> increments \<^verbatim>\<open>num_tests\<close> before it
  inserts it; the set of the claim is \<open>{0}\<close>, and 1 is not in \<open>[0, num_tests)\<close>.
\<close>

theorem one_row_has_id_one:
  "\<exists>a r. add_random_row (array_22 all, rng_110) = Inr (a, r) \<and> num_tests a = 1 \<and>
         Array.rows a = [[1, 1]] \<and> factor (Array.singles a ! 1) = 0 \<and> svalue (Array.singles a ! 1) = 1 \<and>
         Single.rows (Array.singles a ! 1) = {1} \<and>
         {int k |k. k < length (Array.rows a) \<and>
            Array.rows a ! k ! factor (Array.singles a ! 1) = int (svalue (Array.singles a ! 1))} = {0}"
proof -
  have "case add_random_row (array_22 all, rng_110) of
          Inl e \<Rightarrow> False
        | Inr (a, r) \<Rightarrow> num_tests a = 1 \<and> Array.rows a = [[1, 1]] \<and> factor (Array.singles a ! 1) = 0 \<and>
            svalue (Array.singles a ! 1) = 1 \<and> Single.rows (Array.singles a ! 1) = {1}"
    by code_simp
  then obtain a r where a: "add_random_row (array_22 all, rng_110) = Inr (a, r)" "num_tests a = 1"
    "Array.rows a = [[1, 1]]" "factor (Array.singles a ! 1) = 0" "svalue (Array.singles a ! 1) = 1"
    "Single.rows (Array.singles a ! 1) = {1}"
    by (cases "add_random_row (array_22 all, rng_110)") auto
  have "{int k |k. k < length [[1, 1 :: int]] \<and> [[1, 1]] ! k ! (0::nat) = int 1} = {0}"
    by auto
  then have "{int k |k. k < length (Array.rows a) \<and>
            Array.rows a ! k ! factor (Array.singles a ! 1) = int (svalue (Array.singles a ! 1))} = {0}"
    by (simp only: a)
  with a show ?thesis by blast
qed

text \<open>
  C2, amended: after any sequence of calls of \<^verbatim>\<open>add_row\<close> and \<^verbatim>\<open>add_random_row\<close> that return, on
  an Array built with \<open>t \<le> num_factors\<close> and fewer than \<open>2^31\<close> rows in all, the \<open>k\<close>-th committed row
  (from 0) has the id \<open>num_rows + k + 1\<close>, where \<open>num_rows\<close> is the \<^verbatim>\<open>num_tests\<close> the constructor starts
  from; the rows of every Single are the ids of the rows that hold its value in its factor, the
  rows of every Interaction are the intersection of the rows of its Singles, the rows of every set
  are the union of the rows of its Interactions, and every id stored lies in
  \<open>[num_rows + 1, num_tests]\<close>.
\<close>

theorem rows_sets_are_consistent:
  assumes "Array_ctor inp = Inr a0" and "in_t inp \<le> in_num_cols inp"
    and "run al calls (a0, r) = Inr (a, r')"
    and "unat (in_num_rows inp) + length calls < 2 ^ 31"
  shows "length (Array.rows a) = length calls \<and>
         num_tests a = in_num_rows inp + of_nat (length calls) \<and>
         (\<forall>s<length (Array.singles a).
            Single.rows (Array.singles a ! s) =
              {int (unat (in_num_rows inp) + k + 1) |k. k < length (Array.rows a) \<and>
                 Array.rows a ! k ! factor (Array.singles a ! s) = int (svalue (Array.singles a ! s))}) \<and>
         (\<forall>i<length (Array.interactions a).
            Interaction.rows (Array.interactions a ! i) =
              (\<Inter>s\<in>set (Interaction.singles (Array.interactions a ! i)). Single.rows (Array.singles a ! s))) \<and>
         (\<forall>k<length (Array.sets a).
            T.rows (Array.sets a ! k) =
              (\<Union>i\<in>set (T.interactions (Array.sets a ! k)). Interaction.rows (Array.interactions a ! i))) \<and>
         (\<forall>x\<in>row_ids a. int (unat (in_num_rows inp)) < x \<and>
            x \<le> int (unat (in_num_rows inp)) + int (length calls))"
proof -
  let ?N = "unat (in_num_rows inp)"
  from ctor_initial[OF assms(1,2)] have w0: "well_formed a0" and u0: "unused a0"
    and n0: "num_tests a0 = in_num_rows inp" by simp_all
  from u0 have e0: "Array.rows a0 = []" by (simp add: unused_def)
  from initial_rows_ok[OF w0 u0] have r0: "rows_ok ?N a0" by (simp add: n0)
  have "?N + length (Array.rows a0) + length calls < 2 ^ 31" using assms(4) e0 by simp
  from run_rows_ok[OF w0 r0 this assms(3)] e0
  have w: "well_formed a" and ro: "rows_ok ?N a" and l: "length (Array.rows a) = length calls" by simp_all
  from ro have nt: "num_tests a = of_nat (?N + length (Array.rows a))"
    and rs: "\<forall>s<length (Array.singles a).
        Single.rows (Array.singles a ! s) =
          row_ids_with ?N (Array.rows a) (factor (Array.singles a ! s)) (int (svalue (Array.singles a ! s)))"
    and ri: "\<forall>i<length (Array.interactions a).
        Interaction.rows (Array.interactions a ! i) =
          (\<Inter>s\<in>set (Interaction.singles (Array.interactions a ! i)). Single.rows (Array.singles a ! s))"
    and rt: "\<forall>k<length (Array.sets a).
        T.rows (Array.sets a ! k) =
          (\<Union>i\<in>set (T.interactions (Array.sets a ! k)). Interaction.rows (Array.interactions a ! i))"
    by (simp_all add: rows_ok_def)
  have 1: "num_tests a = in_num_rows inp + of_nat (length calls)" using nt l by simp
  have bs: "int ?N < x \<and> x \<le> int ?N + int (length calls)"
    if "s < length (Array.singles a)" "x \<in> Single.rows (Array.singles a ! s)" for s x
    using row_ids_with_bound[of x ?N "Array.rows a"] rs that l by auto
  have bi: "int ?N < x \<and> x \<le> int ?N + int (length calls)"
    if i: "i < length (Array.interactions a)" and x: "x \<in> Interaction.rows (Array.interactions a ! i)" for i x
  proof -
    from w have "1 \<le> t a" by (simp add: well_formed_def)
    with well_formed_interaction(1)[OF w i] have "Interaction.singles (Array.interactions a ! i) \<noteq> []" by auto
    then obtain s0 where s0: "s0 \<in> set (Interaction.singles (Array.interactions a ! i))"
      by (cases "Interaction.singles (Array.interactions a ! i)") auto
    with well_formed_interaction(2)[OF w i] have v: "s0 < length (Array.singles a)" by auto
    from x ri i s0 have "x \<in> Single.rows (Array.singles a ! s0)" by auto
    from bs[OF v this] show ?thesis .
  qed
  have bt: "int ?N < x \<and> x \<le> int ?N + int (length calls)"
    if k: "k < length (Array.sets a)" and x: "x \<in> T.rows (Array.sets a ! k)" for k x
  proof -
    from x rt k obtain i where i: "i \<in> set (T.interactions (Array.sets a ! k))"
      "x \<in> Interaction.rows (Array.interactions a ! i)" by auto
    with well_formed_set_members[OF w k] have "i < length (Array.interactions a)" by auto
    from bi[OF this i(2)] show ?thesis .
  qed
  have 2: "\<forall>x\<in>row_ids a. int ?N < x \<and> x \<le> int ?N + int (length calls)"
    unfolding row_ids_def using bs bi bt by (auto simp: in_set_conv_nth)
  from l 1 rs ri rt 2 show ?thesis by (simp add: row_ids_with_def)
qed

theorem rows_sets_are_consistent_witness:
  "\<exists>a r. run (\<lambda>k. k) [False, True] (array_22 all, rng_110) = Inr (a, r) \<and>
         length (Array.rows a) = 2 \<and> num_tests a = 2 \<and>
         Single.rows (Array.singles a ! 1) =
           {int (k + 1) |k. k < length (Array.rows a) \<and> Array.rows a ! k ! 0 = 1} \<and>
         Interaction.rows (Array.interactions a ! 3) =
           (\<Inter>s\<in>set (Interaction.singles (Array.interactions a ! 3)). Single.rows (Array.singles a ! s)) \<and>
         T.rows (Array.sets a ! 3) =
           (\<Union>i\<in>set (T.interactions (Array.sets a ! 3)). Interaction.rows (Array.interactions a ! i))"
proof -
  have c: "case Array_ctor (parser_22 all) of Inl e \<Rightarrow> False | Inr a \<Rightarrow> True" by code_simp
  then obtain a0 where a0: "Array_ctor (parser_22 all) = Inr a0"
    by (cases "Array_ctor (parser_22 all)") auto
  then have e0: "array_22 all = a0" by (simp add: array_22_def)
  have "case run (\<lambda>k. k) [False, True] (array_22 all, rng_110) of
          Inl e \<Rightarrow> False
        | Inr (a, r) \<Rightarrow> 1 < length (Array.singles a) \<and> factor (Array.singles a ! 1) = 0 \<and>
            svalue (Array.singles a ! 1) = 1 \<and> 3 < length (Array.interactions a) \<and>
            3 < length (Array.sets a)"
    by code_simp
  then obtain a r where a: "run (\<lambda>k. k) [False, True] (a0, rng_110) = Inr (a, r)"
    "1 < length (Array.singles a)" "factor (Array.singles a ! 1) = 0" "svalue (Array.singles a ! 1) = 1"
    "3 < length (Array.interactions a)" "3 < length (Array.sets a)"
    by (cases "run (\<lambda>k. k) [False, True] (array_22 all, rng_110)") (auto simp: e0)
  have h: "in_t (parser_22 all) \<le> in_num_cols (parser_22 all)"
    "unat (in_num_rows (parser_22 all)) + length [False, True] < 2 ^ 31"
    "in_num_rows (parser_22 all) = 0"
    by (simp_all add: parser_22_def)
  from rows_sets_are_consistent[OF a0 h(1) a(1) h(2)] a(2-6) h(3) a(1) e0
  show ?thesis by (intro exI[of _ a] exI[of _ r]) simp
qed

section \<open>C4: the look-ahead call\<close>

text \<open>
  C4: \<^verbatim>\<open>update_array(row, row_interactions, keep = false)\<close> fails exactly when the call with
  \<^verbatim>\<open>keep = true\<close> fails; otherwise it leaves the committed rows and \<^verbatim>\<open>num_tests\<close> as they
  were before the call, every counter (score, coverage, location and detection problems, the
  three issue counters of every Single) at the value the call with \<^verbatim>\<open>keep = true\<close> gives it,
  and the rows sets of all Singles, Interactions and sets as they were before the call. The
  Interactions of the row have finitely many sets, and the id the row would get (the 32-bit
  reading of \<^verbatim>\<open>num_tests + 1\<close>) is in no rows set yet.
\<close>

theorem look_ahead_keeps_counters_and_restores_rows:
  assumes fin: "\<forall>i\<in>row_interactions. finite (Interaction.sets (Array.interactions a ! i))"
    and fresh: "row_id (num_tests a + 1) \<notin> row_ids a"
  shows "case update_array row row_interactions True a of
           Inl e \<Rightarrow> update_array row row_interactions False a = Inl e
         | Inr b \<Rightarrow>
             (\<exists>c. update_array row row_interactions False a = Inr c \<and>
                  Array.rows c = Array.rows a \<and> num_tests c = num_tests a \<and>
                  score c = score b \<and> coverage_problems c = coverage_problems b \<and>
                  location_problems c = location_problems b \<and>
                  detection_problems c = detection_problems b \<and>
                  map c_issues (Array.singles c) = map c_issues (Array.singles b) \<and>
                  map l_issues (Array.singles c) = map l_issues (Array.singles b) \<and>
                  map d_issues (Array.singles c) = map d_issues (Array.singles b) \<and>
                  map Single.rows (Array.singles c) = map Single.rows (Array.singles a) \<and>
                  map Interaction.rows (Array.interactions c) =
                    map Interaction.rows (Array.interactions a) \<and>
                  map T.rows (Array.sets c) = map T.rows (Array.sets a))"
proof (cases "update_array row row_interactions True a")
  case (Inl e)
  then show ?thesis by (simp add: update_array_keep[of row row_interactions False a])
next
  case (Inr b)
  let ?k = "row_id (num_tests a + 1)"
  let ?L = "sorted_list_of_set row_interactions"
  let ?SS = "\<Union>i\<in>set ?L. set (Interaction.singles (Array.interactions a ! i))"
  obtain a3 rs where f: "fold (insert_row ?k) ?L (pushed row a, {}) = (a3, rs)"
    by (cases "fold (insert_row ?k) ?L (pushed row a, {})")
  from marked_insert_rows[OF f]
  have m3: "marked (insert ?k) ?SS (set ?L)
              (\<Union>i\<in>set ?L. set (sorted_list_of_set (Interaction.sets (Array.interactions a ! i))))
              (pushed row a) a3"
    and rs: "rs = (\<Union>i\<in>set ?L. Interaction.sets (Array.interactions a ! i))"
    by (simp_all add: pushed_def)
  have L: "set ?L \<subseteq> row_interactions" by (rule set_sorted_list_subset)
  with fin have fi: "\<forall>i\<in>set ?L. finite (Interaction.sets (Array.interactions a ! i))" by blast
  then have "finite rs" unfolding rs by blast
  then have srs: "set (sorted_list_of_set rs) = rs" by simp
  have TT: "(\<Union>i\<in>set ?L. set (sorted_list_of_set (Interaction.sets (Array.interactions a ! i)))) = rs"
    unfolding rs using fi by simp
  from update_array_True[OF Inr] f have mb: "mid_view b = mid_view a3" by simp
  then have stb: "st_view b = st_view a3" and rvb: "rows_view b = rows_view a3"
    by (simp_all add: mid_view_def)
  from m3 have st3: "st_view a3 = st_view (pushed row a)" by (simp add: marked_def)
  have ntb: "num_tests b = num_tests a + 1" "Array.rows b = Array.rows a @ [row]"
    using rvb m3 by (simp_all add: rows_view_def marked_def pushed_def)
  have sing: "Interaction.singles (Array.interactions b ! i) = Interaction.singles (Array.interactions a ! i)" for i
    using st_view_reads(1)[OF stb, of i] st_view_reads(1)[OF st3, of i] by (simp add: pushed_def)
  from marked_rollback[of b row_interactions rs] obtain c0 where
    mc: "marked (\<lambda>r. r - {?k}) ?SS (set ?L) rs b c0" and
    c: "rollback row_interactions rs b = c0\<lparr>num_tests := num_tests b - 1, Array.rows := butlast (Array.rows b)\<rparr>"
    by (auto simp: ntb sing srs)
  define c where "c = rollback row_interactions rs b"
  have upd: "update_array row row_interactions False a = Inr c"
    using Inr f by (simp add: update_array_keep[of row row_interactions False a] c_def)
  have cv: "cnt_view c = cnt_view b" using mc by (simp add: c_def c marked_def)
  have fr: "\<forall>x\<in>set (Array.singles a). ?k \<notin> Single.rows x"
    "\<forall>x\<in>set (Array.interactions a). ?k \<notin> Interaction.rows x"
    "\<forall>x\<in>set (Array.sets a). ?k \<notin> T.rows x"
    using fresh by (auto simp: row_ids_def)
  have r1: "map Single.rows (Array.singles c) = map Single.rows (Array.singles a)"
  proof (rule unmark[where A = ?SS and k = ?k and ys = "Array.singles a3" and ys' = "Array.singles b"])
    show "map Single.rows (Array.singles a3) =
      map (\<lambda>i. if i \<in> ?SS then insert ?k (Single.rows (Array.singles a ! i)) else Single.rows (Array.singles a ! i))
        [0..<length (Array.singles a)]"
      using m3 by (simp add: marked_def pushed_def)
    show "map Single.rows (Array.singles c) =
      map (\<lambda>i. if i \<in> ?SS then Single.rows (Array.singles b ! i) - {?k} else Single.rows (Array.singles b ! i))
        [0..<length (Array.singles b)]"
      using mc by (simp add: c_def c marked_def)
    show "map Single.rows (Array.singles b) = map Single.rows (Array.singles a3)"
      using rvb by (simp add: rows_view_def)
    show "\<forall>x\<in>set (Array.singles a). ?k \<notin> Single.rows x" by (rule fr)
  qed
  have r2: "map Interaction.rows (Array.interactions c) = map Interaction.rows (Array.interactions a)"
  proof (rule unmark[where A = "set ?L" and k = ?k and ys = "Array.interactions a3" and ys' = "Array.interactions b"])
    show "map Interaction.rows (Array.interactions a3) =
      map (\<lambda>i. if i \<in> set ?L then insert ?k (Interaction.rows (Array.interactions a ! i))
               else Interaction.rows (Array.interactions a ! i))
        [0..<length (Array.interactions a)]"
      using m3 by (simp add: marked_def pushed_def)
    show "map Interaction.rows (Array.interactions c) =
      map (\<lambda>i. if i \<in> set ?L then Interaction.rows (Array.interactions b ! i) - {?k}
               else Interaction.rows (Array.interactions b ! i))
        [0..<length (Array.interactions b)]"
      using mc by (simp add: c_def c marked_def)
    show "map Interaction.rows (Array.interactions b) = map Interaction.rows (Array.interactions a3)"
      using rvb by (simp add: rows_view_def)
    show "\<forall>x\<in>set (Array.interactions a). ?k \<notin> Interaction.rows x" by (rule fr)
  qed
  have r3: "map T.rows (Array.sets c) = map T.rows (Array.sets a)"
  proof (rule unmark[where A = rs and k = ?k and ys = "Array.sets a3" and ys' = "Array.sets b"])
    show "map T.rows (Array.sets a3) =
      map (\<lambda>i. if i \<in> rs then insert ?k (T.rows (Array.sets a ! i)) else T.rows (Array.sets a ! i))
        [0..<length (Array.sets a)]"
      using m3 by (simp add: marked_def pushed_def TT)
    show "map T.rows (Array.sets c) =
      map (\<lambda>i. if i \<in> rs then T.rows (Array.sets b ! i) - {?k} else T.rows (Array.sets b ! i))
        [0..<length (Array.sets b)]"
      using mc by (simp add: c_def c marked_def)
    show "map T.rows (Array.sets b) = map T.rows (Array.sets a3)"
      using rvb by (simp add: rows_view_def)
    show "\<forall>x\<in>set (Array.sets a). ?k \<notin> T.rows x" by (rule fr)
  qed
  have cnt: "score c = score b" "coverage_problems c = coverage_problems b"
    "location_problems c = location_problems b" "detection_problems c = detection_problems b"
    "map (\<lambda>s. (c_issues s, l_issues s, d_issues s)) (Array.singles c) =
     map (\<lambda>s. (c_issues s, l_issues s, d_issues s)) (Array.singles b)"
    using cv by (simp_all add: cnt_view_def)
  from cnt(5) have "map (fst) (map (\<lambda>s. (c_issues s, l_issues s, d_issues s)) (Array.singles c)) =
     map fst (map (\<lambda>s. (c_issues s, l_issues s, d_issues s)) (Array.singles b))" by simp
  then have i1: "map c_issues (Array.singles c) = map c_issues (Array.singles b)" by (simp add: comp_def)
  from cnt(5) have "map (fst \<circ> snd) (map (\<lambda>s. (c_issues s, l_issues s, d_issues s)) (Array.singles c)) =
     map (fst \<circ> snd) (map (\<lambda>s. (c_issues s, l_issues s, d_issues s)) (Array.singles b))" by simp
  then have i2: "map l_issues (Array.singles c) = map l_issues (Array.singles b)" by (simp add: comp_def)
  from cnt(5) have "map (snd \<circ> snd) (map (\<lambda>s. (c_issues s, l_issues s, d_issues s)) (Array.singles c)) =
     map (snd \<circ> snd) (map (\<lambda>s. (c_issues s, l_issues s, d_issues s)) (Array.singles b))" by simp
  then have i3: "map d_issues (Array.singles c) = map d_issues (Array.singles b)" by (simp add: comp_def)
  have "Array.rows c = Array.rows a" "num_tests c = num_tests a"
    using mc by (simp_all add: c_def c ntb)
  with upd cnt(1-4) i1 i2 i3 r1 r2 r3 Inr show ?thesis by simp
qed

theorem look_ahead_keeps_counters_and_restores_rows_witness:
  "finite (Interaction.sets (Array.interactions (array_22_row all) ! 2)) \<and>
   row_id (num_tests (array_22_row all) + 1) \<notin> row_ids (array_22_row all) \<and>
   (\<exists>b c. update_array [1, 0] {2} True (array_22_row all) = Inr b \<and>
          update_array [1, 0] {2} False (array_22_row all) = Inr c \<and>
          score b = 26 \<and> score c = 26 \<and> score (array_22_row all) = 39 \<and>
          Array.rows b = [[0, 1], [1, 0]] \<and> Array.rows c = [[0, 1]] \<and>
          num_tests b = 2 \<and> num_tests c = 1 \<and>
          map Interaction.rows (Array.interactions c) =
            map Interaction.rows (Array.interactions (array_22_row all)))"
proof -
  have "Interaction.sets (Array.interactions (array_22_row all) ! 2) = {2}"
    by code_simp
  then have h1: "\<forall>i\<in>{2}. finite (Interaction.sets (Array.interactions (array_22_row all) ! i))"
    by simp
  have h2: "row_id (num_tests (array_22_row all) + 1) \<notin> row_ids (array_22_row all)"
    by code_simp
  have e: "case update_array [1, 0] {2} True (array_22_row all) of
             Inl e \<Rightarrow> False
           | Inr b \<Rightarrow> score b = 26 \<and> Array.rows b = [[0, 1], [1, 0]] \<and> num_tests b = 2"
    by code_simp
  then obtain b where b: "update_array [1, 0] {2} True (array_22_row all) = Inr b"
    "score b = 26" "Array.rows b = [[0, 1], [1, 0]]" "num_tests b = 2"
    by (cases "update_array [1, 0] {2} True (array_22_row all)") auto
  have a: "score (array_22_row all) = 39 \<and> Array.rows (array_22_row all) = [[0, 1]] \<and>
           num_tests (array_22_row all) = 1"
    by code_simp
  from look_ahead_keeps_counters_and_restores_rows[OF h1 h2, of "[1, 0]"] b a h1 h2
  show ?thesis by auto
qed

section \<open>C5: what clone copies\<close>

text \<open>
  C5 says that \<^verbatim>\<open>clone()\<close> returns an Array with the same counters, \<open>total_problems\<close>
  among them, and the same rows. The constructor that \<^verbatim>\<open>clone\<close> uses stores the
  \<open>total_problems\<close> it is given and then calls \<^verbatim>\<open>build_t_way_interactions\<close>, which adds one
  per Single of every Interaction to it again; \<^verbatim>\<open>clone\<close> overwrites \<open>score\<close> and the Singles'
  counters afterwards, but not \<open>total_problems\<close>. In the phase coverage-only the same
  constructor returns before it copies the rows. With two factors of two levels, strength 2
  and the row \<open>[0, 1]\<close> committed, the original has \<open>total_problems = 12\<close> and one row, its
  clone has \<open>total_problems = 20\<close> and no row.
\<close>

theorem clone_differs_in_total_problems_and_rows:
  "\<exists>c. clone (array_22_row c_only) = Inr c \<and>
       total_problems (array_22_row c_only) = 12 \<and> total_problems c = 20 \<and>
       Array.rows (array_22_row c_only) = [[0, 1]] \<and> Array.rows c = [] \<and>
       num_tests c = 1 \<and> score c = score (array_22_row c_only)"
proof -
  have "case clone (array_22_row c_only) of
          Inl e \<Rightarrow> False
        | Inr c \<Rightarrow> total_problems (array_22_row c_only) = 12 \<and> total_problems c = 20 \<and>
                   Array.rows (array_22_row c_only) = [[0, 1]] \<and> Array.rows c = [] \<and>
                   num_tests c = 1 \<and> score c = score (array_22_row c_only)"
    by code_simp
  then show ?thesis by (cases "clone (array_22_row c_only)") auto
qed

section \<open>C6: what the enumeration of the Interactions counts\<close>

text \<open>
  C6 as stated: each enumerated Interaction adds 1 to the \<open>c_issues\<close> of every Single of
  it and 1 to \<open>score\<close> and to \<open>total_problems\<close>. With the Singles 0 (factor 0, value 0) and
  2 (factor 1, value 0), the Interaction of both adds 2 to \<open>score\<close> and to \<open>total_problems\<close>,
  not 1.
\<close>

theorem add_interaction_adds_two:
  "score (add_interaction [0, 2] factors_22) = score factors_22 + 2 \<and>
   total_problems (add_interaction [0, 2] factors_22) = total_problems factors_22 + 2 \<and>
   score (add_interaction [0, 2] factors_22) \<noteq> score factors_22 + 1 \<and>
   total_problems (add_interaction [0, 2] factors_22) \<noteq> total_problems factors_22 + 1"
  by code_simp

text \<open>
  C6 as amended: the base case of \<^verbatim>\<open>build_t_way_interactions\<close>, run on the Singles
  \<open>singles_so_far\<close> of one Interaction, adds 1 to the \<open>c_issues\<close> of each of them and leaves
  the other Singles alone, and adds 1 per Single of the Interaction to \<open>score\<close> and to
  \<open>total_problems\<close>. So when \<^verbatim>\<open>build_t_way_interactions(start, t_cur, singles_so_far)\<close>
  returns, \<open>score\<close>, \<open>total_problems\<close> and the sum of all \<open>c_issues\<close> have each grown by
  \<open>length singles_so_far + t_cur\<close> (that is \<open>t\<close> for the call of the constructor) times the
  number of Interactions it added.
\<close>

theorem interaction_enumeration_counts:
  assumes "valid_factors a"
    and "\<forall>s\<in>set singles_so_far. s < length (Array.singles a)"
    and "distinct singles_so_far"
  shows "score (add_interaction singles_so_far a) = score a + of_nat (length singles_so_far) \<and>
         total_problems (add_interaction singles_so_far a) =
           total_problems a + of_nat (length singles_so_far) \<and>
         (\<forall>s<length (Array.singles a).
            c_issues (Array.singles (add_interaction singles_so_far a) ! s) =
              c_issues (Array.singles a ! s) + (if s \<in> set singles_so_far then 1 else 0)) \<and>
         grown (length singles_so_far + t_cur) a
           (build_t_way_interactions start t_cur singles_so_far a)"
proof -
  from assms(2) have sub: "set singles_so_far \<subseteq> {..<length (Array.singles a)}" by auto
  have "c_issues (Array.singles (add_interaction singles_so_far a) ! s) =
          c_issues (Array.singles a ! s) + (if s \<in> set singles_so_far then 1 else 0)"
    if "s < length (Array.singles a)" for s
    using that count_list_distinct[OF assms(3), of s]
    by (simp add: add_interaction_alt count_steps_c_issues)
  then show ?thesis
    using build_t_way_grown[OF assms(1) sub]
    by (simp add: add_interaction_alt count_steps)
qed

theorem interaction_enumeration_counts_witness:
  "score (add_interaction [0] factors_22) = score factors_22 + 1 \<and>
   c_issues (Array.singles (add_interaction [0] factors_22) ! 0) = 1 \<and>
   length (Array.interactions (build_t_way_interactions 1 1 [0] factors_22)) = 2 \<and>
   score (build_t_way_interactions 1 1 [0] factors_22) = 4"
proof -
  have v: "valid_factors factors_22" by code_simp
  have s: "\<forall>s\<in>set [0::nat]. s < length (Array.singles factors_22)" by code_simp
  have e: "length (Array.interactions (build_t_way_interactions 1 1 [0] factors_22)) = 2 \<and>
           length (Array.interactions factors_22) = 0 \<and> score factors_22 = 0 \<and>
           c_issues (Array.singles factors_22 ! 0) = 0 \<and> length (Array.singles factors_22) = 4"
    by code_simp
  from interaction_enumeration_counts[OF v s, of 1 1] e show ?thesis
    by (simp add: grown_def)
qed

section \<open>C7: heuristic_l_only\<close>

text \<open>
  C7 as stated: in a factor that holds no Single of the locked T set, the row gets the level
  whose Single has the highest count, and keeps the value of the initializer when the counts
  tie. In \<open>array_l2\<close> the T sets with the most conflicts have three each; with the generator
  \<open>rng_110\<close>, \<^verbatim>\<open>initialize_row_T\<close> returns the row \<open>[1, 1]\<close> and locks T set 0, whose two
  Singles are the two levels of factor 0. In factor 1 both levels have the count 2: the counts
  tie, and \<^verbatim>\<open>heuristic_l_only\<close> replaces the 1 of the initializer by 0.
\<close>

theorem heuristic_l_only_breaks_tie_by_first_level:
  "map_sum id fst (initialize_row_T (array_l2, rng_110)) = Inr ([1, 1], 0) \<and>
   map (\<lambda>s. factor (Array.singles array_l2 ! s)) (T.singles (Array.sets array_l2 ! 0)) = [0, 0] \<and>
   conflict_count array_l2 0 (1, 0) = 2 \<and> conflict_count array_l2 0 (1, 1) = 2 \<and>
   map_sum id fst (heuristic_l_only [1, 1] 0 (array_l2, rng_110)) = Inr [1, 0]"
  by code_simp

text \<open>
  C7 as amended: \<^verbatim>\<open>heuristic_l_only\<close> leaves the Array alone; it counts for every Single how
  often it occurs in the lists of Singles of the T sets that conflict with the locked T set;
  a factor that holds a Single of the locked T set keeps its value; in any other factor the
  row keeps its value when all counts of the factor are 0, and otherwise gets the lowest
  level among those whose count is the highest.
\<close>

theorem heuristic_l_only_first_maximum:
  assumes run: "heuristic_l_only row locked (a, r) = Inr (row', a', r')"
    and len: "length row = num_factors a"
    and col: "col < num_factors a"
  shows "a' = a \<and>
         (if \<exists>s\<in>set (T.singles (Array.sets a ! locked)). factor (Array.singles a ! s) = col
          then row' ! col = row ! col
          else if \<forall>v<level (factors a ! col). conflict_count a locked (col, int v) = 0
          then row' ! col = row ! col
          else \<exists>v<level (factors a ! col). row' ! col = int v \<and>
                 (\<forall>w<level (factors a ! col).
                     conflict_count a locked (col, int w) \<le> conflict_count a locked (col, int v)) \<and>
                 (\<forall>w<v. conflict_count a locked (col, int w) < conflict_count a locked (col, int v)))"
proof -
  define lf where "lf = fold (\<lambda>s lf. lf[factor (Array.singles a ! s) := True])
                            (T.singles (Array.sets a ! locked)) (replicate (num_factors a) False)"
  from run obtain scores where
    sc: "fold_err (count_conflict a)
           (sorted_list_of_set (location_conflicts (Array.sets a ! locked))) (init_scores a) = Inr scores"
    and cols: "fold_err (l_only_column a lf scores) [0..<num_factors a] row = Inr row'"
    and a': "a' = a"
    by (auto simp: heuristic_l_only_def lf_def split: sum.splits)
  have cnt: "scores ky = Some c \<Longrightarrow> c = conflict_count a locked ky" for ky c
    using count_conflict_scores[OF sc, of ky] init_scores_zero[of a ky]
    by (cases "init_scores a ky") (auto simp: conflict_count_def)
  have lfc: "lf ! col = (\<exists>s\<in>set (T.singles (Array.sets a ! locked)). factor (Array.singles a ! s) = col)"
    unfolding lf_def using col by (subst locked_factors_nth) auto
  from l_only_columns_at[OF cols col] obtain r1 where
    r1: "l_only_column a lf scores col row = Inr r1" and eq: "row' ! col = r1 ! col" by blast
  show ?thesis
  proof (cases "lf ! col")
    case True
    with r1 eq lfc a' show ?thesis by (auto simp: l_only_column_def)
  next
    case False
    with r1 obtain bv bs where
      b: "fold_err (best_val_step scores col) [0..<level (factors a ! col)] (0, 0) = Inr (bv, bs)"
      and r1': "r1 = (if bs \<noteq> 0 then row[col := int bv] else row)"
      by (auto simp: l_only_column_def split: sum.splits)
    note bl = best_val_loop[OF b]
    show ?thesis
    proof (cases "bs = 0")
      case True
      with bl have "\<forall>v<level (factors a ! col). conflict_count a locked (col, int v) = 0"
        using cnt by fastforce
      with True r1' eq False lfc a' show ?thesis by auto
    next
      case bs: False
      with bl have bv: "bv < level (factors a ! col)" "scores (col, int bv) = Some bs"
        and lt: "\<forall>v<bv. \<exists>c. scores (col, int v) = Some c \<and> c < bs"
        and le: "\<forall>v<level (factors a ! col). \<exists>c. scores (col, int v) = Some c \<and> c \<le> bs" by auto
      from bv cnt have bsc: "bs = conflict_count a locked (col, int bv)" by auto
      have "\<not> (\<forall>v<level (factors a ! col). conflict_count a locked (col, int v) = 0)"
        using bv bs bsc by auto
      moreover have "row' ! col = int bv" using eq r1' bs col len by simp
      moreover have "\<forall>w<level (factors a ! col).
                     conflict_count a locked (col, int w) \<le> conflict_count a locked (col, int bv)"
        using le cnt bsc by fastforce
      moreover have "\<forall>w<bv. conflict_count a locked (col, int w) < conflict_count a locked (col, int bv)"
        using lt cnt bsc by fastforce
      ultimately show ?thesis using False lfc a' bv by auto
    qed
  qed
qed

theorem heuristic_l_only_first_maximum_witness:
  "\<exists>row'. heuristic_l_only [1, 1] 0 (array_l2, rng_110) = Inr (row', array_l2, rng_110) \<and>
          row' ! 0 = 1 \<and>
          (\<exists>v<level (factors array_l2 ! 1). row' ! 1 = int v \<and>
              (\<forall>w<v. conflict_count array_l2 0 (1, int w) < conflict_count array_l2 0 (1, int v)))"
proof -
  have e: "case heuristic_l_only [1, 1] 0 (array_l2, rng_110) of Inl e \<Rightarrow> False | Inr x \<Rightarrow> True"
    by code_simp
  then obtain x where x: "heuristic_l_only [1, 1] 0 (array_l2, rng_110) = Inr x"
    by (cases "heuristic_l_only [1, 1] 0 (array_l2, rng_110)") auto
  from heuristic_l_only_frame[OF x] obtain row' where
    run: "heuristic_l_only [1, 1] 0 (array_l2, rng_110) = Inr (row', array_l2, rng_110)"
    using x by (cases x) auto
  have n: "length [1, 1 :: int] = num_factors array_l2" by code_simp
  have c: "map (\<lambda>s. factor (Array.singles array_l2 ! s)) (T.singles (Array.sets array_l2 ! 0)) = [0, 0] \<and>
           conflict_count array_l2 0 (1, 0) = 2 \<and> level (factors array_l2 ! 1) = 2"
    by code_simp
  then have s: "set (T.singles (Array.sets array_l2 ! 0)) \<noteq> {}"
    "\<forall>s\<in>set (T.singles (Array.sets array_l2 ! 0)). factor (Array.singles array_l2 ! s) = 0"
    by (auto simp: map_eq_Cons_conv)
  have nz: "\<not> (\<forall>v<level (factors array_l2 ! 1). conflict_count array_l2 0 (1, int v) = 0)"
    using c by (auto intro!: exI[of _ 0])
  from heuristic_l_only_first_maximum[OF run n, of 0] s n
  have "row' ! 0 = 1" by (auto split: if_splits)
  moreover from heuristic_l_only_first_maximum[OF run n, of 1] s n nz
  have "\<exists>v<level (factors array_l2 ! 1). row' ! 1 = int v \<and>
              (\<forall>w<v. conflict_count array_l2 0 (1, int w) < conflict_count array_l2 0 (1, int v))"
    by (auto split: if_splits)
  ultimately show ?thesis using run by blast
qed

section \<open>C8: flags are monotone\<close>

text \<open>
  C8: over any sequence of calls of \<^verbatim>\<open>update_array\<close> that return, with \<^verbatim>\<open>keep\<close> true or false,
  the flags \<^verbatim>\<open>is_covering\<close>, \<^verbatim>\<open>is_locating\<close> and \<^verbatim>\<open>is_detecting\<close> of the Array, \<^verbatim>\<open>is_covered\<close>
  and \<^verbatim>\<open>is_detectable\<close> of every Interaction and \<^verbatim>\<open>is_locatable\<close> of every set stay true once
  they are true.
\<close>

theorem flags_are_never_reset:
  assumes "update_arrays calls a = Inr b"
  shows "(is_covering a \<longrightarrow> is_covering b) \<and> (is_locating a \<longrightarrow> is_locating b) \<and>
         (is_detecting a \<longrightarrow> is_detecting b) \<and>
         length (Array.interactions b) = length (Array.interactions a) \<and>
         length (Array.sets b) = length (Array.sets a) \<and>
         (\<forall>i<length (Array.interactions a).
            (is_covered (Array.interactions a ! i) \<longrightarrow> is_covered (Array.interactions b ! i)) \<and>
            (is_detectable (Array.interactions a ! i) \<longrightarrow> is_detectable (Array.interactions b ! i))) \<and>
         (\<forall>k<length (Array.sets a).
            is_locatable (Array.sets a ! k) \<longrightarrow> is_locatable (Array.sets b ! k))"
proof -
  have "flags_le {} a b"
  proof (rule fold_err_inv[where P = "flags_le {} a", OF _ flags_le_refl assms[unfolded update_arrays_def]])
    fix x s s'
    assume "flags_le {} a s"
      and "(case x of (row, row_interactions, keep) \<Rightarrow> update_array row row_interactions keep) s = Inr s'"
    then show "flags_le {} a s'"
      by (cases x) (auto intro: flags_le_trans flags_le_update_array)
  qed
  then show ?thesis by (simp add: flags_le_def)
qed

theorem flags_are_never_reset_witness:
  "\<exists>b. update_arrays [([1, 0], {2}, True), ([0, 0], {0}, False)] (array_22_row all) = Inr b \<and>
       is_covered (Array.interactions (array_22_row all) ! 1) \<and>
       is_covered (Array.interactions b ! 1) \<and>
       is_detectable (Array.interactions (array_22_row all) ! 1) \<and>
       is_detectable (Array.interactions b ! 1) \<and>
       is_locatable (Array.sets (array_22_row all) ! 1) \<and>
       is_locatable (Array.sets b ! 1)"
proof -
  have e: "case update_arrays [([1, 0], {2}, True), ([0, 0], {0}, False)] (array_22_row all) of
             Inl e \<Rightarrow> False | Inr b \<Rightarrow> True"
    by code_simp
  then obtain b where
    b: "update_arrays [([1, 0], {2}, True), ([0, 0], {0}, False)] (array_22_row all) = Inr b"
    by (cases "update_arrays [([1, 0], {2}, True), ([0, 0], {0}, False)] (array_22_row all)") auto
  have f: "is_covered (Array.interactions (array_22_row all) ! 1) \<and>
           is_detectable (Array.interactions (array_22_row all) ! 1) \<and>
           is_locatable (Array.sets (array_22_row all) ! 1) \<and>
           1 < length (Array.interactions (array_22_row all)) \<and>
           1 < length (Array.sets (array_22_row all))"
    by code_simp
  from flags_are_never_reset[OF b] f b show ?thesis by blast
qed

section \<open>C9: the heuristics write the candidate row only\<close>



section \<open>C10: a clone has no dont_cares and no permutation\<close>



end
